(* ===== verification/Rpc_Prelude.thy ===== *)
theory Rpc_Prelude
  imports Main "HOL-Library.Word" "HOL-Library.AList"
begin

text \<open>
  Shared vocabulary of the development.

  \<^item> C++ integers are words of their width; a \<^verbatim>\<open>std::string\<close> or a \<^verbatim>\<open>std::vector<char>\<close> is a
    \<^typ>\<open>string\<close>, whose elements are the 8-bit \<^typ>\<open>char\<close>s of the program.
  \<^item> A call ends in one of three ways: it returns, it throws, or it reaches behaviour that the
    language leaves undefined (an out-of-range access, signed overflow). The type \<open>res\<close>
    keeps the three apart, so that ``never undefined'' is a statement of its own.
  \<^item> Raw memory is accessed through \<open>peek\<close> and \<open>blit\<close>, which are undefined outside the buffer.
  \<^item> A hash map is an association list with distinct keys: the list is one of the iteration
    orders the container may have.
\<close>

unbundle bit_operations_syntax

type_synonym u8 = "8 word"
type_synonym u16 = "16 word"
type_synonym u32 = "32 word"
type_synonym u64 = "64 word"
type_synonym i32 = "32 word"
type_synonym i64 = "64 word"

named_theorems res_simps \<open>unfolding of the result monad\<close>
named_theorems buf_simps \<open>reads and writes of byte buffers\<close>

section \<open>Results\<close>

text \<open>
  The exceptions of the program: \<^verbatim>\<open>std::runtime_error\<close> with its message, any other class derived
  from \<^verbatim>\<open>std::exception\<close>, and a thrown value of another type. The handlers of the program tell
  exactly these apart.
\<close>

datatype exn = RuntimeError string | StdException string | OtherException

datatype 'a res = Ret 'a | Throw exn | UB

fun bindR :: "'a res \<Rightarrow> ('a \<Rightarrow> 'b res) \<Rightarrow> 'b res" where
  "bindR (Ret x) f = f x"
| "bindR (Throw e) f = Throw e"
| "bindR UB f = UB"

definition guardR :: "bool \<Rightarrow> exn \<Rightarrow> 'b res \<Rightarrow> 'b res" where
  "guardR bad e m = (if bad then Throw e else m)"

lemma guardR_simps [simp, res_simps]:
  "guardR True e m = Throw e" "guardR False e m = m"
  by (simp_all add: guardR_def)

lemma bindR_eq_Ret: "bindR m f = Ret y \<longleftrightarrow> (\<exists>x. m = Ret x \<and> f x = Ret y)"
  by (cases m) auto

lemma bindR_neq_UB: "m \<noteq> UB \<Longrightarrow> (\<And>x. m = Ret x \<Longrightarrow> f x \<noteq> UB) \<Longrightarrow> bindR m f \<noteq> UB"
  by (cases m) auto

lemma guardR_eq_Ret: "guardR b e m = Ret y \<longleftrightarrow> \<not> b \<and> m = Ret y"
  by (simp add: guardR_def)

lemma guardR_neq_UB: "(\<not> b \<Longrightarrow> m \<noteq> UB) \<Longrightarrow> guardR b e m \<noteq> UB"
  by (simp add: guardR_def)

lemma bindR_assoc: "bindR (bindR m f) g = bindR m (\<lambda>x. bindR (f x) g)"
  by (cases m) auto

text \<open>\<^verbatim>\<open>boost::system::error_code\<close> as the completion handlers see it: no error, or an error with its message.\<close>

datatype ec = Success | Failure string

section \<open>Bytes\<close>

definition u8_of_char :: "char \<Rightarrow> u8" where
  "u8_of_char c = word_of_nat (of_char c)"

definition char_of_u8 :: "u8 \<Rightarrow> char" where
  "char_of_u8 w = char_of (unat w)"

lemma u8_of_char_of_u8 [simp]: "u8_of_char (char_of_u8 w) = w"
proof -
  have "unat w < 256" using unsigned_less [of w] by simp
  then show ?thesis by (simp add: u8_of_char_def char_of_u8_def of_char_of)
qed

lemma char_of_u8_of_char [simp]: "char_of_u8 (u8_of_char c) = c"
  by (simp add: u8_of_char_def char_of_u8_def unat_of_nat take_bit_eq_mod)

lemma char_of_u8_inject [simp]: "char_of_u8 a = char_of_u8 b \<longleftrightarrow> a = b"
  by (metis u8_of_char_of_u8)

lemma u8_of_char_inject [simp]: "u8_of_char a = u8_of_char b \<longleftrightarrow> a = b"
  by (metis char_of_u8_of_char)

lemma word_xor_cancel [simp]:
  fixes x :: "'a::len word"
  shows "x XOR z = y XOR z \<longleftrightarrow> x = y" and "z XOR x = z XOR y \<longleftrightarrow> x = y"
  by (metis xor.assoc xor_self_eq xor.right_neutral) (metis xor.assoc xor_self_eq xor.left_neutral)

lemma ucast_u8_inject [simp]: "(ucast (a :: u8) :: u32) = ucast b \<longleftrightarrow> a = b"
proof
  assume "(ucast a :: u32) = ucast b"
  then have "(ucast (ucast a :: u32) :: u8) = ucast (ucast b :: u32)" by (simp only:)
  moreover have "(ucast (ucast w :: u32) :: u8) = w" for w :: u8
    by (rule bit_word_eqI) (simp add: bit_simps)
  ultimately show "a = b" by simp
qed simp

section \<open>Buffers\<close>

text \<open>
  \<open>peek d pos n\<close> reads \<open>n\<close> bytes at \<^verbatim>\<open>&d[pos]\<close>; \<open>blit d pos xs\<close> stores \<open>xs\<close> there (an element
  store is the case of one byte, \<^verbatim>\<open>memcpy\<close> the general one).
\<close>

definition peek :: "string \<Rightarrow> nat \<Rightarrow> nat \<Rightarrow> string res" where
  "peek d pos n = (if pos + n \<le> length d then Ret (take n (drop pos d)) else UB)"

definition blit :: "string \<Rightarrow> nat \<Rightarrow> string \<Rightarrow> string res" where
  "blit d pos xs =
     (if pos + length xs \<le> length d
      then Ret (take pos d @ xs @ drop (pos + length xs) d) else UB)"

abbreviation NUL :: char where "NUL \<equiv> CHR 0x00"

lemma peek_append [simp, buf_simps]:
  "length pre = pos \<Longrightarrow> length xs = n \<Longrightarrow> peek (pre @ xs @ post) pos n = Ret xs"
  by (auto simp: peek_def)

lemma peek_ok [buf_simps]: "pos + n \<le> length d \<Longrightarrow> peek d pos n = Ret (take n (drop pos d))"
  by (simp add: peek_def)

lemma peek_eq_Ret: "peek d pos n = Ret xs \<longleftrightarrow> pos + n \<le> length d \<and> xs = take n (drop pos d)"
  by (auto simp: peek_def)

lemma peek_neq_UB: "pos + n \<le> length d \<Longrightarrow> peek d pos n \<noteq> UB"
  by (simp add: peek_def)

lemma length_peek: "peek d pos n = Ret xs \<Longrightarrow> length xs = n"
  by (auto simp: peek_def split: if_splits)

text \<open>
  A buffer that is filled from left to right: what is already written, then the zeros the
  constructor \<^verbatim>\<open>std::string(n, '\0')\<close> left.
\<close>

definition filled :: "string \<Rightarrow> nat \<Rightarrow> string" where
  "filled pre k = pre @ replicate k NUL"

lemma filled_start: "replicate k NUL = filled [] k"
  by (simp add: filled_def)

lemma filled_done [simp]: "filled pre 0 = pre"
  by (simp add: filled_def)

lemma blit_filled [simp, buf_simps]:
  "length pre = pos \<Longrightarrow> length xs \<le> k \<Longrightarrow>
   blit (filled pre k) pos xs = Ret (filled (pre @ xs) (k - length xs))"
  by (auto simp: blit_def filled_def)

end
