(* ===== verification/Rpc_Protocol.thy ===== *)
theory Rpc_Protocol
  imports Rpc_Prelude
begin

text \<open>
  The wire protocol of \<^verbatim>\<open>src/protocol/rpc_protocol.h\<close> and \<^verbatim>\<open>rpc_protocol.cpp\<close>: the 20-byte frame
  header, the request and response bodies, and the CRC32 of \<^verbatim>\<open>crc32_checksum\<close>. The serialisers fill
  a zeroed buffer in place, as the code does; the layouts \<open>header_layout\<close>, \<open>request_layout\<close> and
  \<open>response_layout\<close> are what the buffers are shown to hold. The locale \<open>message_codec\<close> is the
  contract the network code relies on, interpreted for the header and for both bodies.
\<close>

section \<open>Data\<close>

datatype MsgType = REQUEST | RESPONSE | RPC_ERROR | HEARTBEAT

fun msg_type_code :: "MsgType \<Rightarrow> u8" where
  "msg_type_code REQUEST = 0x01"
| "msg_type_code RESPONSE = 0x02"
| "msg_type_code RPC_ERROR = 0x03"
| "msg_type_code HEARTBEAT = 0x04"

datatype SerType = PROTOBUF | JSON

fun ser_type_code :: "SerType \<Rightarrow> u8" where
  "ser_type_code PROTOBUF = 0"
| "ser_type_code JSON = 1"

definition MAGIC :: u32 where "MAGIC = 0x52504301"
definition VERSION :: u8 where "VERSION = 1"
definition FLAG_NONE :: u8 where "FLAG_NONE = 0x00"
definition FLAG_COMPRESS :: u8 where "FLAG_COMPRESS = 0x01"
definition FLAG_ENCRYPT :: u8 where "FLAG_ENCRYPT = 0x02"

record RpcHeader =
  magic :: u32
  version :: u8
  msg_type :: u8
  serializer :: u8
  flags :: u8
  seq_id :: u32
  body_size :: u32
  checksum :: u32

record RpcRequest =
  service_name :: string
  method_name :: string
  timeout_ms :: u32
  params :: string

text \<open>\<^verbatim>\<open>error_code\<close> is an \<^verbatim>\<open>int32_t\<close>: its two's complement word, read with \<^const>\<open>sint\<close>.\<close>

record RpcResponse =
  error_code :: i32
  error_msg :: string
  result :: string

section \<open>Big-endian integers\<close>

definition be32 :: "u32 \<Rightarrow> string" where
  "be32 val =
     [char_of_u8 (ucast (drop_bit 24 val AND 0xFF)), char_of_u8 (ucast (drop_bit 16 val AND 0xFF)),
      char_of_u8 (ucast (drop_bit 8 val AND 0xFF)), char_of_u8 (ucast (val AND 0xFF))]"

definition be16 :: "u16 \<Rightarrow> string" where
  "be16 val =
     [char_of_u8 (ucast (drop_bit 8 val AND 0xFF)), char_of_u8 (ucast (val AND 0xFF))]"

definition of_be32 :: "string \<Rightarrow> u32" where
  "of_be32 buf =
     push_bit 24 (ucast (u8_of_char (buf ! 0))) OR push_bit 16 (ucast (u8_of_char (buf ! 1)))
     OR push_bit 8 (ucast (u8_of_char (buf ! 2))) OR ucast (u8_of_char (buf ! 3))"

definition of_be16 :: "string \<Rightarrow> u16" where
  "of_be16 buf = push_bit 8 (ucast (u8_of_char (buf ! 0))) OR ucast (u8_of_char (buf ! 1))"

definition write_u32 :: "string \<Rightarrow> nat \<Rightarrow> u32 \<Rightarrow> string res" where
  "write_u32 data pos val = blit data pos (be32 val)"

definition read_u32 :: "string \<Rightarrow> nat \<Rightarrow> u32 res" where
  "read_u32 data pos = bindR (peek data pos 4) (\<lambda>buf. Ret (of_be32 buf))"

definition write_u16 :: "string \<Rightarrow> nat \<Rightarrow> u16 \<Rightarrow> string res" where
  "write_u16 data pos val = blit data pos (be16 val)"

definition read_u16 :: "string \<Rightarrow> nat \<Rightarrow> u16 res" where
  "read_u16 data pos = bindR (peek data pos 2) (\<lambda>buf. Ret (of_be16 buf))"

section \<open>Header\<close>

definition put_u8 :: "string \<Rightarrow> nat \<Rightarrow> u8 \<Rightarrow> string res" where
  "put_u8 data i v = blit data i [char_of_u8 v]"

definition get_u8 :: "string \<Rightarrow> nat \<Rightarrow> u8 res" where
  "get_u8 data i = bindR (peek data i 1) (\<lambda>b. Ret (u8_of_char (b ! 0)))"

definition serialize_header :: "RpcHeader \<Rightarrow> string res" where
  "serialize_header h =
     bindR (write_u32 (replicate 20 NUL) 0 (magic h)) (\<lambda>data.
     bindR (put_u8 data 4 (version h)) (\<lambda>data.
     bindR (put_u8 data 5 (msg_type h)) (\<lambda>data.
     bindR (put_u8 data 6 (serializer h)) (\<lambda>data.
     bindR (put_u8 data 7 (flags h)) (\<lambda>data.
     bindR (write_u32 data 8 (seq_id h)) (\<lambda>data.
     bindR (write_u32 data 12 (body_size h)) (\<lambda>data.
     write_u32 data 16 (checksum h))))))))"

definition deserialize_header :: "string \<Rightarrow> RpcHeader res" where
  "deserialize_header data =
     guardR (length data < 20) (RuntimeError ''protocol: header too short'')
     (bindR (read_u32 data 0) (\<lambda>m.
      bindR (get_u8 data 4) (\<lambda>v.
      bindR (get_u8 data 5) (\<lambda>t.
      bindR (get_u8 data 6) (\<lambda>s.
      bindR (get_u8 data 7) (\<lambda>f.
      bindR (read_u32 data 8) (\<lambda>q.
      bindR (read_u32 data 12) (\<lambda>b.
      bindR (read_u32 data 16) (\<lambda>c.
      Ret \<lparr>magic = m, version = v, msg_type = t, serializer = s, flags = f,
           seq_id = q, body_size = b, checksum = c\<rparr>)))))))))"

section \<open>Request body\<close>

definition serialize_request :: "RpcRequest \<Rightarrow> string res" where
  "serialize_request r =
     (let sn = service_name r; mn = method_name r; ps = params r;
          total = 2 + length sn + 2 + length mn + 4 + 4 + length ps;
          data = replicate total NUL; pos = 0
      in bindR (write_u16 data pos (word_of_nat (length sn))) (\<lambda>data.
         let pos = pos + 2 in
         bindR (blit data pos sn) (\<lambda>data.
         let pos = pos + length sn in
         bindR (write_u16 data pos (word_of_nat (length mn))) (\<lambda>data.
         let pos = pos + 2 in
         bindR (blit data pos mn) (\<lambda>data.
         let pos = pos + length mn in
         bindR (write_u32 data pos (timeout_ms r)) (\<lambda>data.
         let pos = pos + 4 in
         bindR (write_u32 data pos (word_of_nat (length ps))) (\<lambda>data.
         let pos = pos + 4 in
         blit data pos ps)))))))"

definition deserialize_request :: "string \<Rightarrow> RpcRequest res" where
  "deserialize_request data =
     guardR (length data < 4) (RuntimeError ''protocol: invalid request'')
     (bindR (read_u16 data 0) (\<lambda>srv_len.
      let pos = 2 in
      guardR (pos + unat srv_len > length data)
             (RuntimeError ''protocol: request truncated (service_name)'')
      (bindR (peek data pos (unat srv_len)) (\<lambda>sn.
       let pos = pos + unat srv_len in
       guardR (pos + 2 > length data)
              (RuntimeError ''protocol: request truncated (method_name)'')
       (bindR (read_u16 data pos) (\<lambda>method_len.
        let pos = pos + 2 in
        guardR (pos + unat method_len > length data)
               (RuntimeError ''protocol: request truncated (method_name)'')
        (bindR (peek data pos (unat method_len)) (\<lambda>mn.
         let pos = pos + unat method_len in
         guardR (pos + 4 > length data)
                (RuntimeError ''protocol: request truncated (timeout)'')
         (bindR (read_u32 data pos) (\<lambda>tmo.
          let pos = pos + 4 in
          guardR (pos + 4 > length data)
                 (RuntimeError ''protocol: request truncated (params_len)'')
          (bindR (read_u32 data pos) (\<lambda>params_len.
           let pos = pos + 4 in
           guardR (pos + unat params_len > length data)
                  (RuntimeError ''protocol: request truncated (params)'')
           (bindR (peek data pos (unat params_len)) (\<lambda>ps.
            Ret \<lparr>service_name = sn, method_name = mn, timeout_ms = tmo, params = ps\<rparr>))))))))))))))"

section \<open>Response body\<close>

definition serialize_response :: "RpcResponse \<Rightarrow> string res" where
  "serialize_response r =
     (let em = error_msg r; rs = result r;
          total = 4 + 2 + length em + 4 + length rs;
          data = replicate total NUL; pos = 0
      in bindR (write_u32 data pos (error_code r)) (\<lambda>data.
         let pos = pos + 4 in
         bindR (write_u16 data pos (word_of_nat (length em))) (\<lambda>data.
         let pos = pos + 2 in
         bindR (blit data pos em) (\<lambda>data.
         let pos = pos + length em in
         bindR (write_u32 data pos (word_of_nat (length rs))) (\<lambda>data.
         let pos = pos + 4 in
         blit data pos rs)))))"

definition deserialize_response :: "string \<Rightarrow> RpcResponse res" where
  "deserialize_response data =
     guardR (length data < 6) (RuntimeError ''protocol: invalid response'')
     (bindR (read_u32 data 0) (\<lambda>ec.
      let pos = 4 in
      bindR (read_u16 data pos) (\<lambda>errmsg_len.
      let pos = pos + 2 in
      guardR (pos + unat errmsg_len > length data)
             (RuntimeError ''protocol: response truncated (error_msg)'')
      (bindR (peek data pos (unat errmsg_len)) (\<lambda>em.
       let pos = pos + unat errmsg_len in
       guardR (pos + 4 > length data)
              (RuntimeError ''protocol: response truncated (result_len)'')
       (bindR (read_u32 data pos) (\<lambda>result_len.
        let pos = pos + 4 in
        guardR (pos + unat result_len > length data)
               (RuntimeError ''protocol: response truncated (result)'')
        (bindR (peek data pos (unat result_len)) (\<lambda>rs.
         Ret \<lparr>error_code = ec, error_msg = em, result = rs\<rparr>)))))))))"

section \<open>CRC32\<close>

text \<open>The function-local statics of \<^verbatim>\<open>crc32_checksum\<close>: the table and its flag.\<close>

record crc_static =
  table :: "u32 list"
  initialized :: bool

definition crc_static0 :: crc_static where
  "crc_static0 = \<lparr>table = replicate 256 0, initialized = False\<rparr>"

definition crc_shift :: "u32 \<Rightarrow> u32" where
  "crc_shift crc = drop_bit 1 crc XOR (if crc AND 1 \<noteq> 0 then 0xEDB88320 else 0)"

fun crc_shifts :: "nat \<Rightarrow> u32 \<Rightarrow> u32" where
  "crc_shifts 0 crc = crc"
| "crc_shifts (Suc j) crc = crc_shifts j (crc_shift crc)"

fun fill_table :: "nat \<Rightarrow> nat \<Rightarrow> u32 list \<Rightarrow> u32 list" where
  "fill_table i 0 t = t"
| "fill_table i (Suc n) t = fill_table (Suc i) n (t[i := crc_shifts 8 (word_of_nat i)])"

definition crc_init :: "crc_static \<Rightarrow> crc_static" where
  "crc_init st =
     (if \<not> initialized st
      then st\<lparr>table := fill_table 0 256 (table st), initialized := True\<rparr> else st)"

fun crc_loop :: "u32 list \<Rightarrow> string \<Rightarrow> u32 \<Rightarrow> u32" where
  "crc_loop t [] crc = crc"
| "crc_loop t (c # cs) crc =
     crc_loop t cs (t ! unat ((crc XOR ucast (u8_of_char c)) AND 0xFF) XOR drop_bit 8 crc)"

definition crc32_checksum :: "crc_static \<Rightarrow> string \<Rightarrow> crc_static \<times> u32" where
  "crc32_checksum st data =
     (let st = crc_init st in (st, crc_loop (table st) data 0xFFFFFFFF XOR 0xFFFFFFFF))"

section \<open>Byte order\<close>

lemma length_be [simp]: "length (be32 v) = 4" "length (be16 w) = 2"
  by (simp_all add: be32_def be16_def)

lemma and_0xFF: "(x :: 'a::len word) AND 0xFF = take_bit 8 x"
  by (simp add: take_bit_eq_mask mask_eq_exp_minus_1)

lemma of_be32_be32 [simp]: "of_be32 (be32 v) = v"
proof (rule bit_word_eqI)
  fix n assume n: "n < LENGTH(32)"
  then consider "n < 8" | "8 \<le> n" "n < 16" | "16 \<le> n" "n < 24" | "24 \<le> n" "n < 32" by fastforce
  then show "bit (of_be32 (be32 v)) n \<longleftrightarrow> bit v n"
    by cases (auto simp: of_be32_def be32_def and_0xFF bit_simps)
qed

lemma of_be16_be16 [simp]: "of_be16 (be16 v) = v"
proof (rule bit_word_eqI)
  fix n assume n: "n < LENGTH(16)"
  then consider "n < 8" | "8 \<le> n" "n < 16" by fastforce
  then show "bit (of_be16 (be16 v)) n \<longleftrightarrow> bit v n"
    by cases (auto simp: of_be16_def be16_def and_0xFF bit_simps)
qed

lemma length4E:
  assumes "length xs = 4" obtains a b c d where "xs = [a, b, c, d]"
  using assms by (auto simp: numeral_eq_Suc length_Suc_conv)

lemma length2E:
  assumes "length xs = 2" obtains a b where "xs = [a, b]"
  using assms by (auto simp: numeral_eq_Suc length_Suc_conv)

lemma u8_bit_ge [simp]: "8 \<le> n \<Longrightarrow> \<not> bit (w :: u8) n"
  by (auto dest: bit_imp_le_length)

lemma be32_of_be32 [simp]: "length xs = 4 \<Longrightarrow> be32 (of_be32 xs) = xs"
proof -
  assume "length xs = 4"
  then obtain a b c d where xs: "xs = [a, b, c, d]" by (rule length4E)
  have byte: "ucast (take_bit 8 (drop_bit k (of_be32 xs))) = u8_of_char (xs ! i)"
    if "(k, i) \<in> {(24, 0), (16, 1), (8, 2), (0, 3)}" for k i
    using that by (intro bit_word_eqI) (auto simp: of_be32_def bit_simps)
  show ?thesis
    using byte [of 24 0] byte [of 16 1] byte [of 8 2] byte [of 0 3]
    by (simp add: be32_def and_0xFF xs)
qed

lemma be16_of_be16 [simp]: "length xs = 2 \<Longrightarrow> be16 (of_be16 xs) = xs"
proof -
  assume "length xs = 2"
  then obtain a b where xs: "xs = [a, b]" by (rule length2E)
  have byte: "ucast (take_bit 8 (drop_bit k (of_be16 xs))) = u8_of_char (xs ! i)"
    if "(k, i) \<in> {(8, 0), (0, 1)}" for k i
    using that by (intro bit_word_eqI) (auto simp: of_be16_def bit_simps)
  show ?thesis
    using byte [of 8 0] byte [of 0 1] by (simp add: be16_def and_0xFF xs)
qed

section \<open>Layouts\<close>

definition header_layout :: "RpcHeader \<Rightarrow> string" where
  "header_layout h =
     be32 (magic h) @ map char_of_u8 [version h, msg_type h, serializer h, flags h] @
     be32 (seq_id h) @ be32 (body_size h) @ be32 (checksum h)"

definition request_layout :: "RpcRequest \<Rightarrow> string" where
  "request_layout r =
     be16 (word_of_nat (length (service_name r))) @ service_name r @
     be16 (word_of_nat (length (method_name r))) @ method_name r @
     be32 (timeout_ms r) @ be32 (word_of_nat (length (params r))) @ params r"

definition response_layout :: "RpcResponse \<Rightarrow> string" where
  "response_layout r =
     be32 (error_code r) @ be16 (word_of_nat (length (error_msg r))) @ error_msg r @
     be32 (word_of_nat (length (result r))) @ result r"

text \<open>The field lengths that the 16 and 32-bit length prefixes can express.\<close>

definition request_fits :: "RpcRequest \<Rightarrow> bool" where
  "request_fits r \<longleftrightarrow> length (service_name r) < 2 ^ 16 \<and> length (method_name r) < 2 ^ 16 \<and>
     length (params r) < 2 ^ 32"

definition response_fits :: "RpcResponse \<Rightarrow> bool" where
  "response_fits r \<longleftrightarrow> length (error_msg r) < 2 ^ 16 \<and> length (result r) < 2 ^ 32"

lemma length_layout [simp]:
  "length (header_layout h) = 20"
  "length (request_layout r) =
     12 + length (service_name r) + length (method_name r) + length (params r)"
  "length (response_layout s) = 10 + length (error_msg s) + length (result s)"
  by (simp_all add: header_layout_def request_layout_def response_layout_def)

lemma unat_of_length [simp]:
  "n < 2 ^ 16 \<Longrightarrow> unat (word_of_nat n :: u16) = n"
  "n < 2 ^ 32 \<Longrightarrow> unat (word_of_nat n :: u32) = n"
  by (simp_all add: unat_of_nat take_bit_eq_mod)

lemmas serialize_step = write_u32_def write_u16_def put_u8_def Let_def filled_start

lemma serialize_header_eq: "serialize_header h = Ret (header_layout h)"
  by (simp add: serialize_header_def header_layout_def serialize_step)

lemma serialize_request_eq: "serialize_request r = Ret (request_layout r)"
  by (simp add: serialize_request_def request_layout_def serialize_step)

lemma serialize_response_eq: "serialize_response r = Ret (response_layout r)"
  by (simp add: serialize_response_def response_layout_def serialize_step)

section \<open>Reading the layouts\<close>

lemma read_be [simp]:
  "length pre = pos \<Longrightarrow> read_u32 (pre @ be32 v @ post) pos = Ret v"
  "length pre = pos \<Longrightarrow> read_u16 (pre @ be16 w @ post) pos = Ret w"
  by (simp_all add: read_u32_def read_u16_def)

lemmas read_defs = read_u32_def read_u16_def get_u8_def peek_def Let_def

lemma deserialize_header_layout: "deserialize_header (header_layout h @ rest) = Ret h"
  by (simp add: deserialize_header_def header_layout_def read_defs)

lemma deserialize_request_layout:
  "request_fits r \<Longrightarrow> deserialize_request (request_layout r @ rest) = Ret r"
  by (simp add: deserialize_request_def request_layout_def request_fits_def read_defs)

lemma deserialize_response_layout:
  "response_fits r \<Longrightarrow> deserialize_response (response_layout r @ rest) = Ret r"
  by (simp add: deserialize_response_def response_layout_def response_fits_def read_defs)

text \<open>No input makes a reader leave its buffer.\<close>

lemma read_neq_UB:
  "pos + 4 \<le> length d \<Longrightarrow> read_u32 d pos \<noteq> UB" "pos + 2 \<le> length d \<Longrightarrow> read_u16 d pos \<noteq> UB"
  "pos < length d \<Longrightarrow> get_u8 d pos \<noteq> UB"
  by (simp_all add: read_defs)

lemmas safe_intros = bindR_neq_UB guardR_neq_UB peek_neq_UB read_neq_UB

lemma deserialize_header_safe: "deserialize_header d \<noteq> UB"
  unfolding deserialize_header_def by (intro safe_intros) auto

lemma deserialize_request_safe: "deserialize_request d \<noteq> UB"
  unfolding deserialize_request_def Let_def by (intro safe_intros) auto

lemma deserialize_response_safe: "deserialize_response d \<noteq> UB"
  unfolding deserialize_response_def Let_def by (intro safe_intros) auto

section \<open>What the readers accept\<close>

text \<open>
  Each accepted field names the bytes it was read from; gluing them back together with
  \<open>take_drop_glue\<close> rebuilds the input.
\<close>

lemma read_eq_Ret:
  "read_u32 d pos = Ret v \<longleftrightarrow> pos + 4 \<le> length d \<and> take 4 (drop pos d) = be32 v"
  "read_u16 d pos = Ret w \<longleftrightarrow> pos + 2 \<le> length d \<and> take 2 (drop pos d) = be16 w"
  by (auto simp: read_u32_def read_u16_def peek_def split: if_splits)

lemma take_drop_glue:
  assumes "take n (drop pos d) = xs" and "pos + n \<le> length d"
  shows "drop pos d = xs @ drop (pos + n) d"
  using assms by (metis add.commute append_take_drop_id drop_drop)

lemma word_of_length_take [simp]:
  assumes "pos + unat (w :: 'a::len word) \<le> length d"
  shows "word_of_nat (length (take (unat w) (drop pos d))) = w"
proof -
  have "length (take (unat w) (drop pos d)) = unat w" using assms by simp
  then have "word_of_nat (length (take (unat w) (drop pos d))) = (word_of_nat (unat w) :: 'a word)"
    by (simp only:)
  also have "\<dots> = w" by simp
  finally show ?thesis .
qed

lemma request_accepted:
  assumes "deserialize_request d = Ret r"
  shows "request_fits r \<and> (\<exists>rest. d = request_layout r @ rest)"
proof -
  obtain sl ml pl tmo where
    sl: "take 2 (drop 0 d) = be16 sl" "2 + unat sl \<le> length d" and
    ml: "take 2 (drop (2 + unat sl) d) = be16 ml" "2 + unat sl + 2 + unat ml \<le> length d" and
    tm: "take 4 (drop (2 + unat sl + 2 + unat ml) d) = be32 tmo" and
    pl: "take 4 (drop (2 + unat sl + 2 + unat ml + 4) d) = be32 pl"
        "2 + unat sl + 2 + unat ml + 4 + 4 + unat pl \<le> length d" and
    r: "r = \<lparr>service_name = take (unat sl) (drop 2 d),
             method_name = take (unat ml) (drop (2 + unat sl + 2) d), timeout_ms = tmo,
             params = take (unat pl) (drop (2 + unat sl + 2 + unat ml + 4 + 4) d)\<rparr>"
    using assms
    unfolding deserialize_request_def Let_def bindR_eq_Ret guardR_eq_Ret peek_eq_Ret read_eq_Ret
      not_less
    by blast
  have len: "word_of_nat (length (service_name r)) = sl"
    "word_of_nat (length (method_name r)) = ml" "word_of_nat (length (params r)) = pl"
    using sl(2) ml(2) pl(2) by (simp_all only: r RpcRequest.simps word_of_length_take)
  have "drop 0 d = request_layout r @ drop (2 + unat sl + 2 + unat ml + 4 + 4 + unat pl) d"
    using take_drop_glue [OF sl(1)] take_drop_glue [OF ml(1)] take_drop_glue [OF tm]
      take_drop_glue [OF pl(1)] sl(2) ml(2) pl(2)
      take_drop_glue [of "unat sl" 2 d, OF refl]
      take_drop_glue [of "unat ml" "2 + unat sl + 2" d, OF refl]
      take_drop_glue [of "unat pl" "2 + unat sl + 2 + unat ml + 4 + 4" d, OF refl]
    unfolding request_layout_def len by (simp add: r del: add_2_eq_Suc add_2_eq_Suc')
  moreover have "unat sl < 2 ^ 16" "unat ml < 2 ^ 16" "unat pl < 2 ^ 32"
    using unsigned_less [of sl] unsigned_less [of ml] unsigned_less [of pl] by simp_all
  ultimately show ?thesis
    by (auto simp: request_fits_def r)
qed

lemma response_accepted:
  assumes "deserialize_response d = Ret r"
  shows "response_fits r \<and> (\<exists>rest. d = response_layout r @ rest)"
proof -
  obtain ec el rl where
    ec: "take 4 (drop 0 d) = be32 ec" and
    el: "take 2 (drop 4 d) = be16 el" "4 + 2 + unat el \<le> length d" and
    rl: "take 4 (drop (4 + 2 + unat el) d) = be32 rl" "4 + 2 + unat el + 4 + unat rl \<le> length d" and
    r: "r = \<lparr>error_code = ec, error_msg = take (unat el) (drop (4 + 2) d),
             result = take (unat rl) (drop (4 + 2 + unat el + 4) d)\<rparr>"
    using assms
    unfolding deserialize_response_def Let_def bindR_eq_Ret guardR_eq_Ret peek_eq_Ret read_eq_Ret
      not_less
    by blast
  have len: "word_of_nat (length (error_msg r)) = el" "word_of_nat (length (result r)) = rl"
    using el(2) rl(2) by (simp_all only: r RpcResponse.simps word_of_length_take)
  have "drop 0 d = response_layout r @ drop (4 + 2 + unat el + 4 + unat rl) d"
    using take_drop_glue [OF ec] take_drop_glue [OF el(1)] take_drop_glue [OF rl(1)] el(2) rl(2)
      take_drop_glue [of "unat el" "4 + 2" d, OF refl]
      take_drop_glue [of "unat rl" "4 + 2 + unat el + 4" d, OF refl]
    unfolding response_layout_def len by (simp add: r)
  moreover have "unat el < 2 ^ 16" "unat rl < 2 ^ 32"
    using unsigned_less [of el] unsigned_less [of rl] by simp_all
  ultimately show ?thesis
    by (auto simp: response_fits_def r)
qed

section \<open>CRC32: table and reference\<close>

text \<open>
  The reference divides bit by bit: eight shifts per byte, no table. It is what the comment
  of the source names (reflected polynomial \<^verbatim>\<open>0xEDB88320\<close>).
\<close>

fun crc_bitwise :: "string \<Rightarrow> u32 \<Rightarrow> u32" where
  "crc_bitwise [] crc = crc"
| "crc_bitwise (c # cs) crc = crc_bitwise cs (crc_shifts 8 (crc XOR ucast (u8_of_char c)))"

definition crc32_reference :: "string \<Rightarrow> u32" where
  "crc32_reference data = crc_bitwise data 0xFFFFFFFF XOR 0xFFFFFFFF"

lemma crc_shift_alt: "crc_shift c = drop_bit 1 c XOR (if bit c 0 then 0xEDB88320 else 0)"
  by (simp add: crc_shift_def and_one_eq bit_0 odd_iff_mod_2_eq_one)

lemma crc_shift_xor: "crc_shift (x XOR y) = crc_shift x XOR crc_shift y"
  by (simp add: crc_shift_alt bit_xor_iff drop_bit_xor ac_simps)

lemma crc_shifts_xor: "crc_shifts j (x XOR y) = crc_shifts j x XOR crc_shifts j y"
  by (induction j arbitrary: x y) (simp_all add: crc_shift_xor)

lemma crc_shifts_low_zero: "take_bit j w = 0 \<Longrightarrow> crc_shifts j w = drop_bit j w"
proof (induction j arbitrary: w)
  case 0
  then show ?case by simp
next
  case (Suc j)
  have lo: "\<not> bit w i" if "i < Suc j" for i
    using Suc.prems that by (metis bit_0_eq bit_take_bit_iff bot_apply bot_bool_def)
  then have "crc_shift w = drop_bit 1 w" by (simp add: crc_shift_alt)
  moreover have "take_bit j (drop_bit 1 w) = 0"
    by (rule bit_word_eqI) (auto simp: bit_simps lo)
  ultimately show ?case
    using Suc.IH by simp
qed

lemma crc_byte_step:
  fixes crc :: u32 and b :: u8
  shows "crc_shifts 8 ((crc XOR ucast b) AND 0xFF) XOR drop_bit 8 crc = crc_shifts 8 (crc XOR ucast b)"
proof -
  let ?x = "crc XOR ucast b"
  let ?hi = "?x AND NOT (mask 8)"
  have "?x = take_bit 8 ?x XOR ?hi"
    by (rule bit_word_eqI) (auto simp: bit_simps)
  then have "crc_shifts 8 ?x = crc_shifts 8 (take_bit 8 ?x) XOR crc_shifts 8 ?hi"
    by (metis crc_shifts_xor)
  also have "take_bit 8 ?hi = 0"
    by (rule bit_word_eqI) (auto simp: bit_simps)
  then have "crc_shifts 8 ?hi = drop_bit 8 ?hi"
    by (rule crc_shifts_low_zero)
  also have "drop_bit 8 ?hi = drop_bit 8 crc"
    by (rule bit_word_eqI) (auto simp: bit_simps dest: bit_imp_le_length)
  finally show ?thesis by (simp add: and_0xFF)
qed

definition table_ok :: "u32 list \<Rightarrow> bool" where
  "table_ok t \<longleftrightarrow> length t = 256 \<and> (\<forall>i < 256. t ! i = crc_shifts 8 (word_of_nat i))"

lemma length_fill_table [simp]: "length (fill_table i n t) = length t"
  by (induction i n t rule: fill_table.induct) auto

lemma nth_fill_table:
  "i + n \<le> length t \<Longrightarrow> k < length t \<Longrightarrow>
   fill_table i n t ! k = (if i \<le> k \<and> k < i + n then crc_shifts 8 (word_of_nat k) else t ! k)"
proof (induction i n t rule: fill_table.induct)
  case (2 i n t)
  then show ?case by (auto simp del: crc_shifts.simps simp: nth_list_update)
qed auto

text \<open>The two states the statics can be in: untouched, or filled.\<close>

definition crc_static_inv :: "crc_static \<Rightarrow> bool" where
  "crc_static_inv st \<longleftrightarrow> st = crc_static0 \<or> (initialized st \<and> table_ok (table st))"

lemma table_ok_init: "crc_static_inv st \<Longrightarrow> initialized (crc_init st) \<and> table_ok (table (crc_init st))"
  by (auto simp: crc_static_inv_def crc_init_def crc_static0_def table_ok_def nth_fill_table
        simp del: crc_shifts.simps fill_table.simps)

lemma unat_and_0xFF: "unat ((x :: u32) AND 0xFF) < 256"
proof -
  have "take_bit 8 (unat x) < 2 ^ 8" by (rule take_bit_nat_less_exp)
  then show ?thesis by (simp add: and_0xFF unsigned_take_bit_eq)
qed

lemma crc_loop_eq: "table_ok t \<Longrightarrow> crc_loop t data crc = crc_bitwise data crc"
proof (induction data arbitrary: crc)
  case (Cons c cs)
  let ?i = "(crc XOR ucast (u8_of_char c)) AND 0xFF"
  from Cons.prems unat_and_0xFF have "t ! unat ?i = crc_shifts 8 ?i"
    by (simp add: table_ok_def)
  then show ?case
    using Cons by (simp add: crc_byte_step del: crc_shifts.simps)
qed simp

lemma crc32_checksum_eq:
  "crc_static_inv st \<Longrightarrow> crc32_checksum st data = (crc_init st, crc32_reference data)"
  using table_ok_init by (simp add: crc32_checksum_def crc32_reference_def crc_loop_eq)

lemma crc_shift_inject: "crc_shift x = crc_shift y \<Longrightarrow> x = y"
proof (rule bit_word_eqI)
  fix n assume eq: "crc_shift x = crc_shift y" and n: "n < LENGTH(32)"
  have top: "bit (crc_shift z) 31 \<longleftrightarrow> bit z 0" for z
    by (auto simp: crc_shift_alt bit_simps dest: bit_imp_le_length)
  have low: "bit x 0 \<longleftrightarrow> bit y 0" using eq top by metis
  with eq have d: "drop_bit 1 x = drop_bit 1 y"
    by (simp add: crc_shift_alt)
  show "bit x n \<longleftrightarrow> bit y n"
  proof (cases n)
    case 0 then show ?thesis using low by simp
  next
    case (Suc m)
    have "bit (drop_bit 1 x) m \<longleftrightarrow> bit (drop_bit 1 y) m" using d by simp
    then show ?thesis by (simp add: Suc bit_drop_bit_eq)
  qed
qed

lemma crc_shifts_inject: "crc_shifts j x = crc_shifts j y \<Longrightarrow> x = y"
  by (induction j arbitrary: x y) (auto dest: crc_shift_inject)

lemma crc_bitwise_inject: "crc_bitwise data x = crc_bitwise data y \<Longrightarrow> x = y"
proof (induction data arbitrary: x y)
  case (Cons c cs)
  from Cons.IH Cons.prems have "crc_shifts 8 (x XOR ucast (u8_of_char c)) = crc_shifts 8 (y XOR ucast (u8_of_char c))"
    by (simp del: crc_shifts.simps)
  then have "x XOR ucast (u8_of_char c) = y XOR ucast (u8_of_char c)" by (rule crc_shifts_inject)
  then show ?case by simp
qed simp

lemma crc_bitwise_append: "crc_bitwise (xs @ ys) crc = crc_bitwise ys (crc_bitwise xs crc)"
  by (induction xs arbitrary: crc) auto

lemma crc_reference_byte_change:
  assumes "crc32_reference (pre @ a # post) = crc32_reference (pre @ b # post)"
  shows "a = b"
proof -
  let ?c = "crc_bitwise pre 0xFFFFFFFF"
  from assms have "crc_shifts 8 (?c XOR ucast (u8_of_char a)) = crc_shifts 8 (?c XOR ucast (u8_of_char b))"
    by (auto simp: crc32_reference_def crc_bitwise_append simp del: crc_shifts.simps dest: crc_bitwise_inject)
  then have "?c XOR ucast (u8_of_char a) = ?c XOR ucast (u8_of_char b)" by (rule crc_shifts_inject)
  then show ?thesis by simp
qed

section \<open>The codec contract\<close>

lemma get_u8_eq_Ret: "get_u8 d i = Ret v \<longleftrightarrow> i + 1 \<le> length d \<and> take 1 (drop i d) = [char_of_u8 v]"
  by (auto simp: get_u8_def peek_def take_Suc_conv_app_nth Suc_le_eq)

lemma header_accepted:
  assumes "deserialize_header d = Ret h"
  shows "\<exists>rest. d = header_layout h @ rest"
proof -
  obtain m v t s f q b c where len: "20 \<le> length d" and
    fld: "take 4 (drop 0 d) = be32 m" "take 1 (drop 4 d) = [char_of_u8 v]"
      "take 1 (drop 5 d) = [char_of_u8 t]" "take 1 (drop 6 d) = [char_of_u8 s]"
      "take 1 (drop 7 d) = [char_of_u8 f]" "take 4 (drop 8 d) = be32 q"
      "take 4 (drop 12 d) = be32 b" "take 4 (drop 16 d) = be32 c" and
    h: "h = \<lparr>magic = m, version = v, msg_type = t, serializer = s, flags = f,
             seq_id = q, body_size = b, checksum = c\<rparr>"
    using assms
    unfolding deserialize_header_def bindR_eq_Ret guardR_eq_Ret get_u8_eq_Ret read_eq_Ret not_less
    by blast
  have "drop 0 d = header_layout h @ drop 20 d"
    using fld [THEN take_drop_glue] len
    by (simp add: h header_layout_def)
  then show ?thesis by auto
qed

locale message_codec =
  fixes ser :: "'a \<Rightarrow> string res" and deser :: "string \<Rightarrow> 'a res" and fits :: "'a \<Rightarrow> bool"
  assumes ser_ret: "\<exists>d. ser x = Ret d"
    and deser_ser: "fits x \<Longrightarrow> ser x = Ret d \<Longrightarrow> deser (d @ rest) = Ret x"
    and deser_sound: "deser d = Ret x \<Longrightarrow> fits x \<and> (\<exists>e rest. ser x = Ret e \<and> d = e @ rest)"
    and deser_safe: "deser d \<noteq> UB"
begin

lemma roundtrip: "bindR (ser x) deser = Ret x \<longleftrightarrow> fits x"
proof -
  obtain d where d: "ser x = Ret d" using ser_ret by blast
  then show ?thesis
    using deser_ser [OF _ d, of "[]"] deser_sound [of d x] by auto
qed

lemma self_delimiting:
  assumes "fits x" "fits y" "ser x = Ret d" "ser y = Ret (d @ rest)"
  shows "x = y \<and> rest = []"
proof -
  have "deser (d @ rest) = Ret x" using assms(1,3) by (rule deser_ser)
  moreover have "deser (d @ rest) = Ret y"
    using deser_ser [OF assms(2,4), of "[]"] by simp
  ultimately show ?thesis using assms(3,4) by auto
qed

lemma truncated:
  assumes "fits x" and "ser x = Ret (d @ tail)" and "tail \<noteq> []"
  shows "\<exists>e. deser d = Throw e"
proof (cases "deser d")
  case (Ret z)
  then obtain e rest where z: "fits z" "ser z = Ret e" "d = e @ rest"
    using deser_sound by blast
  then have "z = x \<and> rest @ tail = []"
    using self_delimiting [of z x e "rest @ tail"] assms by simp
  with assms(3) show ?thesis by simp
qed (use deser_safe in auto)

end

interpretation hdr: message_codec serialize_header deserialize_header "\<lambda>_. True"
  by unfold_locales
    (auto simp: serialize_header_eq deserialize_header_layout deserialize_header_safe
      dest: header_accepted)

interpretation req: message_codec serialize_request deserialize_request request_fits
  by unfold_locales
    (auto simp: serialize_request_eq deserialize_request_layout deserialize_request_safe
      dest: request_accepted)

interpretation resp: message_codec serialize_response deserialize_response response_fits
  by unfold_locales
    (auto simp: serialize_response_eq deserialize_response_layout deserialize_response_safe
      dest: response_accepted)

text \<open>The only exception a reader raises is \<^verbatim>\<open>std::runtime_error\<close>.\<close>

lemma bindR_eq_Throw: "bindR m f = Throw e \<longleftrightarrow> m = Throw e \<or> (\<exists>x. m = Ret x \<and> f x = Throw e)"
  by (cases m) auto

lemma guardR_eq_Throw: "guardR b e' m = Throw e \<longleftrightarrow> (b \<and> e = e') \<or> (\<not> b \<and> m = Throw e)"
  by (auto simp: guardR_def)

lemma read_no_throw [simp]:
  "read_u32 d pos \<noteq> Throw e" "read_u16 d pos \<noteq> Throw e" "get_u8 d pos \<noteq> Throw e" "peek d pos n \<noteq> Throw e"
  by (auto simp: read_defs)

lemma deserialize_throws_runtime_error:
  "deserialize_header d = Throw e \<Longrightarrow> \<exists>m. e = RuntimeError m"
  "deserialize_request d = Throw e \<Longrightarrow> \<exists>m. e = RuntimeError m"
  "deserialize_response d = Throw e \<Longrightarrow> \<exists>m. e = RuntimeError m"
  unfolding deserialize_header_def deserialize_request_def deserialize_response_def Let_def
  by (auto simp: bindR_eq_Throw guardR_eq_Throw)

section \<open>Properties\<close>

text \<open>
  C12: a serialised header is always 20 bytes, and reading a buffer that starts with it gives the
  header back, whatever follows it.
\<close>

theorem header_roundtrip:
  "\<exists>d. serialize_header h = Ret d \<and> length d = 20 \<and> deserialize_header (d @ rest) = Ret h"
  by (simp add: serialize_header_eq deserialize_header_layout)

text \<open>
  C13: serialising a request and reading it back gives the request exactly when its names are shorter
  than 64 KiB and its parameters shorter than 4 GiB, what the length prefixes can express. A longer
  service or method name has its length cut to 16 bits and is not recovered.
\<close>

theorem request_roundtrip_iff:
  "bindR (serialize_request r) deserialize_request = Ret r \<longleftrightarrow>
     length (service_name r) < 65536 \<and> length (method_name r) < 65536 \<and> length (params r) < 4294967296"
  using req.roundtrip [of r] by (simp add: request_fits_def)

text \<open>
  C14: the same for a response: it survives the round trip exactly when its error message and its
  result fit their 16 and 32-bit length prefixes.
\<close>

theorem response_roundtrip_iff:
  "bindR (serialize_response r) deserialize_response = Ret r \<longleftrightarrow>
     length (error_msg r) < 65536 \<and> length (result r) < 4294967296"
  using resp.roundtrip [of r] by (simp add: response_fits_def)

text \<open>
  C15: no byte sequence makes one of the three readers access memory outside its buffer: every input
  is either decoded or refused with \<^verbatim>\<open>std::runtime_error\<close>.
\<close>

theorem readers_total:
  "((\<exists>h. deserialize_header d = Ret h) \<or> (\<exists>m. deserialize_header d = Throw (RuntimeError m))) \<and>
   ((\<exists>r. deserialize_request d = Ret r) \<or> (\<exists>m. deserialize_request d = Throw (RuntimeError m))) \<and>
   ((\<exists>r. deserialize_response d = Ret r) \<or> (\<exists>m. deserialize_response d = Throw (RuntimeError m)))"
  using hdr.deser_safe [of d] req.deser_safe [of d] resp.deser_safe [of d]
    deserialize_throws_runtime_error [of d]
  by (metis res.exhaust)

text \<open>
  The request reader accepts nothing but encodings: an accepted buffer begins with exactly the
  bytes the serialiser produces for the request that was read.
\<close>

theorem request_reader_sound:
  assumes "deserialize_request d = Ret r"
  shows "\<exists>e rest. serialize_request r = Ret e \<and> d = e @ rest"
  using req.deser_sound [OF assms] by blast

definition ping_request :: RpcRequest where
  "ping_request = \<lparr>service_name = ''PingService'', method_name = ''Ping'', timeout_ms = 5000, params = ''''\<rparr>"

theorem request_reader_sound_witness:
  "\<exists>e rest. serialize_request ping_request = Ret e \<and>
     be16 11 @ ''PingService'' @ be16 4 @ ''Ping'' @ be32 5000 @ be32 0 @ ''!'' = e @ rest"
  by (rule request_reader_sound) code_simp

text \<open>
  A response body that arrives cut short is refused: every proper prefix of an encoding raises an
  exception.
\<close>

theorem response_truncated_rejected:
  assumes "length (error_msg r) < 65536" and "length (result r) < 4294967296"
    and "serialize_response r = Ret (d @ tail)" and "tail \<noteq> []"
  shows "\<exists>m. deserialize_response d = Throw (RuntimeError m)"
  using resp.truncated [of r d tail] assms deserialize_throws_runtime_error(3) [of d]
  by (fastforce simp: response_fits_def)

definition pong_response :: RpcResponse where
  "pong_response = \<lparr>error_code = 0, error_msg = '''', result = ''pong''\<rparr>"

theorem response_truncated_rejected_witness:
  "\<exists>m. deserialize_response (be32 0 @ be16 0 @ be32 4 @ ''po'') = Throw (RuntimeError m)"
  by (rule response_truncated_rejected [of pong_response _ "''ng''"])
    (simp_all add: pong_response_def serialize_response_eq response_layout_def)

text \<open>Successive calls of \<^verbatim>\<open>crc32_checksum\<close>, which share the table of the first one.\<close>

fun crc_calls :: "crc_static \<Rightarrow> string list \<Rightarrow> u32 list" where
  "crc_calls st [] = []"
| "crc_calls st (d # ds) = (let (st, crc) = crc32_checksum st d in crc # crc_calls st ds)"

lemma crc_calls_eq: "crc_static_inv st \<Longrightarrow> crc_calls st ds = map crc32_reference ds"
proof (induction ds arbitrary: st)
  case (Cons d ds)
  then show ?case
    using table_ok_init [OF Cons.prems]
    by (simp add: crc32_checksum_eq crc_static_inv_def del: crc_shifts.simps)
qed simp

lemma crc32_fresh: "snd (crc32_checksum crc_static0 d) = crc32_reference d"
  by (simp add: crc32_checksum_eq [of crc_static0] crc_static_inv_def del: crc_shifts.simps)

text \<open>
  C16: from a fresh process, every call of \<^verbatim>\<open>crc32_checksum\<close>, the one that builds the table and all
  later ones, computes the bit-by-bit CRC32 of the polynomial \<^verbatim>\<open>0xEDB88320\<close>.
\<close>

theorem crc32_checksum_correct: "crc_calls crc_static0 ds = map crc32_reference ds"
  by (rule crc_calls_eq) (simp add: crc_static_inv_def)

text \<open>
  The checksum tells any change of a single byte: two bodies that differ at most in one byte have
  the same checksum only if they are equal.
\<close>

theorem crc32_detects_byte_change:
  "snd (crc32_checksum crc_static0 (pre @ a # post)) = snd (crc32_checksum crc_static0 (pre @ b # post))
   \<longleftrightarrow> a = b"
  unfolding crc32_fresh using crc_reference_byte_change [of pre a post b] by blast

end
