(* ===== verification/Write_Queue.thy ===== *)
theory Write_Queue
  imports Rpc_Prelude
begin

text \<open>
  The discipline by which \<^verbatim>\<open>Connection\<close> (\<^verbatim>\<open>send\<close>, \<^verbatim>\<open>do_write\<close>) and \<^verbatim>\<open>RpcClient\<close> (\<^verbatim>\<open>enqueue_write\<close>,
  \<^verbatim>\<open>do_write\<close>) share one socket between threads, as a locale over the operations both have:
  \<^item> \<open>push\<close> is the critical section of a sender: it appends a frame and, when no write is going
    on, sets the flag \<^verbatim>\<open>writing_\<close> and becomes a starter, a thread that still has to call \<^verbatim>\<open>do_write\<close>;
  \<^item> \<open>enter\<close> is that call: it takes the first frame and starts the asynchronous write, or clears
    the flag when the queue is empty;
  \<^item> \<open>written\<close> is the completion handler of a write that succeeded, which calls \<^verbatim>\<open>do_write\<close> again.
  The laws are the effect of each operation on what can be observed: the queue, the write in
  flight, the flag, the starters and the frames already on the wire.
\<close>

locale serial_writer =
  fixes queue_of :: "'s \<Rightarrow> 'a list" and inflight :: "'s \<Rightarrow> 'a option" and busy :: "'s \<Rightarrow> bool"
    and starters :: "'s \<Rightarrow> nat" and sent :: "'s \<Rightarrow> 'a list"
    and push :: "'a \<Rightarrow> 's \<Rightarrow> 's" and enter :: "'s \<Rightarrow> 's" and written :: "'s \<Rightarrow> 's"
  assumes push_laws:
      "queue_of (push x s) = queue_of s @ [x]" "inflight (push x s) = inflight s"
      "busy (push x s)" "starters (push x s) = (if busy s then starters s else Suc (starters s))"
      "sent (push x s) = sent s"
    and enter_laws:
      "queue_of (enter s) = tl (queue_of s)"
      "inflight (enter s) = (case queue_of s of [] \<Rightarrow> inflight s | x # xs \<Rightarrow> Some x)"
      "busy (enter s) \<longleftrightarrow> busy s \<and> queue_of s \<noteq> []"
      "starters (enter s) = starters s - 1" "sent (enter s) = sent s"
    and written_laws:
      "queue_of (written s) = tl (queue_of s)"
      "inflight (written s) = (case queue_of s of [] \<Rightarrow> None | x # xs \<Rightarrow> Some x)"
      "busy (written s) \<longleftrightarrow> busy s \<and> queue_of s \<noteq> []"
      "starters (written s) = starters s"
      "sent (written s) = sent s @ (case inflight s of None \<Rightarrow> [] | Some x \<Rightarrow> [x])"
begin

text \<open>
  At most one thread is in charge of the socket: either a starter or the write in flight, and one
  of them exists exactly while the flag is set. A queue with frames in it has somebody in charge.
\<close>

definition writer_inv :: "'s \<Rightarrow> bool" where
  "writer_inv s \<longleftrightarrow>
     starters s + (if inflight s = None then 0 else 1) = (if busy s then 1 else 0) \<and>
     (queue_of s \<noteq> [] \<longrightarrow> busy s)"

text \<open>Everything ever handed over, in order: on the wire, in flight, waiting.\<close>

definition handed_over :: "'s \<Rightarrow> 'a list" where
  "handed_over s = sent s @ (case inflight s of None \<Rightarrow> [] | Some x \<Rightarrow> [x]) @ queue_of s"

lemma push_inv: "writer_inv s \<Longrightarrow> writer_inv (push x s)"
  by (auto simp: writer_inv_def push_laws split: if_splits)

lemma enter_inv: "writer_inv s \<Longrightarrow> 0 < starters s \<Longrightarrow> writer_inv (enter s)"
  by (cases "queue_of s") (auto simp: writer_inv_def enter_laws split: if_splits)

lemma written_inv: "writer_inv s \<Longrightarrow> inflight s \<noteq> None \<Longrightarrow> writer_inv (written s)"
  by (cases "queue_of s") (auto simp: writer_inv_def written_laws split: if_splits)

lemma inv_starter_idle: "writer_inv s \<Longrightarrow> 0 < starters s \<Longrightarrow> inflight s = None \<and> starters s = 1"
  by (auto simp: writer_inv_def split: if_splits)

lemma handed_over_push: "handed_over (push x s) = handed_over s @ [x]"
  by (simp add: handed_over_def push_laws split: option.splits)

lemma handed_over_enter: "writer_inv s \<Longrightarrow> 0 < starters s \<Longrightarrow> handed_over (enter s) = handed_over s"
  using inv_starter_idle [of s] by (cases "queue_of s") (auto simp: handed_over_def enter_laws)

lemma handed_over_written: "handed_over (written s) = handed_over s"
  by (cases "queue_of s") (auto simp: handed_over_def written_laws split: option.splits)

text \<open>
  Nothing is left behind: as many successful completions as there are frames outstanding put all of
  them on the wire and leave the writer idle.
\<close>

lemma drain:
  assumes "writer_inv s" and "starters s = 0"
  shows "let t = (written ^^ (length (queue_of s) + (if inflight s = None then 0 else 1))) s
         in sent t = handed_over s \<and> queue_of t = [] \<and> inflight t = None \<and> \<not> busy t"
  using assms
proof (induction "length (queue_of s)" arbitrary: s)
  case 0
  then show ?case
    by (auto simp: handed_over_def writer_inv_def written_laws Let_def split: if_splits)
next
  case (Suc n)
  then obtain x where fl: "inflight s = Some x" and b: "busy s"
    by (auto simp: writer_inv_def split: if_splits)
  have n: "length (queue_of (written s)) = n" using Suc.hyps(2) by (simp add: written_laws)
  have fl': "inflight (written s) \<noteq> None"
    using Suc.hyps(2) by (cases "queue_of s") (auto simp: written_laws)
  have "writer_inv (written s)" "starters (written s) = 0"
    using Suc.prems fl by (auto simp: written_inv written_laws)
  then have IH: "let t = (written ^^ (n + 1)) (written s)
      in sent t = handed_over s \<and> queue_of t = [] \<and> inflight t = None \<and> \<not> busy t"
    using Suc.hyps(1) [of "written s"] n fl' by (simp add: handed_over_written)
  have "(written ^^ (length (queue_of s) + (if inflight s = None then 0 else 1))) s
      = (written ^^ (n + 1)) (written s)"
    using Suc.hyps(2) [symmetric] fl by (simp add: funpow_Suc_right del: funpow.simps)
  with IH show ?case by simp
qed

end

end
