(* ===== verification/Connection.thy ===== *)
theory Connection
  imports Rpc_Protocol Write_Queue
begin

text \<open>
  \<^verbatim>\<open>src/network/connection.h\<close> and \<^verbatim>\<open>connection.cpp\<close>: one TCP connection of the server. Boost.Asio is
  outside the repository: an asynchronous operation the connection has started is a field of the state
  (\<open>read_op\<close>, \<open>write_op\<close>), and its completion is a call of the handler with an error code chosen by
  the environment. The callbacks a handler invokes are returned as effects. Threads interleave
  between critical sections: a \<^verbatim>\<open>send\<close> is its check of \<^verbatim>\<open>closed_\<close>, its critical section, and the call of
  \<^verbatim>\<open>do_write\<close> it owes if it set \<^verbatim>\<open>writing_\<close>.
\<close>

section \<open>State\<close>

datatype ReadOp = NoRead | ReadHeader | ReadBody RpcHeader

record Connection =
  conn_id :: u64
  sock_open :: bool
  closed :: bool
  header_buf :: string
  body_buf :: string
  write_queue :: "string list"
  writing :: bool
  on_message :: bool
  on_close :: bool
  read_op :: ReadOp
  write_op :: "string option"
  starts :: nat
  wire :: "string list"

text \<open>
  The last fields are the connection's side of Asio: the outstanding read and write, the senders that
  have set \<^verbatim>\<open>writing_\<close> but not yet called \<^verbatim>\<open>do_write\<close>, and the frames the socket has taken.
\<close>

datatype conn_effect = OnMessage RpcHeader string | OnClose u64

definition new_connection :: Connection where
  "new_connection =
     \<lparr>conn_id = 0, sock_open = True, closed = False, header_buf = replicate 20 NUL, body_buf = [],
      write_queue = [], writing = False, on_message = False, on_close = False,
      read_op = NoRead, write_op = None, starts = 0, wire = []\<rparr>"

definition is_open :: "Connection \<Rightarrow> bool" where
  "is_open c \<longleftrightarrow> sock_open c \<and> \<not> closed c"

section \<open>Reading\<close>

definition do_read_header :: "Connection \<Rightarrow> Connection" where
  "do_read_header c = c\<lparr>read_op := ReadHeader\<rparr>"

definition start_read :: "bool \<Rightarrow> bool \<Rightarrow> Connection \<Rightarrow> Connection" where
  "start_read msg cls c = do_read_header (c\<lparr>on_message := msg, on_close := cls\<rparr>)"

text \<open>The compare-and-exchange on \<^verbatim>\<open>closed_\<close> and the close callback, as every error path has it.\<close>

definition close_once :: "Connection \<Rightarrow> Connection \<times> conn_effect list" where
  "close_once c =
     (if closed c then (c, [])
      else (c\<lparr>closed := True\<rparr>, if on_close c then [OnClose (conn_id c)] else []))"

definition do_read_body :: "RpcHeader \<Rightarrow> Connection \<Rightarrow> Connection" where
  "do_read_body h c =
     (let n = unat (body_size h)
      in c\<lparr>body_buf := take n (body_buf c) @ replicate (n - length (body_buf c)) NUL,
           read_op := ReadBody h\<rparr>)"

text \<open>The completion handlers; \<open>buf\<close> is what the read stored.\<close>

definition header_handler :: "ec \<Rightarrow> string \<Rightarrow> Connection \<Rightarrow> Connection \<times> conn_effect list" where
  "header_handler ec buf c =
     (let c = c\<lparr>read_op := NoRead\<rparr> in
      case ec of Failure _ \<Rightarrow> close_once c
      | Success \<Rightarrow>
          let c = c\<lparr>header_buf := buf\<rparr> in
          case deserialize_header (header_buf c) of
            Ret header \<Rightarrow>
              if magic header \<noteq> MAGIC then close_once c else (do_read_body header c, [])
          | _ \<Rightarrow> close_once c)"

definition body_handler :: "RpcHeader \<Rightarrow> ec \<Rightarrow> string \<Rightarrow> Connection \<Rightarrow> Connection \<times> conn_effect list" where
  "body_handler header ec buf c =
     (let c = c\<lparr>read_op := NoRead\<rparr> in
      case ec of Failure _ \<Rightarrow> close_once c
      | Success \<Rightarrow>
          let c = c\<lparr>body_buf := buf\<rparr>
          in (do_read_header c, if on_message c then [OnMessage header (body_buf c)] else []))"

section \<open>Writing\<close>

definition enqueue_frame :: "string \<Rightarrow> Connection \<Rightarrow> Connection" where
  "enqueue_frame data c =
     (let c = c\<lparr>write_queue := write_queue c @ [data]\<rparr>
      in if writing c then c else c\<lparr>writing := True, starts := Suc (starts c)\<rparr>)"

definition do_write :: "Connection \<Rightarrow> Connection" where
  "do_write c =
     (case write_queue c of
        [] \<Rightarrow> c\<lparr>writing := False\<rparr>
      | data # rest \<Rightarrow> c\<lparr>write_queue := rest, write_op := Some data\<rparr>)"

definition enter_do_write :: "Connection \<Rightarrow> Connection" where
  "enter_do_write c = do_write (c\<lparr>starts := starts c - 1\<rparr>)"

definition frame_of :: "RpcHeader \<Rightarrow> string \<Rightarrow> string res" where
  "frame_of header body = bindR (serialize_header header) (\<lambda>data. Ret (data @ body))"

text \<open>The whole of \<^verbatim>\<open>send\<close> when no other thread runs in between.\<close>

definition send :: "RpcHeader \<Rightarrow> string \<Rightarrow> Connection \<Rightarrow> Connection res" where
  "send header body c =
     (if closed c then Ret c
      else bindR (frame_of header body) (\<lambda>data.
        let c' = enqueue_frame data c
        in Ret (if writing c then c' else enter_do_write c')))"

definition write_handler :: "ec \<Rightarrow> Connection \<Rightarrow> Connection \<times> conn_effect list" where
  "write_handler ec c =
     (case ec of
        Failure _ \<Rightarrow> close_once (c\<lparr>write_op := None\<rparr>)
      | Success \<Rightarrow>
          (do_write (c\<lparr>write_op := None,
                       wire := wire c @ (case write_op c of None \<Rightarrow> [] | Some d \<Rightarrow> [d])\<rparr>), []))"

definition close :: "Connection \<Rightarrow> Connection" where
  "close c =
     (if closed c then c
      else let c = c\<lparr>closed := True\<rparr> in if sock_open c then c\<lparr>sock_open := False\<rparr> else c)"

section \<open>A byte stream\<close>

text \<open>
  The reading loop run on what the peer sends and its end of file: \<^verbatim>\<open>async_read\<close> completes with
  the requested bytes when they arrive and with an error when the stream ends first.
\<close>

definition eof :: ec where "eof = Failure ''End of file''"

lemma body_handler_read_op [simp]: "read_op (fst (body_handler h Success buf c)) = ReadHeader"
  by (simp add: body_handler_def do_read_header_def Let_def)

function conn_feed :: "string \<Rightarrow> Connection \<Rightarrow> Connection \<times> conn_effect list" where
  "conn_feed input c =
     (case read_op c of
        NoRead \<Rightarrow> (c, [])
      | ReadHeader \<Rightarrow>
          if length input < 20 then header_handler eof [] c
          else let r = header_handler Success (take 20 input) c;
                   q = conn_feed (drop 20 input) (fst r)
               in (fst q, snd r @ snd q)
      | ReadBody h \<Rightarrow>
          if length input < unat (body_size h) then body_handler h eof [] c
          else let r = body_handler h Success (take (unat (body_size h)) input) c;
                   q = conn_feed (drop (unat (body_size h)) input) (fst r)
               in (fst q, snd r @ snd q))"
  by pat_completeness auto
termination
  by (relation "measure (\<lambda>(input, c). 2 * length input + (if \<exists>h. read_op c = ReadBody h then 1 else 0))")
    auto

declare conn_feed.simps [simp del]

section \<open>Framing\<close>

lemma frame_of_eq: "frame_of h body = Ret (header_layout h @ body)"
  by (simp add: frame_of_def serialize_header_eq)

text \<open>A frame whose header announces the length of its body.\<close>

definition frame_ok :: "RpcHeader \<times> string \<Rightarrow> bool" where
  "frame_ok = (\<lambda>(h, body). magic h = MAGIC \<and> unat (body_size h) = length body)"

definition frame_bytes :: "RpcHeader \<times> string \<Rightarrow> string" where
  "frame_bytes = (\<lambda>(h, body). header_layout h @ body)"

lemma feed_frame:
  assumes "read_op c = ReadHeader" and "on_message c" and "frame_ok (h, body)"
  shows "conn_feed (frame_bytes (h, body) @ rest) c =
    (let q = conn_feed rest (c\<lparr>header_buf := header_layout h, body_buf := body\<rparr>)
     in (fst q, OnMessage h body # snd q))"
proof -
  let ?c1 = "do_read_body h (c\<lparr>read_op := NoRead, header_buf := header_layout h\<rparr>)"
  have dh: "deserialize_header (header_layout h) = Ret h"
    using deserialize_header_layout [of h "[]"] by simp
  have same: "c\<lparr>header_buf := header_layout h, body_buf := body, read_op := ReadHeader\<rparr>
      = c\<lparr>header_buf := header_layout h, body_buf := body\<rparr>"
    using assms(1) by (cases c) simp
  have "conn_feed (header_layout h @ body @ rest) c = conn_feed (body @ rest) ?c1"
    using assms
    by (subst conn_feed.simps) (simp add: header_handler_def dh frame_ok_def Let_def)
  also have "\<dots> = (let q = conn_feed rest (c\<lparr>header_buf := header_layout h, body_buf := body\<rparr>)
     in (fst q, OnMessage h body # snd q))"
    using assms
    by (subst conn_feed.simps)
      (simp add: same do_read_body_def body_handler_def do_read_header_def frame_ok_def Let_def)
  finally show ?thesis by (simp add: frame_bytes_def)
qed

lemma feed_frames:
  assumes "read_op c = ReadHeader" and "on_message c" and "\<forall>f \<in> set fs. frame_ok f"
  shows "\<exists>hb bb. conn_feed (concat (map frame_bytes fs) @ rest) c =
    (let q = conn_feed rest (c\<lparr>header_buf := hb, body_buf := bb\<rparr>)
     in (fst q, map (\<lambda>(h, b). OnMessage h b) fs @ snd q))"
  using assms
proof (induction fs arbitrary: c)
  case Nil
  have "c\<lparr>header_buf := header_buf c, body_buf := body_buf c\<rparr> = c" by simp
  then show ?case by (metis (mono_tags) Let_def append_Nil concat.simps(1) list.map(1) prod.collapse)
next
  case (Cons f fs)
  obtain h b where f: "f = (h, b)" by (cases f)
  let ?c = "c\<lparr>header_buf := header_layout h, body_buf := b\<rparr>"
  obtain hb bb where IH: "conn_feed (concat (map frame_bytes fs) @ rest) ?c =
    (let q = conn_feed rest (c\<lparr>header_buf := hb, body_buf := bb\<rparr>)
     in (fst q, map (\<lambda>(h, b). OnMessage h b) fs @ snd q))"
    using Cons.IH [of ?c] Cons.prems by auto
  have "conn_feed (frame_bytes (h, b) @ (concat (map frame_bytes fs) @ rest)) c =
    (let q = conn_feed (concat (map frame_bytes fs) @ rest) ?c in (fst q, OnMessage h b # snd q))"
    using Cons.prems f by (intro feed_frame) auto
  then show ?case
    by (intro exI [of _ hb] exI [of _ bb]) (simp add: f IH Let_def)
qed

text \<open>What ends a stream of frames: fewer bytes than a header, or a header with another magic word.\<close>

definition no_header :: "string \<Rightarrow> bool" where
  "no_header s \<longleftrightarrow> length s < 20 \<or> (\<exists>h rest. s = header_layout h @ rest \<and> magic h \<noteq> MAGIC)"

lemma feed_stop:
  assumes "read_op c = ReadHeader" and "no_header s"
  shows "conn_feed s c = (let r = close_once (c\<lparr>read_op := NoRead\<rparr>)
    in (fst (conn_feed s c), snd r)) \<and> closed (fst (conn_feed s c)) \<and> read_op (fst (conn_feed s c)) = NoRead"
proof (cases "length s < 20")
  case True
  with assms show ?thesis
    by (subst (1 2 3 4) conn_feed.simps) (simp add: header_handler_def eof_def close_once_def Let_def)
next
  case False
  with assms obtain h rest where s: "s = header_layout h @ rest" and m: "magic h \<noteq> MAGIC"
    by (auto simp: no_header_def)
  have dh: "deserialize_header (header_layout h) = Ret h"
    using deserialize_header_layout [of h "[]"] by simp
  have stop: "read_op d = NoRead \<Longrightarrow> conn_feed t d = (d, [])" for t d
    by (subst conn_feed.simps) simp
  from assms show ?thesis
    by (subst (1 2 3 4) conn_feed.simps) (simp add: s header_handler_def dh m close_once_def stop Let_def)
qed


text \<open>
  The complete behaviour of the loop on any input: it delivers the longest sequence of well-formed
  frames the input starts with, then closes.
\<close>

definition has_frame :: "string \<Rightarrow> bool" where
  "has_frame s \<longleftrightarrow> (\<exists>f more. frame_ok f \<and> s = frame_bytes f @ more)"

lemma header_of_20:
  assumes "20 \<le> length s"
  obtains h where "take 20 s = header_layout h" and "deserialize_header (take 20 s) = Ret h"
proof -
  have len: "length (take 20 s) = 20" using assms by simp
  have "\<exists>h. deserialize_header (take 20 s) = Ret h"
    using assms by (simp add: deserialize_header_def read_defs)
  then obtain h where h: "deserialize_header (take 20 s) = Ret h" by blast
  then obtain rest where "take 20 s = header_layout h @ rest" using header_accepted by blast
  with len have "take 20 s = header_layout h" by (metis append_Nil2 append_eq_append_conv length_layout(1))
  with h show thesis using that by blast
qed

lemma no_frame_if_short_body:
  assumes "take 20 s = header_layout h" and "length s < 20 + unat (body_size h)"
  shows "\<not> has_frame s"
proof
  assume "has_frame s"
  then obtain h' b more where f: "frame_ok (h', b)" "s = header_layout h' @ b @ more"
    by (auto simp: has_frame_def frame_bytes_def)
  then have "take 20 s = header_layout h'" by simp
  then have "h' = h" using assms(1) hdr.self_delimiting [where x = h' and y = h] by (simp add: serialize_header_eq)
  with f assms(2) show False by (auto simp: frame_ok_def)
qed

lemma no_frame_if_bad_magic:
  assumes "take 20 s = header_layout h" and "magic h \<noteq> MAGIC"
  shows "\<not> has_frame s"
proof
  assume "has_frame s"
  then obtain h' b more where f: "frame_ok (h', b)" "s = header_layout h' @ b @ more"
    by (auto simp: has_frame_def frame_bytes_def)
  then have "take 20 s = header_layout h'" by simp
  then have "h' = h" using assms(1) hdr.self_delimiting [where x = h' and y = h] by (simp add: serialize_header_eq)
  with f assms(2) show False by (auto simp: frame_ok_def)
qed

definition deliveries :: "(RpcHeader \<times> string) list \<Rightarrow> conn_effect list" where
  "deliveries fs = map (\<lambda>(h, b). OnMessage h b) fs"

lemma feed_short_body:
  assumes c: "read_op c = ReadHeader" "\<not> closed c" "on_close c"
    and h: "take 20 s = header_layout h" "20 \<le> length s" "magic h = MAGIC"
    and short: "length s < 20 + unat (body_size h)"
  shows "snd (conn_feed s c) = [OnClose (conn_id c)] \<and> closed (fst (conn_feed s c))"
proof -
  let ?c1 = "do_read_body h (c\<lparr>read_op := NoRead, header_buf := header_layout h\<rparr>)"
  have dh: "deserialize_header (header_layout h) = Ret h"
    using deserialize_header_layout [of h "[]"] by simp
  have step: "conn_feed s c = conn_feed (drop 20 s) ?c1"
    using c h by (subst conn_feed.simps) (simp add: header_handler_def dh Let_def)
  have "conn_feed (drop 20 s) ?c1 = body_handler h eof [] ?c1"
    using short h(2) by (subst conn_feed.simps) (auto simp: do_read_body_def Let_def)
  with step c show ?thesis
    by (simp add: body_handler_def eof_def close_once_def do_read_body_def Let_def)
qed

text \<open>The loop ends: too few bytes, a wrong magic number, or a body cut off.\<close>

lemma conn_feed_halts:
  assumes c: "read_op c = ReadHeader" "\<not> closed c" "on_close c"
    and "\<not> (\<exists>h. take 20 input = header_layout h \<and> magic h = MAGIC \<and> 20 + unat (body_size h) \<le> length input)"
  shows "\<not> has_frame input \<and> snd (conn_feed input c) = [OnClose (conn_id c)] \<and> closed (fst (conn_feed input c))"
proof (cases "length input < 20")
  case True
  then have "\<not> has_frame input" by (auto simp: has_frame_def frame_bytes_def)
  moreover have "no_header input" using True by (simp add: no_header_def)
  ultimately show ?thesis using feed_stop [OF c(1), of input] c by (auto simp: close_once_def Let_def prod_eq_iff)
next
  case False
  then obtain h where h: "take 20 input = header_layout h" using header_of_20 [of input] by (metis not_less)
  have split: "input = header_layout h @ drop 20 input" using h by (metis append_take_drop_id)
  show ?thesis
  proof (cases "magic h = MAGIC")
    case True
    then have "length input < 20 + unat (body_size h)" using assms(4) h by force
    then show ?thesis using feed_short_body [OF c h _ True] no_frame_if_short_body [OF h] False by auto
  next
    case bad: False
    then have "no_header input" using split by (auto simp: no_header_def)
    then show ?thesis
      using feed_stop [OF c(1), of input] c no_frame_if_bad_magic [OF h bad] by (auto simp: close_once_def Let_def prod_eq_iff)
  qed
qed

lemma conn_feed_complete:
  assumes "read_op c = ReadHeader" "on_message c" "\<not> closed c" "on_close c"
  shows "\<exists>fs rest. input = concat (map frame_bytes fs) @ rest \<and> list_all frame_ok fs \<and> \<not> has_frame rest \<and>
    snd (conn_feed input c) = deliveries fs @ [OnClose (conn_id c)] \<and> closed (fst (conn_feed input c))"
  using assms
proof (induction "length input" arbitrary: input c rule: less_induct)
  case less
  show ?case
  proof (cases "\<exists>h. take 20 input = header_layout h \<and> magic h = MAGIC \<and> 20 + unat (body_size h) \<le> length input")
    case True
    then obtain h where h: "take 20 input = header_layout h" "magic h = MAGIC" "20 + unat (body_size h) \<le> length input" by blast
    let ?b = "take (unat (body_size h)) (drop 20 input)"
    let ?r = "drop (20 + unat (body_size h)) input"
    let ?c = "c\<lparr>header_buf := header_layout h, body_buf := ?b\<rparr>"
    have ok: "frame_ok (h, ?b)" using h by (simp add: frame_ok_def)
    have "input = header_layout h @ drop 20 input" using h(1) by (metis append_take_drop_id)
    then have inp: "input = frame_bytes (h, ?b) @ ?r" by (simp add: frame_bytes_def add.commute flip: drop_drop)
    have "length ?r < length input" using h(3) by simp
    then obtain fs rest where IH: "?r = concat (map frame_bytes fs) @ rest" "list_all frame_ok fs"
        "\<not> has_frame rest" "snd (conn_feed ?r ?c) = deliveries fs @ [OnClose (conn_id c)]"
        "closed (fst (conn_feed ?r ?c))"
      using less.hyps [of ?r ?c] less.prems by auto
    have "conn_feed input c = (fst (conn_feed ?r ?c), OnMessage h ?b # snd (conn_feed ?r ?c))"
      using feed_frame [OF less.prems(1,2) ok, of ?r] by (simp add: Let_def flip: inp)
    moreover have "input = concat (map frame_bytes ((h, ?b) # fs)) @ rest" using inp IH(1) by simp
    ultimately show ?thesis
      using IH ok by (intro exI [of _ "(h, ?b) # fs"] exI [of _ rest]) (simp add: deliveries_def)
  next
    case False
    then show ?thesis
      using conn_feed_halts [OF less.prems(1,3,4) False] by (intro exI [of _ "[]"] exI [of _ input]) (simp add: deliveries_def)
  qed
qed


section \<open>The writer\<close>

lemmas conn_write_defs = enqueue_frame_def enter_do_write_def do_write_def write_handler_def Let_def

interpretation cw: serial_writer write_queue write_op writing starts wire
  enqueue_frame enter_do_write "\<lambda>c. fst (write_handler Success c)"
  by unfold_locales (auto simp: conn_write_defs split: list.splits)

text \<open>The other operations leave the writer alone.\<close>

lemma writer_frame [simp]:
  "write_queue (fst (close_once c)) = write_queue c" "write_op (fst (close_once c)) = write_op c"
  "writing (fst (close_once c)) = writing c" "starts (fst (close_once c)) = starts c"
  "wire (fst (close_once c)) = wire c" "closed (fst (close_once c))"
  "write_queue (close c) = write_queue c" "write_op (close c) = write_op c"
  "writing (close c) = writing c" "starts (close c) = starts c" "wire (close c) = wire c"
  "closed (close c)"
  by (auto simp: close_once_def close_def Let_def)

lemma reader_writer_frame:
  assumes "c' = fst (header_handler ec buf c) \<or> c' = fst (body_handler h ec buf c)"
  shows "write_queue c' = write_queue c" "write_op c' = write_op c" "writing c' = writing c"
    "starts c' = starts c" "wire c' = wire c" "closed c \<Longrightarrow> closed c'"
  using assms
  by (auto simp: header_handler_def body_handler_def close_once_def do_read_header_def do_read_body_def
      Let_def split: ec.splits res.splits if_splits)

section \<open>Interleavings\<close>

text \<open>
  Senders on any thread, the completion handlers and \<^verbatim>\<open>close\<close>, in any order. \<open>admitted\<close> holds the
  frames of senders that have passed the check of \<^verbatim>\<open>closed_\<close> and wait for the lock; \<open>queued\<close> records
  the frames in the order they entered the queue, \<open>log\<close> the callbacks that were invoked.
\<close>

record conn_sys =
  conn :: Connection
  admitted :: "string list"
  queued :: "string list"
  log :: "conn_effect list"

inductive conn_step :: "conn_sys \<Rightarrow> conn_sys \<Rightarrow> bool" where
  send_check: "\<not> closed (conn s) \<Longrightarrow> frame_of h body = Ret d \<Longrightarrow>
    conn_step s (s\<lparr>admitted := admitted s @ [d]\<rparr>)"
| send_lock: "admitted s = xs @ d # ys \<Longrightarrow>
    conn_step s (s\<lparr>conn := enqueue_frame d (conn s), admitted := xs @ ys, queued := queued s @ [d]\<rparr>)"
| send_start: "0 < starts (conn s) \<Longrightarrow> conn_step s (s\<lparr>conn := enter_do_write (conn s)\<rparr>)"
| write_done: "write_op (conn s) \<noteq> None \<Longrightarrow> write_handler ec (conn s) = (c', es) \<Longrightarrow>
    conn_step s (s\<lparr>conn := c', log := log s @ es\<rparr>)"
| header_done: "read_op (conn s) = ReadHeader \<Longrightarrow> header_handler ec buf (conn s) = (c', es) \<Longrightarrow>
    conn_step s (s\<lparr>conn := c', log := log s @ es\<rparr>)"
| body_done: "read_op (conn s) = ReadBody h \<Longrightarrow> body_handler h ec buf (conn s) = (c', es) \<Longrightarrow>
    conn_step s (s\<lparr>conn := c', log := log s @ es\<rparr>)"
| close_call: "conn_step s (s\<lparr>conn := close (conn s)\<rparr>)"

definition conn_init :: "u64 \<Rightarrow> conn_sys" where
  "conn_init i =
     \<lparr>conn = start_read True True (new_connection\<lparr>conn_id := i\<rparr>), admitted = [], queued = [], log = []\<rparr>"

inductive conn_reach :: "u64 \<Rightarrow> conn_sys \<Rightarrow> bool" for i where
  conn_start: "conn_reach i (conn_init i)"
| conn_next: "conn_reach i s \<Longrightarrow> conn_step s t \<Longrightarrow> conn_reach i t"

text \<open>
  While no write has failed the writer's own invariant holds and nothing is lost. A failed
  write leaves the flag set with nobody in charge; the connection is closed then, and the frame
  that failed is the only one missing between the wire and the queue.
\<close>

definition stuck :: "Connection \<Rightarrow> bool" where
  "stuck c \<longleftrightarrow> closed c \<and> writing c \<and> starts c = 0 \<and> write_op c = None"

definition write_inv :: "conn_sys \<Rightarrow> bool" where
  "write_inv s \<longleftrightarrow>
     (cw.writer_inv (conn s) \<and> queued s = cw.handed_over (conn s)) \<or>
     (stuck (conn s) \<and> (\<exists>lost. queued s = wire (conn s) @ lost # write_queue (conn s)))"

lemma write_inv_init: "write_inv (conn_init i)"
  by (simp add: write_inv_def conn_init_def new_connection_def start_read_def do_read_header_def
      cw.writer_inv_def cw.handed_over_def)

lemma writer_cong:
  assumes "write_queue c' = write_queue c" "write_op c' = write_op c" "writing c' = writing c"
    "starts c' = starts c" "wire c' = wire c" "closed c \<Longrightarrow> closed c'" "write_inv s" "conn s = c"
  shows "write_inv (s\<lparr>conn := c', log := l\<rparr>)" "write_inv (s\<lparr>conn := c'\<rparr>)"
  using assms by (auto simp: write_inv_def cw.writer_inv_def cw.handed_over_def stuck_def)

lemma write_inv_step: "conn_step s t \<Longrightarrow> write_inv s \<Longrightarrow> write_inv t"
proof (induction rule: conn_step.induct)
  case (send_check s h body d)
  then show ?case by (simp add: write_inv_def)
next
  case (send_lock s xs d ys)
  then show ?case
    by (auto simp: write_inv_def cw.push_inv cw.handed_over_push) (auto simp: stuck_def enqueue_frame_def Let_def)
next
  case (send_start s)
  then show ?case by (auto simp: write_inv_def cw.enter_inv cw.handed_over_enter stuck_def)
next
  case (write_done s ec c' es)
  show ?case
  proof (cases ec)
    case Success
    then have c': "c' = fst (write_handler Success (conn s))" using write_done.hyps(2) by simp
    from write_done.prems write_done.hyps(1)
    have "cw.writer_inv (conn s) \<and> queued s = cw.handed_over (conn s)"
      by (auto simp: write_inv_def stuck_def)
    then show ?thesis
      using cw.written_inv [of "conn s"] cw.handed_over_written [of "conn s"] write_done.hyps(1)
      by (simp add: write_inv_def c')
  next
    case (Failure m)
    then have c': "c' = fst (close_once ((conn s)\<lparr>write_op := None\<rparr>))"
      using write_done.hyps(2) by (simp add: write_handler_def)
    from write_done.prems write_done.hyps(1)
    have "cw.writer_inv (conn s)" and q: "queued s = cw.handed_over (conn s)"
      by (auto simp: write_inv_def stuck_def)
    with write_done.hyps(1) have "writing (conn s)" "starts (conn s) = 0"
      by (auto simp: cw.writer_inv_def split: if_splits)
    moreover obtain d where "write_op (conn s) = Some d" using write_done.hyps(1) by auto
    ultimately show ?thesis
      using q by (simp add: write_inv_def c' stuck_def cw.handed_over_def)
  qed
next
  case (header_done s ec buf c' es)
  then show ?case using reader_writer_frame [of c' ec buf "conn s"] by (intro writer_cong) auto
next
  case (body_done s h ec buf c' es)
  then show ?case using reader_writer_frame [of c' ec buf "conn s" h] by (intro writer_cong) auto
next
  case (close_call s)
  then show ?case by (intro writer_cong) auto
qed

lemma write_inv_reach: "conn_reach i s \<Longrightarrow> write_inv s"
  by (induction rule: conn_reach.induct) (auto simp: write_inv_init write_inv_step)

section \<open>The close callback\<close>

definition close_inv :: "u64 \<Rightarrow> conn_sys \<Rightarrow> bool" where
  "close_inv i s \<longleftrightarrow> conn_id (conn s) = i \<and> on_close (conn s) \<and>
     (closed (conn s) \<or> OnClose i \<notin> set (log s)) \<and> count_list (log s) (OnClose i) \<le> 1 \<and>
     (\<forall>j. OnClose j \<in> set (log s) \<longrightarrow> j = i)"

lemma count_zero: "x \<notin> set xs \<Longrightarrow> count_list xs x = 0"
  by (simp add: count_list_0_iff)

text \<open>A handler either closes once or neither touches the close flag nor reports a close.\<close>

definition closing :: "Connection \<Rightarrow> Connection \<Rightarrow> conn_effect list \<Rightarrow> bool" where
  "closing c c' es \<longleftrightarrow> (\<exists>c1. close_once c1 = (c', es) \<and> conn_id c1 = conn_id c \<and>
     on_close c1 = on_close c \<and> closed c1 = closed c)"

definition quiet :: "Connection \<Rightarrow> Connection \<Rightarrow> conn_effect list \<Rightarrow> bool" where
  "quiet c c' es \<longleftrightarrow> conn_id c' = conn_id c \<and> on_close c' = on_close c \<and> closed c' = closed c \<and>
     (\<forall>j. OnClose j \<notin> set es)"

lemma closingI:
  "close_once c1 = (c', es) \<Longrightarrow> conn_id c1 = conn_id c \<Longrightarrow> on_close c1 = on_close c \<Longrightarrow>
   closed c1 = closed c \<Longrightarrow> closing c c' es"
  by (auto simp: closing_def)

lemma header_handler_cases:
  assumes "header_handler ec buf c = (c', es)"
  shows "closing c c' es \<or> quiet c c' es"
proof (cases "\<exists>h. ec = Success \<and> deserialize_header buf = Ret h \<and> magic h = MAGIC")
  case True
  with assms show ?thesis by (auto simp: header_handler_def quiet_def do_read_body_def Let_def)
next
  case False
  with assms have "close_once (c\<lparr>read_op := NoRead\<rparr>) = (c', es) \<or>
      close_once (c\<lparr>read_op := NoRead, header_buf := buf\<rparr>) = (c', es)"
    by (auto simp: header_handler_def Let_def split: ec.splits res.splits if_splits)
  then show ?thesis by (auto intro: closingI)
qed

lemma body_handler_cases:
  assumes "body_handler h ec buf c = (c', es)"
  shows "closing c c' es \<or> quiet c c' es"
proof (cases ec)
  case Success
  with assms show ?thesis by (auto simp: body_handler_def quiet_def do_read_header_def Let_def)
next
  case (Failure m)
  with assms have "close_once (c\<lparr>read_op := NoRead\<rparr>) = (c', es)" by (simp add: body_handler_def Let_def)
  then show ?thesis by (auto intro: closingI)
qed

lemma write_handler_cases:
  assumes "write_handler ec c = (c', es)"
  shows "closing c c' es \<or> quiet c c' es"
proof (cases ec)
  case Success
  with assms show ?thesis by (auto simp: write_handler_def quiet_def do_write_def split: list.splits)
next
  case (Failure m)
  with assms have "close_once (c\<lparr>write_op := None\<rparr>) = (c', es)" by (simp add: write_handler_def)
  then show ?thesis by (auto intro: closingI)
qed

lemma close_inv_handler:
  assumes "close_inv i s" and "closing (conn s) c' es \<or> quiet (conn s) c' es"
  shows "close_inv i (s\<lparr>conn := c', log := log s @ es\<rparr>)"
  using assms(2)
proof
  assume "closing (conn s) c' es"
  with assms(1) show ?thesis
    by (auto simp: closing_def close_inv_def close_once_def count_zero split: if_splits)
next
  assume "quiet (conn s) c' es"
  with assms(1) show ?thesis by (auto simp: quiet_def close_inv_def count_zero)
qed

lemma close_inv_step: "conn_step s t \<Longrightarrow> close_inv i s \<Longrightarrow> close_inv i t"
proof (induction rule: conn_step.induct)
  case (write_done s ec c' es)
  then show ?case using write_handler_cases by (blast intro: close_inv_handler)
next
  case (header_done s ec buf c' es)
  then show ?case using header_handler_cases by (blast intro: close_inv_handler)
next
  case (body_done s h ec buf c' es)
  then show ?case using body_handler_cases by (blast intro: close_inv_handler)
qed (auto simp: close_inv_def enqueue_frame_def enter_do_write_def do_write_def close_def Let_def split: list.splits)

lemma close_inv_reach: "conn_reach i s \<Longrightarrow> close_inv i s"
  by (induction rule: conn_reach.induct)
    (auto simp: close_inv_step, simp add: close_inv_def conn_init_def start_read_def do_read_header_def new_connection_def)


section \<open>Properties\<close>

text \<open>
  C9: whatever bytes the peer sends, the connection delivers exactly the longest sequence of
  well-formed frames they start with, in order and with unchanged bodies, and then reports the
  close exactly once.
\<close>

theorem stream_delivery:
  "\<exists>fs rest. input = concat (map frame_bytes fs) @ rest \<and> list_all frame_ok fs \<and> \<not> has_frame rest \<and>
     snd (conn_feed input (start_read True True (new_connection\<lparr>conn_id := i\<rparr>))) =
       map (\<lambda>(h, body). OnMessage h body) fs @ [OnClose i]"
  using conn_feed_complete [of "start_read True True (new_connection\<lparr>conn_id := i\<rparr>)" input]
  by (auto simp: start_read_def do_read_header_def new_connection_def deliveries_def)

text \<open>A server that answers one request: check, lock, start, completion.\<close>

definition demo_header :: RpcHeader where
  "demo_header = \<lparr>magic = MAGIC, version = VERSION, msg_type = msg_type_code RESPONSE, serializer = 0,
     flags = FLAG_NONE, seq_id = 1, body_size = 4, checksum = 0\<rparr>"

definition demo_frame :: string where "demo_frame = header_layout demo_header @ ''pong''"

definition demo0 :: conn_sys where "demo0 = (conn_init 1)\<lparr>admitted := [demo_frame]\<rparr>"
definition demo1 :: conn_sys where
  "demo1 = demo0\<lparr>conn := enqueue_frame demo_frame (conn demo0), admitted := [], queued := [demo_frame]\<rparr>"
definition demo2 :: conn_sys where "demo2 = demo1\<lparr>conn := enter_do_write (conn demo1)\<rparr>"
definition demo3 :: "ec \<Rightarrow> conn_sys" where
  "demo3 ec = demo2\<lparr>conn := fst (write_handler ec (conn demo2)), log := snd (write_handler ec (conn demo2))\<rparr>"

lemmas demo_simps = demo3_def demo2_def demo1_def demo0_def conn_init_def start_read_def
  do_read_header_def new_connection_def conn_write_defs close_once_def

lemma demo_reach: "conn_reach 1 (demo3 ec)"
proof -
  have "conn_step (conn_init 1) demo0"
    using conn_step.send_check [of "conn_init 1" demo_header "''pong''" demo_frame]
    by (simp add: frame_of_eq demo_frame_def demo0_def conn_init_def start_read_def do_read_header_def
        new_connection_def)
  then have "conn_reach 1 demo0" by (rule conn_reach.conn_next [OF conn_reach.conn_start])
  moreover have "conn_step demo0 demo1"
    using conn_step.send_lock [of demo0 "[]" demo_frame "[]"]
    by (simp add: demo1_def) (simp add: demo0_def conn_init_def)
  ultimately have "conn_reach 1 demo1" by (rule conn_reach.conn_next)
  moreover have "conn_step demo1 demo2"
    using conn_step.send_start [of demo1] by (simp add: demo2_def) (simp add: demo_simps)
  ultimately have "conn_reach 1 demo2" by (rule conn_reach.conn_next)
  moreover have "conn_step demo2 (demo3 ec)"
    using conn_step.write_done [of demo2 ec "conn (demo3 ec)" "log (demo3 ec)"]
    by (simp add: demo3_def) (simp add: demo_simps)
  ultimately show ?thesis by (rule conn_reach.conn_next)
qed

text \<open>
  C17: with any number of threads sending, the socket never has two writes outstanding, the frames
  on the wire are the first ones that entered the queue, in that order, and as long as the connection is
  not closed none is missing: wire, write in flight and queue together are all of them.
\<close>

theorem writes_serial_in_order:
  assumes "conn_reach i s"
  shows "starts (conn s) + length (case write_op (conn s) of None \<Rightarrow> [] | Some d \<Rightarrow> [d]) \<le> 1 \<and>
    (\<exists>later. queued s = wire (conn s) @ later) \<and>
    (closed (conn s) \<or> queued s =
       wire (conn s) @ (case write_op (conn s) of None \<Rightarrow> [] | Some d \<Rightarrow> [d]) @ write_queue (conn s))"
  using write_inv_reach [OF assms]
  by (auto simp: write_inv_def stuck_def cw.writer_inv_def cw.handed_over_def split: option.splits if_splits)

theorem writes_serial_in_order_witness:
  "queued (demo3 Success) = [demo_frame] \<and> \<not> closed (conn (demo3 Success)) \<and>
   wire (conn (demo3 Success)) = [demo_frame] \<and> write_op (conn (demo3 Success)) = None"
  using writes_serial_in_order [OF demo_reach, of Success]
  by (simp add: demo_simps)

text \<open>
  C18: in no interleaving of failing reads, failing writes and calls of \<^verbatim>\<open>close\<close> is the close callback
  invoked twice, and once it has been invoked the connection is closed.
\<close>

theorem close_callback_once:
  assumes "conn_reach i s"
  shows "count_list (log s) (OnClose i) \<le> 1 \<and> (closed (conn s) \<or> OnClose i \<notin> set (log s))"
  using close_inv_reach [OF assms] by (auto simp: close_inv_def)

theorem close_callback_once_witness:
  "OnClose 1 \<in> set (log (demo3 (Failure ''reset''))) \<and> closed (conn (demo3 (Failure ''reset'')))"
  using close_callback_once [OF demo_reach, of "Failure ''reset''"]
  by (simp add: demo_simps)

text \<open>
  A failed write marks the connection closed and reports the close, but neither closes the socket
  nor ends the reading loop: a closed connection still delivers requests, whose responses \<^verbatim>\<open>send\<close>
  drops.
\<close>

theorem closed_connection_still_delivers:
  "\<exists>s t h body. conn_reach 1 s \<and> closed (conn s) \<and> sock_open (conn s) \<and> conn_step s t \<and>
     log t = log s @ [OnMessage h body] \<and> send h body (conn t) = Ret (conn t)"
proof -
  define s where "s = demo3 (Failure ''reset'')"
  define c1 where "c1 = fst (header_handler Success (header_layout demo_header) (conn s))"
  define s1 where "s1 = s\<lparr>conn := c1\<rparr>"
  define t where "t = s1\<lparr>conn := fst (body_handler demo_header Success ''ping'' c1),
    log := log s @ [OnMessage demo_header ''ping'']\<rparr>"
  have dh: "deserialize_header (header_layout demo_header) = Ret demo_header"
    using deserialize_header_layout [of demo_header "[]"] by simp
  have mg: "magic demo_header = MAGIC" by (simp add: demo_header_def)
  have hh: "header_handler Success (header_layout demo_header) (conn s) = (c1, [])"
    by (simp add: c1_def header_handler_def dh mg Let_def)
  have st: "closed (conn s)" "sock_open (conn s)" "read_op (conn s) = ReadHeader" "on_message (conn s)"
    by (simp_all add: s_def demo_simps)
  have c1: "closed c1" "sock_open c1" "read_op c1 = ReadBody demo_header" "on_message c1"
    using st by (simp_all add: c1_def header_handler_def dh mg Let_def do_read_body_def)
  have "conn_step s s1"
    using conn_step.header_done [of s Success "header_layout demo_header" c1 "[]"] hh st by (simp add: s1_def)
  then have r1: "conn_reach 1 s1"
    using demo_reach [of "Failure ''reset''"] conn_reach.conn_next by (simp add: s_def)
  have "body_handler demo_header Success ''ping'' c1 =
      (fst (body_handler demo_header Success ''ping'' c1), [OnMessage demo_header ''ping''])"
    using c1 by (simp add: body_handler_def Let_def)
  then have "conn_step s1 t"
    using conn_step.body_done [of s1 demo_header Success "''ping''"] c1 by (simp add: s1_def t_def)
  moreover have "closed (conn t)"
    using c1 by (simp add: t_def body_handler_def do_read_header_def Let_def)
  ultimately show ?thesis
    using r1 c1 by (intro exI [of _ s1] exI [of _ t] exI [of _ demo_header] exI [of _ "''ping''"])
      (simp add: s1_def t_def send_def)
qed


end
