(* ===== verification/Std_Containers.thy ===== *)
theory Std_Containers
  imports Rpc_Prelude "HOL-Library.Multiset" "HOL-Library.Sublist" "HOL-Library.Char_ord" "HOL-Library.List_Lexorder"
begin

text \<open>
  The containers of the C++ standard library the program uses: \<^verbatim>\<open>std::unordered_map\<close> as an
  association list with distinct keys, \<^verbatim>\<open>std::string::find\<close>, and \<^verbatim>\<open>std::to_string\<close>. The locale
  \<open>keyed_store\<close> is the contract of the maps; its interpretation \<open>um\<close> is what the service manager,
  the connection manager and both clients build on. Strings are ordered as \<^verbatim>\<open>std::string\<close> orders
  them, lexicographically by unsigned characters.
\<close>

section \<open>Hash maps\<close>

type_synonym ('k, 'v) umap = "('k \<times> 'v) list"

definition umap_wf :: "('k, 'v) umap \<Rightarrow> bool" where
  "umap_wf m \<longleftrightarrow> distinct (map fst m)"

locale keyed_store =
  fixes find :: "'s \<Rightarrow> 'k \<Rightarrow> 'v option" and assign :: "'k \<Rightarrow> 'v \<Rightarrow> 's \<Rightarrow> 's"
    and erase :: "'k \<Rightarrow> 's \<Rightarrow> 's" and keys :: "'s \<Rightarrow> 'k list" and wf :: "'s \<Rightarrow> bool"
  assumes find_assign: "find (assign k v s) = (find s)(k \<mapsto> v)"
    and find_erase: "wf s \<Longrightarrow> find (erase k s) = (find s)(k := None)"
    and wf_assign: "wf s \<Longrightarrow> wf (assign k v s)"
    and wf_erase: "wf s \<Longrightarrow> wf (erase k s)"
    and distinct_keys: "wf s \<Longrightarrow> distinct (keys s)"
    and set_keys: "set (keys s) = dom (find s)"
begin

lemma finite_dom: "finite (dom (find s))"
  using set_keys by (metis List.finite_set)

lemma length_keys: "wf s \<Longrightarrow> length (keys s) = card (dom (find s))"
  using distinct_keys set_keys by (metis distinct_card)

lemma size_assign_new: "wf s \<Longrightarrow> find s k = None \<Longrightarrow> length (keys (assign k v s)) = Suc (length (keys s))"
  by (simp add: length_keys wf_assign find_assign finite_dom domIff)

lemma size_assign_old: "wf s \<Longrightarrow> find s k = Some u \<Longrightarrow> length (keys (assign k v s)) = length (keys s)"
  by (simp add: length_keys wf_assign find_assign finite_dom insert_absorb domI)

lemma size_erase: "wf s \<Longrightarrow> find s k = Some u \<Longrightarrow> Suc (length (keys (erase k s))) = length (keys s)"
  by (metis card_Suc_Diff1 domI dom_fun_upd find_erase finite_dom length_keys wf_erase)

lemma erase_absent: "wf s \<Longrightarrow> find s k = None \<Longrightarrow> find (erase k s) = find s"
  by (auto simp: find_erase)

lemma erase_assign: "wf s \<Longrightarrow> find s k = None \<Longrightarrow> find (erase k (assign k v s)) = find s"
  by (auto simp: find_erase find_assign wf_assign)

end

interpretation um: keyed_store map_of AList.update AList.delete "map fst" umap_wf
  by unfold_locales
    (auto simp: update_conv' delete_conv' umap_wf_def distinct_update distinct_delete dom_map_of_conv_image_fst)

lemma umap_wf_Nil [simp]: "umap_wf []"
  by (simp add: umap_wf_def)

text \<open>The entries of a map as a multiset, for counting what a map holds.\<close>

lemma mset_erase:
  "umap_wf m \<Longrightarrow> map_of m k = Some v \<Longrightarrow> mset m = add_mset (k, v) (mset (AList.delete k m))"
proof (induction m)
  case (Cons e m)
  obtain a b where e: "e = (a, b)" by (cases e)
  show ?case
  proof (cases "a = k")
    case True
    then have "AList.delete k m = m"
      using Cons.prems(1) e by (intro delete_id) (simp add: umap_wf_def)
    then show ?thesis using True Cons.prems e by simp
  next
    case False
    then show ?thesis using Cons e by (simp add: umap_wf_def)
  qed
qed simp

lemma mset_delete:
  assumes "umap_wf m" and "map_of m k = Some v"
  shows "mset (map snd m) = add_mset v (mset (map snd (AList.delete k m)))"
  using arg_cong [OF mset_erase [OF assms], of "image_mset snd"] by simp

lemma delete_subset: "set (AList.delete k m) \<subseteq> set m"
  by (auto simp: AList.delete_eq)

lemma update_absent: "map_of m k = None \<Longrightarrow> AList.update k v m = m @ [(k, v)]"
  by (induction m) (auto split: if_splits)

lemma count_le_one_distinct: "(\<And>k. count (mset xs) k \<le> 1) \<Longrightarrow> distinct xs"
proof (induction xs)
  case (Cons x xs)
  have "count (mset xs) k \<le> 1" for k
    by (rule order_trans [OF _ Cons.prems [of k]]) simp
  moreover have "x \<notin> set xs" using Cons.prems [of x] by (simp flip: count_mset_0_iff)
  ultimately show ?case using Cons.IH by simp
qed simp

section \<open>Strings\<close>

text \<open>\<open>str_contains s pat\<close> is \<^verbatim>\<open>s.find(pat) != std::string::npos\<close>.\<close>

fun str_contains :: "string \<Rightarrow> string \<Rightarrow> bool" where
  "str_contains [] pat \<longleftrightarrow> pat = []"
| "str_contains (c # cs) pat \<longleftrightarrow> prefix pat (c # cs) \<or> str_contains cs pat"

lemma str_contains_iff: "str_contains s pat \<longleftrightarrow> (\<exists>a b. s = a @ pat @ b)"
proof (induction s)
  case (Cons c cs)
  show ?case
  proof
    assume "str_contains (c # cs) pat"
    then show "\<exists>a b. c # cs = a @ pat @ b"
      using Cons.IH by (metis append_Cons append_Nil prefixE str_contains.simps(2))
  next
    assume "\<exists>a b. c # cs = a @ pat @ b"
    then obtain a b where ab: "c # cs = a @ pat @ b" by blast
    show "str_contains (c # cs) pat"
    proof (cases a)
      case Nil
      with ab have "prefix pat (c # cs)" by simp
      then show ?thesis by simp
    next
      case (Cons x xs)
      with ab Cons.IH show ?thesis by auto
    qed
  qed
qed auto

lemma str_contains_prefix [simp]: "str_contains (pat @ s) pat"
  by (auto simp: str_contains_iff intro: exI [of _ "[]"])

text \<open>\<^verbatim>\<open>std::to_string\<close> of an unsigned number: its decimal digits.\<close>

fun to_string :: "nat \<Rightarrow> string" where
  "to_string n =
     (if n < 10 then [char_of (48 + n)] else to_string (n div 10) @ [char_of (48 + n mod 10)])"

declare to_string.simps [simp del]

end
