(* ===== verification/Connection_Manager.thy ===== *)
theory Connection_Manager
  imports Connection Std_Containers
begin

text \<open>
  \<^verbatim>\<open>src/network/connection_manager.h\<close> and \<^verbatim>\<open>.cpp\<close>. Connections are shared through \<^verbatim>\<open>shared_ptr\<close>: an object
  lives in a store at a reference, and the manager's map goes from identifiers to references, so that a
  connection closed through the manager is the one the handlers see. The map is only touched under the
  manager's lock; \<^verbatim>\<open>add\<close> takes its number from an atomic counter and \<^verbatim>\<open>close_all\<close> closes its snapshot outside
  the lock.
\<close>

type_synonym conn_store = "nat \<rightharpoonup> Connection"

record ConnectionManager =
  conns :: "(u64, nat) umap"
  next_id :: u64

definition conn_manager0 :: ConnectionManager where
  "conn_manager0 = \<lparr>conns = [], next_id = 1\<rparr>"

definition set_conn_id :: "u64 \<Rightarrow> nat \<Rightarrow> conn_store \<Rightarrow> conn_store" where
  "set_conn_id i r st = st(r := map_option (\<lambda>c. c\<lparr>conn_id := i\<rparr>) (st r))"

definition cm_add :: "nat \<Rightarrow> conn_store \<Rightarrow> ConnectionManager \<Rightarrow> u64 \<times> conn_store \<times> ConnectionManager" where
  "cm_add r st m =
     (let i = next_id m; m = m\<lparr>next_id := next_id m + 1\<rparr>; st = set_conn_id i r st
      in (i, st, m\<lparr>conns := AList.update i r (conns m)\<rparr>))"

definition cm_remove :: "u64 \<Rightarrow> ConnectionManager \<Rightarrow> ConnectionManager" where
  "cm_remove i m = m\<lparr>conns := AList.delete i (conns m)\<rparr>"

definition cm_get :: "u64 \<Rightarrow> ConnectionManager \<Rightarrow> nat option" where
  "cm_get i m = map_of (conns m) i"

definition cm_count :: "ConnectionManager \<Rightarrow> nat" where
  "cm_count m = length (conns m)"

definition all_connections :: "ConnectionManager \<Rightarrow> nat list" where
  "all_connections m = map snd (conns m)"

definition close_at :: "conn_store \<Rightarrow> nat \<Rightarrow> conn_store" where
  "close_at st r = st(r := map_option close (st r))"

definition close_all :: "conn_store \<Rightarrow> ConnectionManager \<Rightarrow> conn_store \<times> ConnectionManager" where
  "close_all st m =
     (let snapshot = map snd (conns m); m = m\<lparr>conns := []\<rparr>
      in (foldl close_at st snapshot, m))"

section \<open>Laws\<close>

definition cm_wf :: "ConnectionManager \<Rightarrow> bool" where
  "cm_wf m \<longleftrightarrow> umap_wf (conns m)"

lemma cm_get_fun: "(\<lambda>i. cm_get i m) = map_of (conns m)"
  by (rule ext) (simp add: cm_get_def)

lemma cm_add_get:
  assumes "cm_add r st m = (i, st', m')"
  shows "i = next_id m" "cm_get k m' = (if k = i then Some r else cm_get k m)"
    "next_id m' = next_id m + 1" "cm_wf m \<Longrightarrow> cm_wf m'"
    "st' r = map_option (\<lambda>c. c\<lparr>conn_id := i\<rparr>) (st r)" "q \<noteq> r \<Longrightarrow> st' q = st q"
  using assms
  by (auto simp: cm_add_def cm_get_def cm_wf_def Let_def um.find_assign um.wf_assign set_conn_id_def)

lemma cm_remove_get [simp]:
  "cm_wf m \<Longrightarrow> cm_get k (cm_remove i m) = (if k = i then None else cm_get k m)"
  "cm_wf m \<Longrightarrow> cm_wf (cm_remove i m)" "next_id (cm_remove i m) = next_id m"
  by (auto simp: cm_remove_def cm_get_def cm_wf_def um.find_erase um.wf_erase)

lemma cm_count_card: "cm_wf m \<Longrightarrow> cm_count m = card {i. cm_get i m \<noteq> None}"
  using um.length_keys [of "conns m"] by (simp add: cm_count_def cm_wf_def cm_get_def dom_def)

lemma close_idem [simp]: "close (close c) = close c"
  by (simp add: close_def Let_def)

lemma foldl_close_at: "foldl close_at st rs r = (if r \<in> set rs then map_option close (st r) else st r)"
  by (induction rs arbitrary: st) (auto simp: close_at_def option.map_comp comp_def)

lemma close_all_store: "fst (close_all st m) r =
    (if \<exists>i. (i, r) \<in> set (conns m) then map_option close (st r) else st r)"
  by (force simp: close_all_def Let_def foldl_close_at)

lemma close_all_mgr [simp]: "cm_get i (snd (close_all st m)) = None" "cm_count (snd (close_all st m)) = 0"
    "cm_wf (snd (close_all st m))"
  by (simp_all add: close_all_def cm_get_def cm_count_def cm_wf_def Let_def)

end
