(* ===== verification/Message_Cycle.thy ===== *)
theory Message_Cycle
  imports Connection_Manager
begin

text \<open>
  \<^verbatim>\<open>src/network/message_cycle.h\<close> and \<^verbatim>\<open>.cpp\<close>: the accept loop, the connections it creates, and shutdown.
  The acceptor and the \<^verbatim>\<open>io_context\<close> are Asio's: the state keeps whether the acceptor is open, whether an
  accept is outstanding, whether the context was stopped, and whether \<^verbatim>\<open>worker_\<close> owns a thread. The close callback given to each
  connection removes it from the manager; the message callback is the server's and is returned.
\<close>

record MessageCycle =
  acceptor_open :: bool
  accept_pending :: bool
  mc_running :: bool
  io_stopped :: bool
  mc_worker :: bool
  conn_mgr :: ConnectionManager
  store :: conn_store
  fresh :: nat

definition message_cycle0 :: MessageCycle where
  "message_cycle0 =
     \<lparr>acceptor_open = False, accept_pending = False, mc_running = False, io_stopped = False,
      mc_worker = False, conn_mgr = conn_manager0, store = Map.empty, fresh = 0\<rparr>"

definition do_accept :: "MessageCycle \<Rightarrow> MessageCycle" where
  "do_accept mc = mc\<lparr>accept_pending := True\<rparr>"

text \<open>Opening, binding or listening may throw \<^verbatim>\<open>boost::system::system_error\<close>.\<close>

definition start_listen :: "ec \<Rightarrow> MessageCycle \<Rightarrow> MessageCycle res" where
  "start_listen bind_ec mc =
     (case bind_ec of
        Failure m \<Rightarrow> Throw (RuntimeError m)
      | Success \<Rightarrow> Ret (do_accept (mc\<lparr>acceptor_open := True\<rparr>)))"

definition mc_run :: "MessageCycle \<Rightarrow> MessageCycle" where
  "mc_run mc = mc\<lparr>mc_running := True\<rparr>"

text \<open>
  The background thread calls \<^verbatim>\<open>run\<close> when it is scheduled. A second \<^verbatim>\<open>run_async\<close> assigns to a thread object that
  still owns one, which is \<^verbatim>\<open>std::terminate\<close>: \<^const>\<open>None\<close>.
\<close>

definition run_async :: "MessageCycle \<Rightarrow> MessageCycle option" where
  "run_async mc = (if mc_worker mc then None else Some (mc\<lparr>mc_worker := True\<rparr>))"

definition mc_stop :: "MessageCycle \<Rightarrow> MessageCycle" where
  "mc_stop mc =
     (let mc = mc\<lparr>mc_running := False\<rparr>;
          mc = (if acceptor_open mc then mc\<lparr>acceptor_open := False\<rparr> else mc);
          r = close_all (store mc) (conn_mgr mc)
      in mc\<lparr>store := fst r, conn_mgr := snd r, io_stopped := True, mc_worker := False\<rparr>)"

definition accept_handler :: "ec \<Rightarrow> MessageCycle \<Rightarrow> MessageCycle" where
  "accept_handler ec mc =
     (let mc = mc\<lparr>accept_pending := False\<rparr> in
      case ec of
        Failure _ \<Rightarrow> if mc_running mc then do_accept mc else mc
      | Success \<Rightarrow>
          let r = fresh mc;
              st = (store mc)(r \<mapsto> new_connection);
              (i, st, m) = cm_add r st (conn_mgr mc);
              st = st(r := map_option (start_read True True) (st r));
              mc = mc\<lparr>fresh := Suc r, store := st, conn_mgr := m\<rparr>
          in if mc_running mc then do_accept mc else mc)"

text \<open>The callbacks a connection's handler invokes.\<close>

fun close_cb :: "MessageCycle \<Rightarrow> conn_effect \<Rightarrow> MessageCycle" where
  "close_cb mc (OnClose i) = mc\<lparr>conn_mgr := cm_remove i (conn_mgr mc)\<rparr>"
| "close_cb mc (OnMessage h b) = mc"

fun message_of :: "conn_effect \<Rightarrow> (RpcHeader \<times> string) list" where
  "message_of (OnClose i) = []"
| "message_of (OnMessage h b) = [(h, b)]"

definition run_handler ::
    "nat \<Rightarrow> (Connection \<Rightarrow> Connection \<times> conn_effect list) \<Rightarrow> MessageCycle \<Rightarrow>
     MessageCycle \<times> (RpcHeader \<times> string) list" where
  "run_handler r f mc =
     (case store mc r of
        None \<Rightarrow> (mc, [])
      | Some c \<Rightarrow>
          let (c', es) = f c
          in (foldl close_cb (mc\<lparr>store := (store mc)(r \<mapsto> c')\<rparr>) es, concat (map message_of es)))"

section \<open>Interleavings\<close>

inductive mc_step :: "MessageCycle \<Rightarrow> MessageCycle \<Rightarrow> bool" where
  mc_accept: "accept_pending mc \<Longrightarrow> mc_step mc (accept_handler ec mc)"
| mc_header: "store mc r = Some c \<Longrightarrow> read_op c = ReadHeader \<Longrightarrow>
    mc_step mc (fst (run_handler r (header_handler ec buf) mc))"
| mc_body: "store mc r = Some c \<Longrightarrow> read_op c = ReadBody h \<Longrightarrow>
    mc_step mc (fst (run_handler r (body_handler h ec buf) mc))"
| mc_write: "store mc r = Some c \<Longrightarrow> write_op c \<noteq> None \<Longrightarrow>
    mc_step mc (fst (run_handler r (write_handler ec) mc))"
| mc_lock: "store mc r = Some c \<Longrightarrow> mc_step mc (mc\<lparr>store := (store mc)(r \<mapsto> enqueue_frame d c)\<rparr>)"
| mc_start: "store mc r = Some c \<Longrightarrow> mc_step mc (mc\<lparr>store := (store mc)(r \<mapsto> enter_do_write c)\<rparr>)"
| mc_run_step: "mc_step mc (mc_run mc)"
| mc_async_step: "run_async mc = Some mc' \<Longrightarrow> mc_step mc mc'"
| mc_stop_step: "mc_step mc (mc_stop mc)"

inductive mc_reach :: "MessageCycle \<Rightarrow> bool" where
  mc_init: "start_listen Success message_cycle0 = Ret mc \<Longrightarrow> mc_reach mc"
| mc_next: "mc_reach mc \<Longrightarrow> mc_step mc mc' \<Longrightarrow> mc_reach mc'"

text \<open>
  The manager holds exactly the connections that are not closed, each under its own identifier.
  Identifiers are handed out from 1; the 64-bit counter is far from wrapping while fewer than
  \<open>2 ^ 64 - 1\<close> connections have been accepted.
\<close>

definition id_of :: "nat \<Rightarrow> u64" where "id_of r = word_of_nat (Suc r)"

lemma id_of_inject: "r < 2 ^ 64 - 1 \<Longrightarrow> q < 2 ^ 64 - 1 \<Longrightarrow> id_of r = id_of q \<longleftrightarrow> r = q"
proof -
  assume "r < 2 ^ 64 - 1" "q < 2 ^ 64 - 1"
  then have "unat (id_of r) = Suc r" "unat (id_of q) = Suc q"
    by (simp_all add: id_of_def unat_of_nat take_bit_eq_mod del: of_nat_Suc)
  then show ?thesis by (metis Suc_inject)
qed

definition live_inv :: "MessageCycle \<Rightarrow> bool" where
  "live_inv mc \<longleftrightarrow>
     cm_wf (conn_mgr mc) \<and> next_id (conn_mgr mc) = id_of (fresh mc) \<and>
     (\<forall>r. r \<ge> fresh mc \<longrightarrow> store mc r = None) \<and>
     (\<forall>r < fresh mc. \<exists>c. store mc r = Some c \<and> conn_id c = id_of r \<and> on_close c) \<and>
     (\<forall>i r. cm_get i (conn_mgr mc) = Some r \<longleftrightarrow>
        i = id_of r \<and> (\<exists>c. store mc r = Some c \<and> \<not> closed c))"

lemma live_inv_init: "start_listen Success message_cycle0 = Ret mc \<Longrightarrow> live_inv mc"
  by (auto simp: start_listen_def do_accept_def message_cycle0_def live_inv_def conn_manager0_def
      cm_wf_def cm_get_def id_of_def)

lemma foldl_close_cb_quiet: "\<forall>j. OnClose j \<notin> set es \<Longrightarrow> foldl close_cb mc es = mc"
proof (induction es arbitrary: mc)
  case (Cons e es)
  then show ?case by (cases e) auto
qed simp

lemma live_inv_update:
  assumes "live_inv mc" and "store mc r = Some c"
    and "conn_id c' = conn_id c" "on_close c' = on_close c" "closed c' = closed c"
  shows "live_inv (mc\<lparr>store := (store mc)(r \<mapsto> c')\<rparr>)"
proof -
  have "r < fresh mc" using assms(1,2) by (auto simp: live_inv_def not_le [symmetric])
  then show ?thesis using assms by (auto simp: live_inv_def)
qed

lemma live_inv_close:
  assumes inv: "live_inv mc" and bound: "fresh mc < 2 ^ 64" and c: "store mc r = Some c"
    and "\<not> closed c" "closed c'" "conn_id c' = conn_id c" "on_close c' = on_close c"
  shows "live_inv (mc\<lparr>store := (store mc)(r \<mapsto> c'), conn_mgr := cm_remove (conn_id c) (conn_mgr mc)\<rparr>)"
proof -
  have r: "r < fresh mc" using inv c by (auto simp: live_inv_def not_le [symmetric])
  with inv c have id: "conn_id c = id_of r" "on_close c" by (auto simp: live_inv_def)
  have inj: "id_of q = id_of r \<longleftrightarrow> q = r" if "store mc q \<noteq> None" for q
  proof -
    have "q < fresh mc" using that inv by (auto simp: live_inv_def not_le [symmetric])
    then show ?thesis using id_of_inject [of q r] bound r by simp
  qed
  show ?thesis
    using assms id inj r by (auto simp: live_inv_def)
qed

lemma live_inv_handler:
  assumes inv: "live_inv mc" and bound: "fresh mc < 2 ^ 64" and c: "store mc r = Some c"
    and f: "f c = (c', es)" and cases: "closing c c' es \<or> quiet c c' es"
  shows "live_inv (fst (run_handler r f mc))"
proof -
  have r: "r < fresh mc" using inv c by (auto simp: live_inv_def not_le [symmetric])
  with inv c have id: "conn_id c = id_of r" "on_close c" by (auto simp: live_inv_def)
  have run: "fst (run_handler r f mc) = foldl close_cb (mc\<lparr>store := (store mc)(r \<mapsto> c')\<rparr>) es"
    by (simp add: run_handler_def c f)
  from cases show ?thesis
  proof
    assume "quiet c c' es"
    then show ?thesis
      using live_inv_update [OF inv c, of c'] run by (simp add: quiet_def foldl_close_cb_quiet)
  next
    assume "closing c c' es"
    then obtain c1 where c1: "close_once c1 = (c', es)" "conn_id c1 = conn_id c"
        "on_close c1 = on_close c" "closed c1 = closed c" by (auto simp: closing_def)
    show ?thesis
    proof (cases "closed c")
      case True
      with c1 have "c' = c1" "es = []" by (auto simp: close_once_def)
      then show ?thesis using live_inv_update [OF inv c, of c'] run c1 by simp
    next
      case False
      with c1 id have "closed c'" "conn_id c' = conn_id c" "on_close c' = on_close c"
          "es = [OnClose (conn_id c)]" by (auto simp: close_once_def)
      then show ?thesis using live_inv_close [OF inv bound c False, of c'] run by simp
    qed
  qed
qed

text \<open>The connection that was just accepted and added.\<close>

lemma live_inv_added:
  assumes inv: "live_inv mc" and "Suc (fresh mc) < 2 ^ 64"
    and add: "cm_add (fresh mc) ((store mc)(fresh mc \<mapsto> new_connection)) (conn_mgr mc) = (id_of (fresh mc), st', m')"
  shows "live_inv (mc\<lparr>fresh := Suc (fresh mc), conn_mgr := m',
    store := st'(fresh mc := map_option (start_read True True) (st' (fresh mc)))\<rparr>)" (is "live_inv ?mc")
proof -
  let ?r = "fresh mc"
  note laws = cm_add_get [OF add]
  have old: "cm_get i (conn_mgr mc) = Some q \<longleftrightarrow> i = id_of q \<and> (\<exists>c. store mc q = Some c \<and> \<not> closed c)" for i q
    using inv by (auto simp: live_inv_def)
  have less: "q < ?r" if "store mc q = Some c" for q c
    using inv that by (auto simp: live_inv_def not_le [symmetric])
  have ids: "id_of q = id_of ?r \<longleftrightarrow> False" if "store mc q = Some c" for q c
    using id_of_inject [of q ?r] less [OF that] assms(2) by simp
  show ?thesis
    unfolding live_inv_def
  proof (intro conjI allI)
    show "cm_wf (conn_mgr ?mc)" using inv laws by (simp add: live_inv_def)
    show "next_id (conn_mgr ?mc) = id_of (fresh ?mc)" using inv laws(1,3) by (simp add: id_of_def)
    show "r \<ge> fresh ?mc \<longrightarrow> store ?mc r = None" for r using inv laws(6) by (simp add: live_inv_def)
    show "r < fresh ?mc \<longrightarrow> (\<exists>c. store ?mc r = Some c \<and> conn_id c = id_of r \<and> on_close c)" for r
      using inv laws(5,6) by (auto simp: live_inv_def start_read_def do_read_header_def new_connection_def less_Suc_eq)
    show "cm_get i (conn_mgr ?mc) = Some r \<longleftrightarrow> i = id_of r \<and> (\<exists>c. store ?mc r = Some c \<and> \<not> closed c)" for i r
    proof (cases "r = ?r")
      case True
      then show ?thesis using laws(2,5) old less by (auto simp: start_read_def do_read_header_def new_connection_def)
    next
      case False
      then have "cm_get i m' = Some r \<longleftrightarrow> i \<noteq> id_of ?r \<and> cm_get i (conn_mgr mc) = Some r" using laws(2) by auto
      also have "\<dots> \<longleftrightarrow> cm_get i (conn_mgr mc) = Some r" using old ids by metis
      finally show ?thesis using False laws(6) old by simp
    qed
  qed
qed

lemma live_inv_accept:
  assumes "live_inv mc" and bound: "fresh (accept_handler ec mc) < 2 ^ 64"
  shows "live_inv (accept_handler ec mc)"
proof (cases ec)
  case Success
  obtain st' m' where add: "cm_add (fresh mc) ((store mc)(fresh mc \<mapsto> new_connection)) (conn_mgr mc) = (id_of (fresh mc), st', m')"
    using assms(1) by (auto simp: live_inv_def cm_add_def Let_def)
  have "Suc (fresh mc) < 2 ^ 64" using bound Success add by (simp add: accept_handler_def Let_def do_accept_def split: if_splits)
  from live_inv_added [OF assms(1) this add] show ?thesis
    using Success add by (auto simp: accept_handler_def Let_def do_accept_def live_inv_def)
next
  case (Failure m)
  with assms show ?thesis by (auto simp: accept_handler_def do_accept_def live_inv_def Let_def)
qed


lemma live_inv_stop: "live_inv mc \<Longrightarrow> live_inv (mc_stop mc)"
proof -
  assume inv: "live_inv mc"
  have wf: "umap_wf (conns (conn_mgr mc))" using inv by (simp add: live_inv_def cm_wf_def)
  have mem: "(\<exists>i. (i, r) \<in> set (conns (conn_mgr mc))) \<longleftrightarrow> (\<exists>c. store mc r = Some c \<and> \<not> closed c)" for r
    using inv wf by (auto simp: live_inv_def cm_get_def umap_wf_def map_of_eq_Some_iff)
  have st: "store (mc_stop mc) r = map_option close (store mc r)" for r
    using mem [of r]
    by (cases "store mc r") (auto simp: mc_stop_def Let_def close_all_store close_def)
  have flds: "fresh (mc_stop mc) = fresh mc" "conn_mgr (mc_stop mc) = snd (close_all (store mc) (conn_mgr mc))"
    by (simp_all add: mc_stop_def Let_def)
  have nid: "next_id (snd (close_all (store mc) (conn_mgr mc))) = next_id (conn_mgr mc)"
    by (simp add: close_all_def Let_def)
  have cl: "conn_id (close c) = conn_id c" "on_close (close c) = on_close c" for c
    by (simp_all add: close_def Let_def)
  show ?thesis
    using inv by (auto simp: live_inv_def st flds nid cl)
qed

lemma fresh_foldl [simp]: "fresh (foldl close_cb mc es) = fresh mc"
proof (induction es arbitrary: mc)
  case (Cons e es)
  then show ?case by (cases e) auto
qed simp

lemma fresh_mono: "mc_step mc mc' \<Longrightarrow> fresh mc \<le> fresh mc'"
proof (induction rule: mc_step.induct)
  case (mc_accept mc ec)
  then show ?case
    by (cases ec) (auto simp: accept_handler_def do_accept_def Let_def split: prod.splits)
next
  case (mc_stop_step mc)
  then show ?case by (simp add: mc_stop_def Let_def)
qed (auto simp: run_handler_def mc_run_def run_async_def split: option.splits prod.splits if_splits)

lemma live_inv_step: "mc_step mc mc' \<Longrightarrow> live_inv mc \<Longrightarrow> fresh mc' < 2 ^ 64 \<Longrightarrow> live_inv mc'"
proof -
  assume step: "mc_step mc mc'" and inv: "live_inv mc" and bound: "fresh mc' < 2 ^ 64"
  have b: "fresh mc < 2 ^ 64" using fresh_mono [OF step] bound by simp
  from step inv bound b show ?thesis
  proof (induction rule: mc_step.induct)
    case (mc_accept mc ec)
    then show ?case by (simp add: live_inv_accept)
  next
    case (mc_header mc r c ec buf)
    then show ?case
      using header_handler_cases [of ec buf c] live_inv_handler [of mc r c "header_handler ec buf"]
      by (metis prod.collapse)
  next
    case (mc_body mc r c h ec buf)
    then show ?case
      using body_handler_cases [of h ec buf c] live_inv_handler [of mc r c "body_handler h ec buf"]
      by (metis prod.collapse)
  next
    case (mc_write mc r c ec)
    then show ?case
      using write_handler_cases [of ec c] live_inv_handler [of mc r c "write_handler ec"]
      by (metis prod.collapse)
  next
    case (mc_lock mc r c d)
    then show ?case by (intro live_inv_update [of mc r c]) (auto simp: enqueue_frame_def Let_def)
  next
    case (mc_start mc r c)
    then show ?case
      by (intro live_inv_update [of mc r c]) (auto simp: enter_do_write_def do_write_def split: list.splits)
  next
    case (mc_run_step mc)
    then show ?case by (simp add: mc_run_def live_inv_def)
  next
    case (mc_async_step mc mc')
    then show ?case by (auto simp: run_async_def live_inv_def split: if_splits)
  next
    case (mc_stop_step mc)
    then show ?case by (simp add: live_inv_stop)
  qed
qed

lemma live_inv_reach: "mc_reach mc \<Longrightarrow> fresh mc < 2 ^ 64 \<Longrightarrow> live_inv mc"
proof (induction rule: mc_reach.induct)
  case (mc_init mc)
  then show ?case by (simp add: live_inv_init)
next
  case (mc_next mc mc')
  then show ?case using fresh_mono [of mc mc'] live_inv_step [of mc mc'] by simp
qed

lemma live_count:
  assumes inv: "live_inv mc" and bound: "fresh mc < 2 ^ 64"
  shows "cm_count (conn_mgr mc) = card {r. \<exists>c. store mc r = Some c \<and> \<not> closed c}"
proof -
  let ?L = "{r. \<exists>c. store mc r = Some c \<and> \<not> closed c}"
  have less: "r < fresh mc" if "r \<in> ?L" for r
    using that inv by (auto simp: live_inv_def not_le [symmetric])
  have "{i. cm_get i (conn_mgr mc) \<noteq> None} = id_of ` ?L"
    using inv by (auto simp: live_inv_def)
  moreover have "inj_on id_of ?L"
  proof (rule inj_onI)
    fix x y assume "x \<in> ?L" "y \<in> ?L" and eq: "id_of x = id_of y"
    then have "x < 2 ^ 64 - 1" "y < 2 ^ 64 - 1" using less [of x] less [of y] bound by simp_all
    with eq id_of_inject show "x = y" by blast
  qed
  ultimately show ?thesis
    using inv by (simp add: cm_count_card live_inv_def card_image)
qed


section \<open>Properties\<close>


definition demo_mc :: MessageCycle where
  "demo_mc = accept_handler Success (accept_handler Success (mc_run (do_accept (message_cycle0\<lparr>acceptor_open := True\<rparr>))))"

lemmas demo_mc_simps = demo_mc_def accept_handler_def mc_run_def do_accept_def message_cycle0_def
  conn_manager0_def cm_add_def set_conn_id_def start_read_def do_read_header_def Let_def

lemma demo_mc_reach: "mc_reach demo_mc"
proof -
  define a where "a = do_accept (message_cycle0\<lparr>acceptor_open := True\<rparr>)"
  have a: "mc_reach a" by (rule mc_reach.mc_init) (simp add: a_def start_listen_def)
  have b: "mc_reach (mc_run a)" by (rule mc_reach.mc_next [OF a mc_step.mc_run_step])
  have c: "mc_reach (accept_handler Success (mc_run a))"
    by (rule mc_reach.mc_next [OF b mc_step.mc_accept]) (simp add: a_def mc_run_def do_accept_def)
  have d: "mc_reach (accept_handler Success (accept_handler Success (mc_run a)))"
    by (rule mc_reach.mc_next [OF c mc_step.mc_accept]) (simp add: a_def demo_mc_simps)
  then show ?thesis by (simp add: demo_mc_def a_def)
qed


text \<open>
  Stopping the event loop leaves nothing behind: the manager is empty, the acceptor is closed, and
  every connection that was open under the manager is closed together with its socket.
\<close>

theorem stop_closes_everything:
  assumes "mc_reach mc" and "fresh mc < 2 ^ 64" and "store mc r = Some c"
  shows "cm_count (conn_mgr (mc_stop mc)) = 0 \<and> \<not> acceptor_open (mc_stop mc) \<and> \<not> mc_running (mc_stop mc) \<and>
    (\<exists>c'. store (mc_stop mc) r = Some c' \<and> closed c' \<and> (closed c \<or> \<not> sock_open c'))"
proof -
  have inv: "live_inv mc" using assms(1,2) by (rule live_inv_reach)
  have wf: "umap_wf (conns (conn_mgr mc))" using inv by (simp add: live_inv_def cm_wf_def)
  have mem: "(\<exists>i. (i, r) \<in> set (conns (conn_mgr mc))) \<longleftrightarrow> \<not> closed c"
    using inv wf assms(3) by (auto simp: live_inv_def cm_get_def umap_wf_def map_of_eq_Some_iff)
  then have "store (mc_stop mc) r = Some (close c)"
    using assms(3) by (cases "closed c") (auto simp: mc_stop_def Let_def close_all_store close_def)
  then show ?thesis
    by (auto simp: mc_stop_def close_def Let_def)
qed

theorem stop_closes_everything_witness:
  "\<exists>c'. store (mc_stop demo_mc) 0 = Some c' \<and> closed c' \<and> \<not> sock_open c'"
proof -
  obtain c where c: "store demo_mc 0 = Some c" "\<not> closed c"
    by (auto simp: demo_mc_simps new_connection_def)
  have "fresh demo_mc < 2 ^ 64" by (simp add: demo_mc_simps)
  from stop_closes_everything [OF demo_mc_reach this c(1)] c(2) show ?thesis by blast
qed

end
