(* ===== verification/Service_Manager.thy ===== *)
theory Service_Manager
  imports Std_Containers
begin

text \<open>
  \<^verbatim>\<open>src/service/service_manager.h\<close> and \<^verbatim>\<open>.cpp\<close>. A service is what its virtual functions give: a name,
  the list of its methods, and \<^verbatim>\<open>handle\<close>, which may read and change the state \<open>'w\<close> of the process.
  The manager is the singleton's hash map from names to services. The locale \<open>request_dispatcher\<close> is
  the part of \<^verbatim>\<open>dispatch\<close>'s contract the server relies on.
\<close>

section \<open>Model\<close>

record 'w Service =
  svc_name :: string
  svc_methods :: "string list"
  svc_handle :: "string \<Rightarrow> string \<Rightarrow> 'w \<Rightarrow> string res \<times> 'w"

record 'w ServiceManager =
  services :: "(string, 'w Service) umap"

definition service_manager0 :: "'w ServiceManager" where
  "service_manager0 = \<lparr>services = []\<rparr>"

text \<open>A null \<^verbatim>\<open>shared_ptr\<close> is \<^const>\<open>None\<close>.\<close>

definition register_service :: "'w ServiceManager \<Rightarrow> 'w Service option \<Rightarrow> 'w ServiceManager" where
  "register_service m service =
     (case service of None \<Rightarrow> m
      | Some s \<Rightarrow> m\<lparr>services := AList.update (svc_name s) s (services m)\<rparr>)"

definition unregister_service :: "'w ServiceManager \<Rightarrow> string \<Rightarrow> 'w ServiceManager" where
  "unregister_service m nm = m\<lparr>services := AList.delete nm (services m)\<rparr>"

definition get_service :: "'w ServiceManager \<Rightarrow> string \<Rightarrow> 'w Service option" where
  "get_service m nm = map_of (services m) nm"

definition has_service :: "'w ServiceManager \<Rightarrow> string \<Rightarrow> bool" where
  "has_service m nm \<longleftrightarrow> map_of (services m) nm \<noteq> None"

definition list_services :: "'w ServiceManager \<Rightarrow> string list" where
  "list_services m = sort (map fst (services m))"

definition dispatch ::
    "'w ServiceManager \<Rightarrow> string \<Rightarrow> string \<Rightarrow> string \<Rightarrow> 'w \<Rightarrow> string res \<times> 'w" where
  "dispatch m sn mn ps w =
     (case get_service m sn of
        None \<Rightarrow> (Throw (RuntimeError (''service not found: '' @ sn)), w)
      | Some svc \<Rightarrow>
          if mn \<notin> set (svc_methods svc)
          then (Throw (RuntimeError (''method not found: '' @ sn @ ''.'' @ mn)), w)
          else svc_handle svc mn ps w)"

section \<open>Invariant\<close>

text \<open>Every service is stored under its own name, once.\<close>

definition manager_inv :: "'w ServiceManager \<Rightarrow> bool" where
  "manager_inv m \<longleftrightarrow> umap_wf (services m) \<and> (\<forall>nm s. map_of (services m) nm = Some s \<longrightarrow> svc_name s = nm)"

lemma manager_inv0 [simp]: "manager_inv service_manager0"
  by (simp add: manager_inv_def service_manager0_def)

lemma register_service_inv: "manager_inv m \<Longrightarrow> manager_inv (register_service m s)"
  by (auto simp: manager_inv_def register_service_def um.wf_assign um.find_assign split: option.splits)

lemma unregister_service_inv: "manager_inv m \<Longrightarrow> manager_inv (unregister_service m nm)"
  by (auto simp: manager_inv_def unregister_service_def um.wf_erase um.find_erase)

lemma get_register [simp]: "get_service (register_service m (Some s)) = (get_service m)(svc_name s \<mapsto> s)"
  by (auto simp: get_service_def register_service_def um.find_assign)

lemma get_unregister [simp]:
  "manager_inv m \<Longrightarrow> get_service (unregister_service m nm) = (get_service m)(nm := None)"
  by (auto simp: get_service_def unregister_service_def um.find_erase manager_inv_def)

lemma get_service_fun: "get_service m = map_of (services m)"
  by (rule ext) (simp add: get_service_def)

lemma has_service_iff: "has_service m nm \<longleftrightarrow> nm \<in> dom (get_service m)"
  by (auto simp: has_service_def get_service_def)

lemma list_services_eq: "manager_inv m \<Longrightarrow> list_services m = sorted_list_of_set (dom (get_service m))"
  using um.distinct_keys [of "services m"] um.set_keys [of "services m"]
  unfolding list_services_def get_service_def manager_inv_def
  by (metis sorted_list_of_set_sort_remdups distinct_remdups_id)

section \<open>The histories of the singleton\<close>

datatype 'w mgr_op = Register "'w Service option" | Unregister string

fun mgr_step :: "'w ServiceManager \<Rightarrow> 'w mgr_op \<Rightarrow> 'w ServiceManager" where
  "mgr_step m (Register s) = register_service m s"
| "mgr_step m (Unregister nm) = unregister_service m nm"

definition mgr_run :: "'w mgr_op list \<Rightarrow> 'w ServiceManager" where
  "mgr_run ops = foldl mgr_step service_manager0 ops"

lemma mgr_run_inv: "manager_inv (mgr_run ops)"
proof -
  have "manager_inv m \<Longrightarrow> manager_inv (foldl mgr_step m ops)" for m
  proof (induction ops arbitrary: m)
    case (Cons a ops)
    then show ?case by (cases a) (auto simp: register_service_inv unregister_service_inv)
  qed simp
  then show ?thesis by (simp add: mgr_run_def)
qed

text \<open>The service a history leaves under a name: the last registration not followed by a removal.\<close>

fun latest :: "'w mgr_op list \<Rightarrow> string \<Rightarrow> 'w Service option" where
  "latest [] nm = None"
| "latest (Register None # ops) nm = latest ops nm"
| "latest (Register (Some s) # ops) nm = (if svc_name s = nm then Some s else latest ops nm)"
| "latest (Unregister k # ops) nm = (if k = nm then None else latest ops nm)"

lemma mgr_run_snoc: "mgr_run (ops @ [a]) = mgr_step (mgr_run ops) a"
  by (simp add: mgr_run_def)

lemma get_mgr_run: "get_service (mgr_run ops) nm = latest (rev ops) nm"
proof (induction ops rule: rev_induct)
  case Nil
  then show ?case by (simp add: mgr_run_def get_service_def service_manager0_def)
next
  case (snoc a ops)
  show ?case
  proof (cases a)
    case (Register s)
    with snoc show ?thesis
      by (cases s) (simp_all add: mgr_run_snoc, simp add: register_service_def)
  next
    case (Unregister k)
    with snoc show ?thesis by (simp add: mgr_run_snoc mgr_run_inv)
  qed
qed

section \<open>The dispatcher contract\<close>

locale request_dispatcher =
  fixes disp :: "string \<Rightarrow> string \<Rightarrow> string \<Rightarrow> 'w \<Rightarrow> string res \<times> 'w"
    and methods_of :: "string \<Rightarrow> string list option"
  assumes unknown_service:
      "methods_of sn = None \<Longrightarrow> disp sn mn ps w = (Throw (RuntimeError (''service not found: '' @ sn)), w)"
    and unknown_method:
      "methods_of sn = Some ms \<Longrightarrow> mn \<notin> set ms \<Longrightarrow>
       disp sn mn ps w = (Throw (RuntimeError (''method not found: '' @ sn @ ''.'' @ mn)), w)"
begin

lemma rejected_frame:
  assumes "case methods_of sn of None \<Rightarrow> True | Some ms \<Rightarrow> mn \<notin> set ms"
  shows "\<exists>msg. disp sn mn ps w = (Throw (RuntimeError msg), w)"
  using assms unknown_service unknown_method by (auto split: option.splits)

lemma answered_only_if_known:
  assumes "fst (disp sn mn ps w) = Ret out"
  shows "\<exists>ms. methods_of sn = Some ms \<and> mn \<in> set ms"
proof (cases "methods_of sn")
  case None
  with assms unknown_service [of sn mn ps w] show ?thesis by simp
next
  case (Some ms)
  with assms unknown_method [of sn ms mn ps w] show ?thesis by (cases "mn \<in> set ms") simp_all
qed

end

interpretation mgr: request_dispatcher "dispatch m" "\<lambda>sn. map_option svc_methods (get_service m sn)" for m
  by unfold_locales (auto simp: dispatch_def split: option.splits)

section \<open>Properties\<close>

text \<open>
  C25: after any sequence of registrations (null ones included) and removals, a name resolves to the
  service registered last under it and not removed since, and \<^verbatim>\<open>list_services\<close> is the sorted,
  duplicate-free list of exactly the names that resolve.
\<close>

theorem service_manager_history:
  "get_service (mgr_run ops) nm = latest (rev ops) nm \<and>
   list_services (mgr_run ops) = sorted_list_of_set {k. latest (rev ops) k \<noteq> None} \<and>
   (nm \<in> set (list_services (mgr_run ops)) \<longleftrightarrow> has_service (mgr_run ops) nm)"
proof -
  have dom: "dom (get_service (mgr_run ops)) = {k. latest (rev ops) k \<noteq> None}"
    by (auto simp: get_mgr_run)
  have "set (list_services (mgr_run ops)) = dom (get_service (mgr_run ops))"
    using um.set_keys [of "services (mgr_run ops)"] by (simp add: list_services_def get_service_fun)
  then show ?thesis
    using list_services_eq [OF mgr_run_inv, of ops]
    by (simp add: get_mgr_run has_service_iff dom)
qed

end
