(* ===== verification/Error_Code.thy ===== *)
theory Error_Code
  imports Rpc_Prelude
begin

text \<open>
  \<^verbatim>\<open>src/core/error_code.h\<close>: the framework's error codes, an enumeration over \<^verbatim>\<open>int32_t\<close>, and their
  descriptions. A code travels in \<^verbatim>\<open>RpcResponse::error_code\<close> as its two's complement word.
\<close>

datatype ErrorCode = OK | SERVICE_NOT_FOUND | METHOD_NOT_FOUND | TIMEOUT | SERIALIZE_ERROR
  | DESERIALIZE_ERROR | COMPRESS_ERROR | DECOMPRESS_ERROR | ENCRYPT_ERROR | DECRYPT_ERROR
  | CONNECTION_CLOSED | CONNECTION_REFUSED | INTERNAL_ERROR

fun error_code_value :: "ErrorCode \<Rightarrow> i32" where
  "error_code_value OK = 0"
| "error_code_value SERVICE_NOT_FOUND = -1"
| "error_code_value METHOD_NOT_FOUND = -2"
| "error_code_value TIMEOUT = -3"
| "error_code_value SERIALIZE_ERROR = -4"
| "error_code_value DESERIALIZE_ERROR = -5"
| "error_code_value COMPRESS_ERROR = -6"
| "error_code_value DECOMPRESS_ERROR = -7"
| "error_code_value ENCRYPT_ERROR = -8"
| "error_code_value DECRYPT_ERROR = -9"
| "error_code_value CONNECTION_CLOSED = -10"
| "error_code_value CONNECTION_REFUSED = -11"
| "error_code_value INTERNAL_ERROR = -99"

text \<open>
  The argument is any value of the underlying type, since a cast can put one into the enumeration;
  the last branch is the \<^verbatim>\<open>default\<close> of the \<^verbatim>\<open>switch\<close>.
\<close>

definition error_code_str :: "i32 \<Rightarrow> string" where
  "error_code_str ec =
     (if ec = error_code_value OK then ''OK''
      else if ec = error_code_value SERVICE_NOT_FOUND then ''service not found''
      else if ec = error_code_value METHOD_NOT_FOUND then ''method not found''
      else if ec = error_code_value TIMEOUT then ''timeout''
      else if ec = error_code_value SERIALIZE_ERROR then ''serialize error''
      else if ec = error_code_value DESERIALIZE_ERROR then ''deserialize error''
      else if ec = error_code_value COMPRESS_ERROR then ''compress error''
      else if ec = error_code_value DECOMPRESS_ERROR then ''decompress error''
      else if ec = error_code_value ENCRYPT_ERROR then ''encrypt error''
      else if ec = error_code_value DECRYPT_ERROR then ''decrypt error''
      else if ec = error_code_value CONNECTION_CLOSED then ''connection closed''
      else if ec = error_code_value CONNECTION_REFUSED then ''connection refused''
      else if ec = error_code_value INTERNAL_ERROR then ''internal error''
      else ''unknown error'')"

lemma error_code_value_inject: "error_code_value a = error_code_value b \<Longrightarrow> a = b"
  by (cases a; cases b) simp_all

lemma error_code_value_eq_0 [simp]: "error_code_value e = 0 \<longleftrightarrow> e = OK"
  by (cases e) simp_all

lemma error_code_negative: "e \<noteq> OK \<Longrightarrow> -99 \<le> sint (error_code_value e) \<and> sint (error_code_value e) < 0"
  by (cases e) simp_all

lemma error_code_str_known: "error_code_str (error_code_value e) \<noteq> ''unknown error''"
  by (cases e) (simp_all add: error_code_str_def)

lemma error_code_str_inject:
  "error_code_str (error_code_value a) = error_code_str (error_code_value b) \<Longrightarrow> a = b"
  by (cases a; cases b) (simp_all add: error_code_str_def)

end
