(* ===== verification/Thread_Pool.thy ===== *)
theory Thread_Pool
  imports Rpc_Prelude "HOL-Library.Multiset"
begin

text \<open>
  \<^verbatim>\<open>src/thread_pool/thread_pool.h\<close>, \<^verbatim>\<open>thread_pool.cpp\<close> and \<^verbatim>\<open>thread_pool_singleton.cpp\<close>. Each worker of the
  pool is at one of the points of \<^verbatim>\<open>worker_loop\<close> between which other threads can run: waiting on the
  condition variable, holding a task it has popped, inside the task, and after each of the three counter
  updates that follow it. A step executes one critical section or one atomic update. A task is a
  \<^verbatim>\<open>packaged_task\<close>, which keeps its exceptions, so running one is recording it. The counters are integers:
  the invariant shows that none of them leaves the range of \<^verbatim>\<open>size_t\<close>.
\<close>

section \<open>Model\<close>

datatype 't worker = Waiting | Popped 't | Entered 't | Returned | Uncounted | Counted | Exited

record 't ThreadPool =
  workers :: "'t worker list"
  tasks :: "'t list"
  stopped :: bool
  pending_count :: int
  active_tasks :: int
  completed :: int
  accepted :: "'t list"
  executed :: "'t list"

text \<open>
  \<open>accepted\<close> and \<open>executed\<close> record the tasks whose \<^verbatim>\<open>enqueue\<close> succeeded and those that were executed, in order.
  The constructor: \<open>hw\<close> is what \<^verbatim>\<open>std::thread::hardware_concurrency()\<close> returns.
\<close>

definition thread_count :: "nat \<Rightarrow> nat \<Rightarrow> nat" where
  "thread_count num_threads hw =
     (let n = (if num_threads \<noteq> 0 then num_threads else hw) in if n = 0 then 4 else n)"

definition new_pool :: "nat \<Rightarrow> nat \<Rightarrow> 't ThreadPool" where
  "new_pool num_threads hw =
     \<lparr>workers = replicate (thread_count num_threads hw) Waiting, tasks = [], stopped = False,
      pending_count = 0, active_tasks = 0, completed = 0, accepted = [], executed = []\<rparr>"

definition enqueue :: "'t \<Rightarrow> 't ThreadPool \<Rightarrow> 't ThreadPool res" where
  "enqueue t p =
     (if stopped p then Throw (RuntimeError ''ThreadPool: enqueue on stopped pool'')
      else Ret (p\<lparr>tasks := tasks p @ [t], pending_count := pending_count p + 1,
                  accepted := accepted p @ [t]\<rparr>))"

definition set_worker :: "nat \<Rightarrow> 't worker \<Rightarrow> 't ThreadPool \<Rightarrow> 't ThreadPool" where
  "set_worker i w p = p\<lparr>workers := (workers p)[i := w]\<rparr>"

text \<open>The next statement of worker \<open>i\<close>; \<^const>\<open>None\<close> while it is blocked, has returned or does not exist.\<close>

definition worker_loop :: "nat \<Rightarrow> 't ThreadPool \<Rightarrow> 't ThreadPool option" where
  "worker_loop i p =
     (if i \<ge> length (workers p) then None else
      case workers p ! i of
        Waiting \<Rightarrow>
          if \<not> (stopped p \<or> tasks p \<noteq> []) then None
          else (case tasks p of
                  [] \<Rightarrow> Some (set_worker i Exited p)
                | t # ts \<Rightarrow> Some (set_worker i (Popped t) (p\<lparr>tasks := ts\<rparr>)))
      | Popped t \<Rightarrow> Some (set_worker i (Entered t) (p\<lparr>active_tasks := active_tasks p + 1\<rparr>))
      | Entered t \<Rightarrow> Some (set_worker i Returned (p\<lparr>executed := executed p @ [t]\<rparr>))
      | Returned \<Rightarrow> Some (set_worker i Uncounted (p\<lparr>active_tasks := active_tasks p - 1\<rparr>))
      | Uncounted \<Rightarrow> Some (set_worker i Counted (p\<lparr>completed := completed p + 1\<rparr>))
      | Counted \<Rightarrow> Some (set_worker i Waiting (p\<lparr>pending_count := pending_count p - 1\<rparr>))
      | Exited \<Rightarrow> None)"

text \<open>What the predicate of \<^verbatim>\<open>drain\<close> tests; \<^verbatim>\<open>drain\<close> returns in a state where it holds.\<close>

definition drain_ready :: "'t ThreadPool \<Rightarrow> bool" where
  "drain_ready p \<longleftrightarrow> tasks p = [] \<and> active_tasks p = 0"

text \<open>The destructor sets the flag, wakes the workers and joins them.\<close>

definition request_stop :: "'t ThreadPool \<Rightarrow> 't ThreadPool" where
  "request_stop p = p\<lparr>stopped := True\<rparr>"

definition joined :: "'t ThreadPool \<Rightarrow> bool" where
  "joined p \<longleftrightarrow> list_all (\<lambda>w. w = Exited) (workers p)"

inductive pool_step :: "'t ThreadPool \<Rightarrow> 't ThreadPool \<Rightarrow> bool" where
  pool_enqueue: "enqueue t p = Ret p' \<Longrightarrow> pool_step p p'"
| pool_worker: "worker_loop i p = Some p' \<Longrightarrow> pool_step p p'"
| pool_stop: "pool_step p (request_stop p)"

inductive pool_reach :: "nat \<Rightarrow> nat \<Rightarrow> 't ThreadPool \<Rightarrow> bool" for n hw where
  pool_start: "pool_reach n hw (new_pool n hw)"
| pool_next: "pool_reach n hw p \<Longrightarrow> pool_step p p' \<Longrightarrow> pool_reach n hw p'"

section \<open>The singleton\<close>

text \<open>
  \<^verbatim>\<open>ThreadPoolSingleton\<close>: the \<^verbatim>\<open>std::once_flag\<close> is used up by the first \<^verbatim>\<open>init\<close> and never rearmed. Dereferencing
  the empty \<^verbatim>\<open>unique_ptr\<close> is undefined.
\<close>

record 't PoolSingleton =
  pool_ptr :: "'t ThreadPool option"
  init_done :: bool

definition singleton0 :: "'t PoolSingleton" where
  "singleton0 = \<lparr>pool_ptr = None, init_done = False\<rparr>"

definition singleton_init :: "nat \<Rightarrow> nat \<Rightarrow> 't PoolSingleton \<Rightarrow> 't PoolSingleton" where
  "singleton_init n hw s =
     (if init_done s then s else \<lparr>pool_ptr = Some (new_pool n hw), init_done = True\<rparr>)"

definition singleton_instance :: "nat \<Rightarrow> 't PoolSingleton \<Rightarrow> ('t ThreadPool \<times> 't PoolSingleton) res" where
  "singleton_instance hw s =
     (let s = singleton_init 0 hw s
      in case pool_ptr s of None \<Rightarrow> UB | Some p \<Rightarrow> Ret (p, s))"

definition singleton_shutdown :: "'t PoolSingleton \<Rightarrow> 't PoolSingleton" where
  "singleton_shutdown s = s\<lparr>pool_ptr := None\<rparr>"

section \<open>Invariant\<close>

lemma sum_list_update:
  fixes f :: "'w \<Rightarrow> 'm::comm_monoid_add"
  shows "i < length xs \<Longrightarrow> sum_list (map f (xs[i := y])) + f (xs ! i) = sum_list (map f xs) + f y"
proof (induction xs arbitrary: i)
  case (Cons x xs)
  show ?case
  proof (cases i)
    case 0
    then show ?thesis by (simp add: ac_simps)
  next
    case (Suc j)
    with Cons have "sum_list (map f (xs[j := y])) + f (xs ! j) = sum_list (map f xs) + f y" by simp
    then show ?thesis using Suc by (simp add: add.assoc)
  qed
qed simp

text \<open>What each point of the loop owes: a task in hand, a unit of each counter.\<close>

fun in_hand :: "'t worker \<Rightarrow> 't multiset" where
  "in_hand (Popped t) = {#t#}"
| "in_hand (Entered t) = {#t#}"
| "in_hand _ = {#}"

fun owes_active :: "'t worker \<Rightarrow> int" where
  "owes_active (Entered t) = 1"
| "owes_active Returned = 1"
| "owes_active _ = 0"

fun owes_completed :: "'t worker \<Rightarrow> int" where
  "owes_completed Returned = 1"
| "owes_completed Uncounted = 1"
| "owes_completed _ = 0"

fun owes_pending :: "'t worker \<Rightarrow> int" where
  "owes_pending Waiting = 0"
| "owes_pending Exited = 0"
| "owes_pending _ = 1"

definition pool_inv :: "'t ThreadPool \<Rightarrow> bool" where
  "pool_inv p \<longleftrightarrow>
     active_tasks p = sum_list (map owes_active (workers p)) \<and>
     completed p + sum_list (map owes_completed (workers p)) = int (length (executed p)) \<and>
     pending_count p = int (length (tasks p)) + sum_list (map owes_pending (workers p)) \<and>
     mset (accepted p) = mset (executed p) + sum_list (map in_hand (workers p)) + mset (tasks p) \<and>
     (\<exists>taken. accepted p = taken @ tasks p) \<and>
     (Exited \<in> set (workers p) \<longrightarrow> stopped p \<and> tasks p = [])"

lemma sum_list_replicate_empty: "sum_list (replicate n {#}) = {#}"
  by (induction n) simp_all

lemma pool_inv_new: "pool_inv (new_pool n hw)"
  by (simp add: pool_inv_def new_pool_def map_replicate sum_list_replicate sum_list_replicate_empty)

lemma pool_inv_enqueue: "enqueue t p = Ret p' \<Longrightarrow> pool_inv p \<Longrightarrow> pool_inv p'"
  by (auto simp: enqueue_def pool_inv_def split: if_splits)

lemma pool_inv_worker:
  assumes "worker_loop i p = Some p'" and inv: "pool_inv p"
  shows "pool_inv p'"
proof -
  have i: "i < length (workers p)" using assms(1) by (auto simp: worker_loop_def split: if_splits)
  note upd = sum_list_update [OF i]
  have ex: "Exited \<in> set ((workers p)[i := w]) \<Longrightarrow> w = Exited \<or> Exited \<in> set (workers p)" for w
    using set_update_subset_insert [of "workers p" i w] by auto
  have ints: "sum_list (map f ((workers p)[i := w])) = sum_list (map f (workers p)) + f w - f (workers p ! i)"
    for f :: "'a worker \<Rightarrow> int" and w
    using upd [of f w] by simp
  have hand: "sum_list (map in_hand ((workers p)[i := w])) + in_hand (workers p ! i) =
      sum_list (map in_hand (workers p)) + in_hand w" for w
    using upd [of in_hand w] by simp
  show ?thesis
  proof (cases "workers p ! i")
    case Waiting
    with assms hand show ?thesis
      by (auto simp: ints worker_loop_def pool_inv_def set_worker_def split: if_splits list.splits dest: ex)
  next
    case (Popped t)
    then have "sum_list (map in_hand ((workers p)[i := Entered t])) = sum_list (map in_hand (workers p))"
      using hand [of "Entered t"] by simp
    with Popped assms show ?thesis
      by (auto simp: ints worker_loop_def pool_inv_def set_worker_def split: if_splits dest: ex)
  qed (use assms hand in \<open>auto simp: ints worker_loop_def pool_inv_def set_worker_def split: if_splits dest: ex\<close>)
qed

lemma pool_inv_step: "pool_step p p' \<Longrightarrow> pool_inv p \<Longrightarrow> pool_inv p'"
proof (induction rule: pool_step.induct)
  case (pool_stop p)
  then show ?case by (auto simp: pool_inv_def request_stop_def)
qed (auto intro: pool_inv_enqueue pool_inv_worker)

lemma pool_inv_reach: "pool_reach n hw p \<Longrightarrow> pool_inv p"
  by (induction rule: pool_reach.induct) (auto intro: pool_inv_new pool_inv_step)

section \<open>Shutdown\<close>

text \<open>
  How many statements the workers still have to execute: seven for a task in the queue, what is left of
  the round for a worker inside it, and the exit.
\<close>

fun steps_left :: "'t worker \<Rightarrow> nat" where
  "steps_left Waiting = 1"
| "steps_left (Popped t) = 6"
| "steps_left (Entered t) = 5"
| "steps_left Returned = 4"
| "steps_left Uncounted = 3"
| "steps_left Counted = 2"
| "steps_left Exited = 0"

definition work_left :: "'t ThreadPool \<Rightarrow> nat" where
  "work_left p = 7 * length (tasks p) + sum_list (map steps_left (workers p))"

lemma work_left_decreases:
  assumes "worker_loop i p = Some p'"
  shows "work_left p' < work_left p"
proof -
  have i: "i < length (workers p)" using assms by (auto simp: worker_loop_def split: if_splits)
  have upd: "sum_list (map steps_left ((workers p)[i := w])) + steps_left (workers p ! i) =
      sum_list (map steps_left (workers p)) + steps_left w" for w
    using sum_list_update [OF i] .
  show ?thesis
  proof (cases "workers p ! i")
    case Waiting
    with assms i upd [of Exited] upd [of "Popped (hd (tasks p))"] show ?thesis
      by (auto simp: worker_loop_def work_left_def set_worker_def split: if_splits list.splits)
  next
    case (Popped t)
    with assms i upd [of "Entered t"] show ?thesis
      by (auto simp: worker_loop_def work_left_def set_worker_def)
  next
    case (Entered t)
    with assms i upd [of Returned] show ?thesis
      by (auto simp: worker_loop_def work_left_def set_worker_def)
  next
    case Returned
    with assms i upd [of Uncounted] show ?thesis
      by (auto simp: worker_loop_def work_left_def set_worker_def)
  next
    case Uncounted
    with assms i upd [of Counted] show ?thesis
      by (auto simp: worker_loop_def work_left_def set_worker_def)
  next
    case Counted
    with assms i upd [of Waiting] show ?thesis
      by (auto simp: worker_loop_def work_left_def set_worker_def)
  qed (use assms i in \<open>auto simp: worker_loop_def\<close>)
qed

lemma stopped_progress:
  assumes "stopped p" and "\<not> joined p"
  shows "\<exists>i p'. worker_loop i p = Some p'"
proof -
  from assms(2) obtain i where i: "i < length (workers p)" "workers p ! i \<noteq> Exited"
    by (auto simp: joined_def list_all_length)
  then show ?thesis
    using assms(1)
    by (intro exI [of _ i]) (cases "workers p ! i"; auto simp: worker_loop_def split: list.splits)
qed

lemma worker_loop_frame:
  "worker_loop i p = Some p' \<Longrightarrow> stopped p' = stopped p \<and> accepted p' = accepted p"
  by (cases "workers p ! i")
    (auto simp: worker_loop_def set_worker_def split: if_splits list.splits)

text \<open>The workers running alone after the destructor's request, scheduled in any way, for \<open>k\<close> statements.\<close>

inductive runs_for :: "nat \<Rightarrow> 't ThreadPool \<Rightarrow> 't ThreadPool \<Rightarrow> bool" where
  runs_here: "runs_for 0 p p"
| runs_more: "worker_loop i p = Some p' \<Longrightarrow> runs_for k p' q \<Longrightarrow> runs_for (Suc k) p q"

lemma runs_for_reach: "runs_for k p q \<Longrightarrow> pool_reach n hw p \<Longrightarrow> pool_reach n hw q"
  by (induction rule: runs_for.induct) (auto intro: pool_next pool_worker)

lemma runs_for_frame: "runs_for k p q \<Longrightarrow> stopped q = stopped p \<and> accepted q = accepted p"
  by (induction rule: runs_for.induct) (auto dest: worker_loop_frame)

lemma runs_for_bounded: "runs_for k p q \<Longrightarrow> k + work_left q \<le> work_left p"
  by (induction rule: runs_for.induct) (auto dest: work_left_decreases)

lemma runs_for_join: "stopped p \<Longrightarrow> \<exists>k q. runs_for k p q \<and> joined q"
proof (induction "work_left p" arbitrary: p rule: less_induct)
  case less
  show ?case
  proof (cases "joined p")
    case True
    then show ?thesis by (auto intro: runs_here)
  next
    case False
    then obtain i p' where s: "worker_loop i p = Some p'" using stopped_progress less.prems by blast
    then obtain k q where "runs_for k p' q" "joined q"
      using less.hyps [of p'] less.prems work_left_decreases [OF s] worker_loop_frame [OF s] by auto
    with s show ?thesis by (auto intro: runs_more)
  qed
qed

lemma exited_sums:
  assumes "list_all (\<lambda>w. w = Exited) ws"
  shows "sum_list (map owes_active ws) = 0" "sum_list (map owes_completed ws) = 0"
    "sum_list (map owes_pending ws) = 0" "sum_list (map in_hand ws) = {#}"
  using assms by (induction ws) simp_all

lemma length_workers: "pool_reach n hw p \<Longrightarrow> length (workers p) = thread_count n hw"
proof (induction rule: pool_reach.induct)
  case pool_start
  then show ?case by (simp add: new_pool_def)
next
  case (pool_next p p')
  from pool_next.hyps(2) have "length (workers p') = length (workers p)"
    by (induction rule: pool_step.induct)
      (auto simp: enqueue_def request_stop_def worker_loop_def set_worker_def
        split: if_splits worker.splits list.splits)
  with pool_next.IH show ?case by simp
qed

lemma thread_count_pos: "thread_count n hw \<noteq> 0"
  by (simp add: thread_count_def Let_def)

lemma workers_nonempty: "pool_reach n hw p \<Longrightarrow> workers p \<noteq> []"
  using length_workers [of n hw p] thread_count_pos [of n hw] by auto


lemma joined_done:
  assumes inv: "pool_inv p" and "joined p" and ne: "workers p \<noteq> []"
  shows "tasks p = [] \<and> mset (executed p) = mset (accepted p) \<and> completed p = int (length (accepted p)) \<and>
    pending_count p = 0 \<and> active_tasks p = 0"
proof -
  have "Exited \<in> set (workers p)"
    using assms by (cases "workers p") (auto simp: joined_def)
  with inv have "tasks p = []" by (simp add: pool_inv_def)
  moreover note exited_sums [OF assms(2) [unfolded joined_def]]
  ultimately have m: "mset (executed p) = mset (accepted p)" using inv by (simp add: pool_inv_def)
  then have "length (executed p) = length (accepted p)" by (rule mset_eq_length)
  with \<open>tasks p = []\<close> m exited_sums [OF assms(2) [unfolded joined_def]] inv show ?thesis
    by (simp add: pool_inv_def)
qed

section \<open>Properties\<close>

lemma sum_owes_bounds:
  "0 \<le> sum_list (map owes_active ws)" "sum_list (map owes_active ws) \<le> int (length ws)"
  "0 \<le> sum_list (map owes_pending ws)" "sum_list (map owes_pending ws) \<le> int (length ws)"
  "0 \<le> sum_list (map owes_completed ws)"
proof (induction ws)
  case (Cons w ws)
  {
    case 1 then show ?case using Cons by (cases w) auto
  next
    case 2 then show ?case using Cons by (cases w) auto
  next
    case 3 then show ?case using Cons by (cases w) auto
  next
    case 4 then show ?case using Cons by (cases w) auto
  next
    case 5 then show ?case using Cons by (cases w) auto
  }
qed simp_all

lemma owes_in_hand:
  "sum_list (map owes_active ws) \<le> sum_list (map owes_pending ws)"
  by (induction ws) (auto, rename_tac w ws, case_tac w, auto)

lemma quiet_in_hand:
  "sum_list (map owes_active ws) = 0 \<Longrightarrow>
   sum_list (map in_hand ws) = {#} \<longleftrightarrow> (\<forall>t. Popped t \<notin> set ws)"
proof (induction ws)
  case (Cons w ws)
  then have "sum_list (map owes_active ws) = 0 \<and> owes_active w = 0"
    using sum_owes_bounds(1) [of ws] by (cases w) auto
  with Cons show ?case by (cases w) auto
qed simp


text \<open>
  C21: when the destructor has joined the workers, every task whose \<^verbatim>\<open>enqueue\<close> succeeded has been
  executed exactly once, none is left in the queue, and the three counters agree with that.
\<close>

theorem pool_runs_every_task_once:
  assumes "pool_reach n hw p" and "joined p"
  shows "mset (executed p) = mset (accepted p) \<and> tasks p = [] \<and>
    completed p = int (length (accepted p)) \<and> pending_count p = 0 \<and> active_tasks p = 0"
  using joined_done [OF pool_inv_reach [OF assms(1)] assms(2) workers_nonempty [OF assms(1)]] by blast


text \<open>
  C23: bounds. In every reachable state the number of tasks inside \<^verbatim>\<open>task()\<close> is between zero and the number of
  workers, \<^verbatim>\<open>pending_count_\<close> is the queue length plus at most one task per worker and never smaller than the
  number of running tasks, and \<^verbatim>\<open>completed_\<close> never exceeds what has been executed: none of the unsigned
  counters is ever decremented below zero.
\<close>

theorem pool_counters_bounded:
  assumes "pool_reach n hw p"
  shows "0 \<le> active_tasks p \<and> active_tasks p \<le> int (thread_count n hw) \<and>
    int (length (tasks p)) + active_tasks p \<le> pending_count p \<and>
    pending_count p \<le> int (length (tasks p)) + int (thread_count n hw) \<and>
    completed p \<le> int (length (executed p)) \<and> length (executed p) \<le> length (accepted p)"
proof -
  have inv: "pool_inv p" using assms by (rule pool_inv_reach)
  have "size (mset (executed p)) \<le> size (mset (accepted p))"
    using inv by (simp add: pool_inv_def del: size_mset)
  then show ?thesis
    using inv sum_owes_bounds [of "workers p"] owes_in_hand [of "workers p"] length_workers [OF assms]
    by (simp add: pool_inv_def)
qed

text \<open>
  C24: what the return of \<^verbatim>\<open>drain\<close> means. When its predicate holds, every accepted task has been executed
  exactly when no worker stands between popping a task and the increment of \<^verbatim>\<open>active_tasks_\<close>.
\<close>

theorem drain_complete_iff:
  assumes "pool_reach n hw p" and "drain_ready p"
  shows "mset (executed p) = mset (accepted p) \<longleftrightarrow> (\<forall>t. Popped t \<notin> set (workers p))"
proof -
  have "pool_inv p" using assms(1) by (rule pool_inv_reach)
  then show ?thesis
    using assms(2) quiet_in_hand [of "workers p"] by (auto simp: pool_inv_def drain_ready_def)
qed

section \<open>Witnesses\<close>

fun schedule :: "nat list \<Rightarrow> 't ThreadPool \<Rightarrow> 't ThreadPool option" where
  "schedule [] p = Some p"
| "schedule (i # is) p = (case worker_loop i p of None \<Rightarrow> None | Some q \<Rightarrow> schedule is q)"

lemma schedule_reach: "schedule is p = Some q \<Longrightarrow> pool_reach n hw p \<Longrightarrow> pool_reach n hw q"
  by (induction "is" p rule: schedule.induct) (auto split: option.splits intro: pool_next pool_worker)

lemma enqueue_reach: "pool_reach n hw p \<Longrightarrow> enqueue t p = Ret q \<Longrightarrow> pool_reach n hw q"
  by (blast intro: pool_next pool_enqueue)

lemma stop_reach: "pool_reach n hw p \<Longrightarrow> pool_reach n hw (request_stop p)"
  by (blast intro: pool_next pool_stop)

definition one_task :: "nat ThreadPool" where
  "one_task = \<lparr>workers = [Waiting], tasks = [7], stopped = False, pending_count = 1, active_tasks = 0,
     completed = 0, accepted = [7], executed = []\<rparr>"

lemma one_task_reach: "pool_reach 1 0 one_task"
  by (rule enqueue_reach [OF pool_start, of 7])
    (simp add: one_task_def new_pool_def enqueue_def thread_count_def)

lemmas pool_eval = worker_loop_def set_worker_def request_stop_def one_task_def

definition one_task_done :: "nat ThreadPool" where
  "one_task_done = \<lparr>workers = [Exited], tasks = [], stopped = True, pending_count = 0, active_tasks = 0,
     completed = 1, accepted = [7], executed = [7]\<rparr>"

lemma one_task_done_reach: "pool_reach 1 0 one_task_done"
  by (rule schedule_reach [OF _ stop_reach [OF one_task_reach], of "replicate 7 0"])
    (simp add: pool_eval one_task_done_def numeral_eq_Suc)

definition one_task_popped :: "nat ThreadPool" where
  "one_task_popped = one_task\<lparr>workers := [Popped 7], tasks := []\<rparr>"

lemma one_task_popped_reach: "pool_reach 1 0 one_task_popped"
  by (rule schedule_reach [OF _ one_task_reach, of "[0]"])
    (simp add: pool_eval one_task_popped_def)

theorem pool_runs_every_task_once_witness:
  "pool_reach 1 0 one_task_done \<and> joined one_task_done \<and>
   mset (executed one_task_done) = mset (accepted one_task_done)"
  using pool_runs_every_task_once [OF one_task_done_reach] one_task_done_reach
  by (simp add: joined_def one_task_done_def)


theorem pool_counters_bounded_witness:
  "pool_reach 1 0 one_task_popped \<and> pending_count one_task_popped \<le> 1"
  using pool_counters_bounded [OF one_task_popped_reach] one_task_popped_reach
  by (simp add: one_task_popped_def one_task_def)

theorem drain_complete_iff_witness:
  "pool_reach 1 0 one_task_popped \<and> drain_ready one_task_popped \<and>
   mset (executed one_task_popped) \<noteq> mset (accepted one_task_popped)"
  using drain_complete_iff [OF one_task_popped_reach] one_task_popped_reach
  by (simp add: drain_ready_def one_task_popped_def one_task_def)

text \<open>
  The singleton. \<^verbatim>\<open>instance()\<close> creates the pool on first use and later calls return that pool, whatever
  size they ask for; after \<^verbatim>\<open>shutdown()\<close> the once-flag stays used up, so \<^verbatim>\<open>instance()\<close> dereferences an empty
  pointer.
\<close>

theorem singleton_lifecycle:
  "singleton_instance hw singleton0 = Ret (new_pool 0 hw, singleton_init 0 hw singleton0) \<and>
   singleton_instance hw' (singleton_init m hw'' (singleton_init n hw singleton0)) =
     Ret (new_pool n hw, singleton_init n hw singleton0) \<and>
   singleton_instance hw' (singleton_init m hw'' (singleton_shutdown (singleton_init n hw singleton0))) = UB"
  by (simp add: singleton_instance_def singleton_init_def singleton0_def singleton_shutdown_def Let_def)


end
