(* ===== verification/Rpc_Server.thy ===== *)
theory Rpc_Server
  imports Message_Cycle Service_Manager Error_Code Thread_Pool
begin

text \<open>
  \<^verbatim>\<open>src/core/rpc_service.h\<close> and \<^verbatim>\<open>rpc_service.cpp\<close>: the server that puts the message cycle, the service manager
  and the thread pool together, and the built-in \<^verbatim>\<open>PingService\<close> of \<^verbatim>\<open>src/server_main.cpp\<close>. The state a service's
  \<^verbatim>\<open>handle\<close> may read and change is the server's record and whatever an application adds to it (the
  record's extension). A task of the pool is a request and the reference of its connection.
\<close>

section \<open>State\<close>

type_synonym job = "RpcHeader \<times> string \<times> nat"

record RpcServer =
  cycle :: MessageCycle
  thread_pool :: "job ThreadPool option"
  running :: bool

type_synonym 'a manager = "'a RpcServer_scheme ServiceManager"

definition rpc_server0 :: RpcServer where
  "rpc_server0 = \<lparr>cycle = message_cycle0, thread_pool = None, running = False\<rparr>"

definition set_thread_pool :: "job ThreadPool option \<Rightarrow> 'a RpcServer_scheme \<Rightarrow> 'a RpcServer_scheme" where
  "set_thread_pool pool s = s\<lparr>thread_pool := pool\<rparr>"

definition connection_count :: "'a RpcServer_scheme \<Rightarrow> nat" where
  "connection_count s = cm_count (conn_mgr (cycle s))"

definition server_start :: "ec \<Rightarrow> 'a RpcServer_scheme \<Rightarrow> unit res \<times> 'a RpcServer_scheme" where
  "server_start bind_ec s =
     (let s = s\<lparr>running := True\<rparr> in
      case start_listen bind_ec (cycle s) of
        Ret mc \<Rightarrow> (Ret (), s\<lparr>cycle := mc_run mc\<rparr>)
      | Throw e \<Rightarrow> (Throw e, s)
      | UB \<Rightarrow> (UB, s))"

definition server_stop :: "'a RpcServer_scheme \<Rightarrow> 'a RpcServer_scheme" where
  "server_stop s = s\<lparr>running := False, cycle := mc_stop (cycle s)\<rparr>"

section \<open>Requests\<close>

definition empty_response :: RpcResponse where
  "empty_response = \<lparr>error_code = 0, error_msg = [], result = []\<rparr>"

definition error_response :: "ErrorCode \<Rightarrow> string \<Rightarrow> RpcResponse" where
  "error_response ec msg = empty_response\<lparr>error_code := error_code_value ec, error_msg := msg\<rparr>"

text \<open>The \<^verbatim>\<open>catch\<close> clause around the dispatch tells the errors apart by their texts.\<close>

definition classify :: "string \<Rightarrow> ErrorCode" where
  "classify err =
     (if str_contains err ''service not found'' then SERVICE_NOT_FOUND
      else if str_contains err ''method not found'' then METHOD_NOT_FOUND
      else INTERNAL_ERROR)"

definition process_request_via ::
    "(string \<Rightarrow> string \<Rightarrow> string \<Rightarrow> 'w \<Rightarrow> string res \<times> 'w) \<Rightarrow> RpcHeader \<Rightarrow> string \<Rightarrow> 'w \<Rightarrow> RpcResponse res \<times> 'w" where
  "process_request_via disp header body w =
     (if msg_type header \<noteq> msg_type_code REQUEST
      then (Ret (error_response INTERNAL_ERROR ''unexpected message type''), w)
      else case deserialize_request body of
        Throw (RuntimeError e) \<Rightarrow> (Ret (error_response DESERIALIZE_ERROR (''deserialize failed: '' @ e)), w)
      | Throw (StdException e) \<Rightarrow> (Ret (error_response DESERIALIZE_ERROR (''deserialize failed: '' @ e)), w)
      | Throw OtherException \<Rightarrow> (Throw OtherException, w)
      | UB \<Rightarrow> (UB, w)
      | Ret req \<Rightarrow>
          (case disp (service_name req) (method_name req) (params req) w of
             (Ret out, w') \<Rightarrow> (Ret (empty_response\<lparr>error_code := 0, result := out\<rparr>), w')
           | (Throw (RuntimeError err), w') \<Rightarrow> (Ret (error_response (classify err) err), w')
           | (Throw e, w') \<Rightarrow> (Throw e, w')
           | (UB, w') \<Rightarrow> (UB, w')))"

definition process_request ::
    "'w ServiceManager \<Rightarrow> RpcHeader \<Rightarrow> string \<Rightarrow> 'w \<Rightarrow> RpcResponse res \<times> 'w" where
  "process_request m = process_request_via (dispatch m)"

definition response_header :: "RpcHeader \<Rightarrow> RpcResponse \<Rightarrow> string \<Rightarrow> RpcHeader" where
  "response_header req_header resp resp_body =
     \<lparr>magic = MAGIC, version = VERSION,
      msg_type = (if error_code resp = 0 then msg_type_code RESPONSE else msg_type_code RPC_ERROR),
      serializer = serializer req_header, flags = FLAG_NONE, seq_id = seq_id req_header,
      body_size = word_of_nat (length resp_body), checksum = 0\<rparr>"

text \<open>The captured \<^verbatim>\<open>shared_ptr\<close> keeps the connection alive; a reference without an object would be dangling.\<close>

definition send_response ::
    "RpcHeader \<Rightarrow> RpcResponse \<Rightarrow> nat \<Rightarrow> 'a RpcServer_scheme \<Rightarrow> 'a RpcServer_scheme res" where
  "send_response req_header resp r s =
     bindR (serialize_response resp) (\<lambda>resp_body.
       case store (cycle s) r of
         None \<Rightarrow> UB
       | Some c \<Rightarrow>
           bindR (send (response_header req_header resp resp_body) resp_body c) (\<lambda>c'.
             Ret (s\<lparr>cycle := (cycle s)\<lparr>store := (store (cycle s))(r \<mapsto> c')\<rparr>\<rparr>)))"

text \<open>What both branches of \<^verbatim>\<open>on_message\<close> do with a request, now or in a worker.\<close>

definition process_job :: "'a manager \<Rightarrow> job \<Rightarrow> 'a RpcServer_scheme \<Rightarrow> unit res \<times> 'a RpcServer_scheme" where
  "process_job m j s =
     (case j of (header, body, r) \<Rightarrow>
      case process_request m header body s of
        (Ret resp, s') \<Rightarrow>
          (case send_response header resp r s' of
             Ret s'' \<Rightarrow> (Ret (), s'') | Throw e \<Rightarrow> (Throw e, s') | UB \<Rightarrow> (UB, s'))
      | (Throw e, s') \<Rightarrow> (Throw e, s')
      | (UB, s') \<Rightarrow> (UB, s'))"

definition server_on_message ::
    "'a manager \<Rightarrow> RpcHeader \<Rightarrow> string \<Rightarrow> nat \<Rightarrow> 'a RpcServer_scheme \<Rightarrow> unit res \<times> 'a RpcServer_scheme" where
  "server_on_message m header body r s =
     (case thread_pool s of
        Some p \<Rightarrow>
          (case enqueue (header, body, r) p of
             Ret p' \<Rightarrow> (Ret (), s\<lparr>thread_pool := Some p'\<rparr>) | Throw e \<Rightarrow> (Throw e, s) | UB \<Rightarrow> (UB, s))
      | None \<Rightarrow> process_job m (header, body, r) s)"

text \<open>
  The next statement of worker \<open>i\<close>. Inside a task it is the request that runs; the \<^verbatim>\<open>packaged_task\<close> stores an
  exception in a future nobody reads.
\<close>

definition server_worker :: "'a manager \<Rightarrow> nat \<Rightarrow> 'a RpcServer_scheme \<Rightarrow> 'a RpcServer_scheme option" where
  "server_worker m i s =
     (case thread_pool s of None \<Rightarrow> None
      | Some p \<Rightarrow>
          (case worker_loop i p of None \<Rightarrow> None
           | Some p' \<Rightarrow>
               let s' = s\<lparr>thread_pool := Some p'\<rparr> in
               (case workers p ! i of
                  Entered j \<Rightarrow> Some (snd (process_job m j s'))
                | _ \<Rightarrow> Some s')))"

section \<open>PingService\<close>

definition ping_handle :: "('w \<Rightarrow> nat) \<Rightarrow> string \<Rightarrow> string \<Rightarrow> 'w \<Rightarrow> string res \<times> 'w" where
  "ping_handle get_conn_count meth ps w =
     (if meth = ''Ping'' then (Ret ''pong'', w)
      else if meth = ''Stats'' then
        (Ret (''{\"status\":\"running\",\"connections\":'' @ to_string (get_conn_count w) @ ''}''), w)
      else (Throw (RuntimeError (''unknown method: '' @ meth)), w))"

definition PingService :: "('w \<Rightarrow> nat) \<Rightarrow> 'w Service" where
  "PingService get_conn_count =
     \<lparr>svc_name = ''PingService'', svc_methods = [''Ping'', ''Stats''], svc_handle = ping_handle get_conn_count\<rparr>"

section \<open>What a request is answered with\<close>

lemma process_not_request:
  "msg_type h \<noteq> msg_type_code REQUEST \<Longrightarrow>
   process_request_via disp h body w = (Ret (error_response INTERNAL_ERROR ''unexpected message type''), w)"
  by (simp add: process_request_via_def)

lemma process_undecodable:
  assumes "msg_type h = msg_type_code REQUEST" and "\<forall>r. deserialize_request body \<noteq> Ret r"
  obtains e where "deserialize_request body = Throw (RuntimeError e)"
    and "process_request_via disp h body w =
      (Ret (error_response DESERIALIZE_ERROR (''deserialize failed: '' @ e)), w)"
  using assms deserialize_throws_runtime_error(2) [of body] req.deser_safe [of body]
  by (cases "deserialize_request body") (auto simp: process_request_via_def)

context request_dispatcher
begin

lemma process_unknown_service:
  assumes "msg_type h = msg_type_code REQUEST" and "deserialize_request body = Ret r"
    and "methods_of (service_name r) = None"
  shows "process_request_via disp h body w =
    (Ret (error_response SERVICE_NOT_FOUND (''service not found: '' @ service_name r)), w)"
  using assms unknown_service by (simp add: process_request_via_def classify_def)

lemma process_unknown_method:
  assumes "msg_type h = msg_type_code REQUEST" and "deserialize_request body = Ret r"
    and "methods_of (service_name r) = Some ms" and "method_name r \<notin> set ms"
  shows "process_request_via disp h body w =
    (Ret (error_response
       (if str_contains (service_name r @ ''.'' @ method_name r) ''service not found''
        then SERVICE_NOT_FOUND else METHOD_NOT_FOUND)
       (''method not found: '' @ service_name r @ ''.'' @ method_name r)), w)"
  using assms unknown_method [of "service_name r" ms "method_name r" "params r" w]
  by (simp add: process_request_via_def classify_def)

lemma success_only_if_known:
  assumes "process_request_via disp h body w = (Ret resp, w')" and "error_code resp = 0"
  shows "\<exists>r ms. deserialize_request body = Ret r \<and> methods_of (service_name r) = Some ms \<and>
    method_name r \<in> set ms \<and> disp (service_name r) (method_name r) (params r) w = (Ret (result resp), w')"
proof -
  have nz: "error_code (error_response e msg) = 0 \<longleftrightarrow> e = OK" for e msg
    by (simp add: error_response_def)
  have cl: "classify x \<noteq> OK" for x by (simp add: classify_def)
  from assms obtain r where r: "deserialize_request body = Ret r"
      "disp (service_name r) (method_name r) (params r) w = (Ret (result resp), w')"
    by (auto simp: process_request_via_def nz cl split: if_splits res.splits exn.splits prod.splits)
  then show ?thesis using answered_only_if_known [of "service_name r" "method_name r" "params r" w] by auto
qed

end

section \<open>Frames of a connection\<close>

definition frame_seq :: "string \<Rightarrow> u32" where
  "frame_seq d = (case deserialize_header d of Ret h \<Rightarrow> seq_id h | _ \<Rightarrow> 0)"

lemma frame_seq_layout [simp]: "frame_seq (header_layout h @ body) = seq_id h"
  by (simp add: frame_seq_def deserialize_header_layout)

lemma enter_do_write_closed [simp]: "closed (enter_do_write c) = closed c" "closed (enqueue_frame d c) = closed c"
  by (simp_all add: conn_write_defs split: list.split)

section \<open>Services\<close>

text \<open>
  Services that keep to the interface: they return or throw \<^verbatim>\<open>std::runtime_error\<close>, and leave the server's own
  members alone.
\<close>

definition services_ok :: "'a manager \<Rightarrow> bool" where
  "services_ok m \<longleftrightarrow>
     (\<forall>nm svc mn ps s. get_service m nm = Some svc \<longrightarrow>
        (case svc_handle svc mn ps s of (out, s') \<Rightarrow>
           ((\<exists>x. out = Ret x) \<or> (\<exists>msg. out = Throw (RuntimeError msg))) \<and>
           cycle s' = cycle s \<and> thread_pool s' = thread_pool s))"

lemma dispatch_ok:
  assumes "services_ok m"
  obtains s' x where "dispatch m sn mn ps s = (Ret x, s')" "cycle s' = cycle s" "thread_pool s' = thread_pool s"
  | s' msg where "dispatch m sn mn ps s = (Throw (RuntimeError msg), s')" "cycle s' = cycle s"
      "thread_pool s' = thread_pool s"
proof (cases "\<exists>svc. get_service m sn = Some svc \<and> mn \<in> set (svc_methods svc)")
  case True
  then obtain svc where svc: "get_service m sn = Some svc" "mn \<in> set (svc_methods svc)" by blast
  obtain out s' where out: "svc_handle svc mn ps s = (out, s')" by force
  have "case svc_handle svc mn ps s of (out, s') \<Rightarrow>
      ((\<exists>x. out = Ret x) \<or> (\<exists>msg. out = Throw (RuntimeError msg))) \<and>
      cycle s' = cycle s \<and> thread_pool s' = thread_pool s"
    by (rule assms [unfolded services_ok_def, rule_format, OF svc(1)])
  with svc out that show ?thesis by (auto simp: dispatch_def)
next
  case False
  then have "case map_option svc_methods (get_service m sn) of None \<Rightarrow> True | Some ms \<Rightarrow> mn \<notin> set ms"
    by (auto split: option.split)
  then show ?thesis using mgr.rejected_frame [where m = m and sn = sn and mn = mn and ps = ps and w = s] that(2) by blast
qed

lemma process_request_ok:
  assumes "services_ok m"
  obtains resp s' where "process_request m h body s = (Ret resp, s')" "cycle s' = cycle s"
    "thread_pool s' = thread_pool s"
proof (cases "msg_type h = msg_type_code REQUEST \<and> (\<exists>r. deserialize_request body = Ret r)")
  case True
  then obtain r where r: "deserialize_request body = Ret r" and h: "msg_type h = msg_type_code REQUEST" by blast
  show ?thesis
    by (rule dispatch_ok [OF assms, of "service_name r" "method_name r" "params r" s])
      (use r h that in \<open>auto simp: process_request_def process_request_via_def\<close>)
next
  case False
  then show ?thesis
    using process_not_request [of h "dispatch m" body s] process_undecodable [of h body "dispatch m" s] that
    by (metis process_request_def)
qed

text \<open>A weaker contract: any exception may be thrown, but the server's own members are left alone.\<close>

definition services_keep :: "'a manager \<Rightarrow> bool" where
  "services_keep m \<longleftrightarrow>
     (\<forall>nm svc mn ps s. get_service m nm = Some svc \<longrightarrow>
        (case svc_handle svc mn ps s of (out, s') \<Rightarrow>
           out \<noteq> UB \<and> cycle s' = cycle s \<and> thread_pool s' = thread_pool s))"

lemma services_ok_keep:
  assumes "services_ok m"
  shows "services_keep m"
  unfolding services_keep_def
proof (intro allI impI)
  fix nm svc mn ps and s :: "'a RpcServer_scheme"
  assume g: "get_service m nm = Some svc"
  obtain out s' where o: "svc_handle svc mn ps s = (out, s')" by force
  have "case svc_handle svc mn ps s of (out, s') \<Rightarrow>
      ((\<exists>x. out = Ret x) \<or> (\<exists>msg. out = Throw (RuntimeError msg))) \<and>
      cycle s' = cycle s \<and> thread_pool s' = thread_pool s"
    by (rule assms [unfolded services_ok_def, rule_format, OF g])
  then show "case svc_handle svc mn ps s of (out, s') \<Rightarrow>
      out \<noteq> UB \<and> cycle s' = cycle s \<and> thread_pool s' = thread_pool s"
    using o by auto
qed

lemma dispatch_keeps:
  assumes "services_keep m" and "dispatch m sn mn ps s = (out, s')"
  shows "out \<noteq> UB \<and> cycle s' = cycle s \<and> thread_pool s' = thread_pool s"
proof (cases "\<exists>svc. get_service m sn = Some svc \<and> mn \<in> set (svc_methods svc)")
  case True
  then obtain svc where svc: "get_service m sn = Some svc" "mn \<in> set (svc_methods svc)" by blast
  have "case svc_handle svc mn ps s of (out, s') \<Rightarrow>
      out \<noteq> UB \<and> cycle s' = cycle s \<and> thread_pool s' = thread_pool s"
    by (rule assms(1) [unfolded services_keep_def, rule_format, OF svc(1)])
  with assms(2) svc show ?thesis by (auto simp: dispatch_def)
qed (use assms(2) in \<open>auto simp: dispatch_def split: option.splits if_splits\<close>)

lemma process_request_keeps:
  assumes "services_keep m" and "process_request m h body s = (out, s')"
  shows "out \<noteq> UB \<and> cycle s' = cycle s \<and> thread_pool s' = thread_pool s"
proof (cases "msg_type h = msg_type_code REQUEST \<and> (\<exists>r. deserialize_request body = Ret r)")
  case True
  then obtain r where r: "deserialize_request body = Ret r" and h: "msg_type h = msg_type_code REQUEST" by blast
  obtain d s1 where d: "dispatch m (service_name r) (method_name r) (params r) s = (d, s1)" by force
  show ?thesis
    using dispatch_keeps [OF assms(1) d] assms(2) r h d
    by (auto simp: process_request_def process_request_via_def split: res.splits exn.splits)
next
  case False
  then show ?thesis
    using process_not_request [of h "dispatch m" body s] process_undecodable [of h body "dispatch m" s] assms(2)
    by (metis process_request_def prod.inject res.distinct(3))
qed

lemma executed_accepted: "pool_inv p \<Longrightarrow> set (executed p) \<subseteq> set (accepted p)"
  by (metis pool_inv_def set_mset_mset set_mset_union UnCI subsetI)

lemma accept_handler_store:
  "fresh (accept_handler Success mc) = Suc (fresh mc)"
  "store (accept_handler Success mc) = (store mc)(fresh mc \<mapsto>
     start_read True True (new_connection\<lparr>conn_id := next_id (conn_mgr mc)\<rparr>))"
  by (simp_all add: accept_handler_def cm_add_def set_conn_id_def do_accept_def Let_def)

lemma worker_loop_effect:
  assumes "worker_loop i p = Some p'"
  shows "executed p' = executed p @ (case workers p ! i of Entered j \<Rightarrow> [j] | _ \<Rightarrow> [])"
    "length (workers p') = length (workers p)" "i < length (workers p)"
  using assms
  by (cases "workers p ! i"; auto simp: worker_loop_def set_worker_def split: if_splits list.splits)+

lemma in_hand_accepted:
  assumes "pool_inv p" and "i < length (workers p)" and "workers p ! i = Entered j"
  shows "j \<in> set (accepted p)"
proof -
  have "Entered j \<in> set (workers p)" using assms(2,3) by (metis nth_mem)
  then have "j \<in># sum_list (map in_hand (workers p))" by (auto simp: in_set_conv_decomp)
  then show ?thesis using assms(1) by (metis pool_inv_def set_mset_mset union_iff)
qed

section \<open>Properties\<close>

text \<open>
  C8: what the server answers a decodable request with, on every path: an unknown service and an unknown
  method are reported under their own codes, a value returned by the service becomes the result of a
  response with code 0, a \<^verbatim>\<open>std::runtime_error\<close> becomes an error response whose code is chosen by searching
  its text, and any other exception escapes without a response. An unknown method is reported as an
  unknown service when the two names contain the words ``service not found''.
\<close>

theorem process_request_answers:
  assumes "msg_type h = msg_type_code REQUEST" and "deserialize_request body = Ret r"
  shows "process_request m h body w =
    (case get_service m (service_name r) of
       None \<Rightarrow> (Ret (error_response SERVICE_NOT_FOUND (''service not found: '' @ service_name r)), w)
     | Some svc \<Rightarrow>
         if method_name r \<notin> set (svc_methods svc)
         then (Ret (error_response
                (if str_contains (service_name r @ ''.'' @ method_name r) ''service not found''
                 then SERVICE_NOT_FOUND else METHOD_NOT_FOUND)
                (''method not found: '' @ service_name r @ ''.'' @ method_name r)), w)
         else (case svc_handle svc (method_name r) (params r) w of
             (Ret out, w') \<Rightarrow> (Ret \<lparr>error_code = 0, error_msg = [], result = out\<rparr>, w')
           | (Throw (RuntimeError e), w') \<Rightarrow>
               (Ret (error_response
                 (if str_contains e ''service not found'' then SERVICE_NOT_FOUND
                  else if str_contains e ''method not found'' then METHOD_NOT_FOUND else INTERNAL_ERROR) e), w')
           | (Throw e, w') \<Rightarrow> (Throw e, w')
           | (UB, w') \<Rightarrow> (UB, w')))"
proof (cases "get_service m (service_name r)")
  case None
  then show ?thesis
    using mgr.process_unknown_service [of h body r m w] assms by (simp add: process_request_def)
next
  case (Some svc)
  show ?thesis
  proof (cases "method_name r \<in> set (svc_methods svc)")
    case True
    with Some assms show ?thesis
      by (auto simp: process_request_def process_request_via_def dispatch_def classify_def empty_response_def
          split: res.splits exn.splits prod.splits)
  next
    case False
    with Some show ?thesis
      using mgr.process_unknown_method [of h body r m "svc_methods svc" w] assms
      by (simp add: process_request_def)
  qed
qed

definition ping_manager :: "('w \<Rightarrow> nat) \<Rightarrow> 'w ServiceManager" where
  "ping_manager cnt = register_service service_manager0 (Some (PingService cnt))"

lemma get_ping_manager [simp]:
  "get_service (ping_manager cnt) nm = (if nm = ''PingService'' then Some (PingService cnt) else None)"
  by (simp add: ping_manager_def get_service_def register_service_def service_manager0_def PingService_def)

definition ping_header :: "u32 \<Rightarrow> RpcHeader" where
  "ping_header seq = \<lparr>magic = MAGIC, version = VERSION, msg_type = msg_type_code REQUEST,
     serializer = ser_type_code PROTOBUF, flags = FLAG_NONE, seq_id = seq, body_size = 27, checksum = 0\<rparr>"

definition ping_body :: string where
  "ping_body = request_layout ping_request"

lemma ping_body_read: "deserialize_request ping_body = Ret ping_request"
proof -
  have "request_fits ping_request" by (simp add: request_fits_def ping_request_def)
  then have "bindR (serialize_request ping_request) deserialize_request = Ret ping_request"
    using req.roundtrip by blast
  then show ?thesis by (simp add: serialize_request_eq ping_body_def)
qed

theorem process_request_answers_witness:
  "process_request (ping_manager (\<lambda>n. n)) (ping_header 1) ping_body 3 = (Ret pong_response, 3)"
  using process_request_answers [of "ping_header 1" ping_body ping_request "ping_manager (\<lambda>n. n)" 3]
  by (simp add: ping_header_def ping_body_read ping_request_def PingService_def ping_handle_def pong_response_def)

text \<open>
  A message that is not a request, and a request body that cannot be decoded, are answered with
  \<^verbatim>\<open>INTERNAL_ERROR\<close> and \<^verbatim>\<open>DESERIALIZE_ERROR\<close>, and no service is called: the state is unchanged.
\<close>

theorem process_request_rejects:
  "msg_type h = msg_type_code REQUEST \<and> (\<exists>r. deserialize_request body = Ret r) \<or>
   (\<exists>resp. process_request m h body w = (Ret resp, w) \<and>
      error_code resp = error_code_value
        (if msg_type h = msg_type_code REQUEST then DESERIALIZE_ERROR else INTERNAL_ERROR))"
proof (cases "msg_type h = msg_type_code REQUEST")
  case False
  then show ?thesis
    using process_not_request [of h "dispatch m" body w] by (simp add: process_request_def error_response_def)
next
  case True
  show ?thesis
  proof (cases "\<exists>r. deserialize_request body = Ret r")
    case False
    then obtain e where "process_request m h body w =
        (Ret (error_response DESERIALIZE_ERROR (''deserialize failed: '' @ e)), w)"
      using process_undecodable [OF True, of body "dispatch m" w] unfolding process_request_def by metis
    then show ?thesis using True by (simp add: error_response_def)
  qed (use True in simp)
qed

text \<open>
  The frame of a response: it carries the sequence number and serializer of its request, its type says
  whether the code is 0, and, for a response the length fields can express, the peer's reading side
  accepts it and decodes the same response.
\<close>

theorem response_frame:
  assumes "length (error_msg resp) < 65536" and "length (result resp) < 4294900000"
    and "serialize_response resp = Ret body"
  shows "frame_ok (response_header h resp body, body) \<and> deserialize_response body = Ret resp \<and>
    seq_id (response_header h resp body) = seq_id h \<and>
    serializer (response_header h resp body) = serializer h \<and>
    (msg_type (response_header h resp body) = msg_type_code RESPONSE \<longleftrightarrow> error_code resp = 0) \<and>
    (msg_type (response_header h resp body) = msg_type_code RPC_ERROR \<longleftrightarrow> error_code resp \<noteq> 0)"
proof -
  have "response_fits resp" using assms(1,2) by (simp add: response_fits_def)
  then have "deserialize_response body = Ret resp"
    using resp.roundtrip [of resp] assms(3) by simp
  moreover have "body = response_layout resp" using assms(3) by (simp add: serialize_response_eq)
  then have "length body < 2 ^ 32" using assms(1,2) by (simp add: response_layout_def)
  then have "frame_ok (response_header h resp body, body)"
    by (simp add: frame_ok_def response_header_def unat_of_nat take_bit_eq_mod)
  ultimately show ?thesis by (simp add: response_header_def)
qed

theorem response_frame_witness:
  "deserialize_response (response_layout pong_response) = Ret pong_response"
  using response_frame [of pong_response "response_layout pong_response" "ping_header 1"]
  by (simp add: serialize_response_eq pong_response_def)

lemma ping_services_ok: "services_ok (ping_manager cnt)"
  by (simp add: services_ok_def PingService_def ping_handle_def)

text \<open>
  An exception that is not a \<^verbatim>\<open>std::runtime_error\<close> leaves the request without an answer: the
  worker drops it with the future and the connection is handed nothing.
\<close>

theorem other_exceptions_unanswered:
  assumes "msg_type h = msg_type_code REQUEST" and "deserialize_request body = Ret req"
    and "get_service m (service_name req) = Some svc" and "method_name req \<in> set (svc_methods svc)"
    and "svc_handle svc (method_name req) (params req) s = (Throw (StdException e), s')"
  shows "process_job m (h, body, r) s = (Throw (StdException e), s')"
  using assms by (simp add: process_job_def process_request_def process_request_via_def dispatch_def)

definition logic_service :: "'w Service" where
  "logic_service = \<lparr>svc_name = ''PingService'', svc_methods = [''Ping''],
     svc_handle = (\<lambda>mn ps w. (Throw (StdException ''invalid stoi argument''), w))\<rparr>"

theorem other_exceptions_unanswered_witness:
  "process_job (register_service service_manager0 (Some logic_service)) (ping_header 9, ping_body, 0) rpc_server0 =
     (Throw (StdException ''invalid stoi argument''), rpc_server0)"
  by (rule other_exceptions_unanswered [OF _ ping_body_read, where svc = logic_service])
    (simp_all add: ping_header_def logic_service_def ping_request_def)

end
