(* ===== verification/Rpc_Client.thy ===== *)
theory Rpc_Client
  imports Rpc_Server
begin

text \<open>
  \<^verbatim>\<open>src/core/rpc_client.h\<close> and \<^verbatim>\<open>rpc_client.cpp\<close>: the asynchronous client. The promise of the \<open>k\<close>-th call is the
  number \<open>k\<close>; \<open>resolved\<close> records every \<^verbatim>\<open>set_value\<close> in order, so that resolving a promise twice, which would
  throw \<^verbatim>\<open>std::future_error\<close>, would show there. Asynchronous operations are fields of the state as for
  \<^verbatim>\<open>Connection\<close>. Calls from several threads interleave between the atomic increment, the two critical
  sections and \<^verbatim>\<open>do_write\<close>.
\<close>

section \<open>State\<close>

record WriteItem =
  frame :: string
  item_seq :: u32

datatype ConnectOp = NotConnecting | Resolving | Connecting

record RpcClient =
  next_seq_id :: u32
  connected :: bool
  client_open :: bool
  pending :: "(u32, nat) umap"
  client_queue :: "WriteItem list"
  client_writing :: bool
  io_thread :: bool
  client_stopped :: bool
  connect_op :: ConnectOp
  connect_result :: "unit res option"
  client_read :: ReadOp
  client_write :: "WriteItem option"
  client_starts :: nat
  client_done :: "(WriteItem \<times> ec) list"
  calls :: nat
  resolved :: "(nat \<times> RpcResponse) list"

definition new_client :: RpcClient where
  "new_client =
     \<lparr>next_seq_id = 1, connected = False, client_open = False, pending = [], client_queue = [],
      client_writing = False, io_thread = False, client_stopped = False, connect_op = NotConnecting,
      connect_result = None, client_read = NoRead, client_write = None, client_starts = 0, client_done = [],
      calls = 0, resolved = []\<rparr>"

section \<open>Connecting\<close>

text \<open>
  Assigning a new thread to \<^verbatim>\<open>io_thread_\<close> while it still owns one calls \<^verbatim>\<open>std::terminate\<close>: the result is
  \<^const>\<open>None\<close>.
\<close>

definition connect :: "RpcClient \<Rightarrow> RpcClient option" where
  "connect c =
     (let c = c\<lparr>connect_op := Resolving\<rparr>
      in if io_thread c then None else Some (c\<lparr>io_thread := True\<rparr>))"

definition resolve_handler :: "ec \<Rightarrow> RpcClient \<Rightarrow> RpcClient" where
  "resolve_handler ec c =
     (case ec of
        Failure m \<Rightarrow> c\<lparr>connect_op := NotConnecting, connect_result := Some (Throw (RuntimeError m))\<rparr>
      | Success \<Rightarrow> c\<lparr>connect_op := Connecting\<rparr>)"

definition client_read_header :: "RpcClient \<Rightarrow> RpcClient" where
  "client_read_header c = c\<lparr>client_read := ReadHeader\<rparr>"

definition start_read_loop :: "RpcClient \<Rightarrow> RpcClient" where
  "start_read_loop c = client_read_header c"

definition connect_handler :: "ec \<Rightarrow> RpcClient \<Rightarrow> RpcClient" where
  "connect_handler ec c =
     (let c = c\<lparr>connect_op := NotConnecting\<rparr> in
      case ec of
        Failure m \<Rightarrow> c\<lparr>connect_result := Some (Throw (RuntimeError m))\<rparr>
      | Success \<Rightarrow>
          (start_read_loop (c\<lparr>client_open := True, connected := True\<rparr>))\<lparr>connect_result := Some (Ret ())\<rparr>)"

definition close_socket :: "RpcClient \<Rightarrow> RpcClient" where
  "close_socket c = c\<lparr>connected := False, client_open := False\<rparr>"

definition stop_io :: "RpcClient \<Rightarrow> RpcClient" where
  "stop_io c = c\<lparr>client_stopped := True, io_thread := False\<rparr>"

definition disconnect :: "RpcClient \<Rightarrow> RpcClient" where
  "disconnect c = stop_io (close_socket c)"

section \<open>Writing\<close>

definition push_item :: "WriteItem \<Rightarrow> RpcClient \<Rightarrow> RpcClient" where
  "push_item item c =
     (let c = c\<lparr>client_queue := client_queue c @ [item]\<rparr>
      in if client_writing c then c else c\<lparr>client_writing := True, client_starts := Suc (client_starts c)\<rparr>)"

definition client_do_write :: "RpcClient \<Rightarrow> RpcClient" where
  "client_do_write c =
     (case client_queue c of
        [] \<Rightarrow> c\<lparr>client_writing := False\<rparr>
      | item # rest \<Rightarrow> c\<lparr>client_queue := rest, client_write := Some item\<rparr>)"

definition enter_client_write :: "RpcClient \<Rightarrow> RpcClient" where
  "enter_client_write c = client_do_write (c\<lparr>client_starts := client_starts c - 1\<rparr>)"

definition enqueue_write :: "WriteItem \<Rightarrow> RpcClient \<Rightarrow> RpcClient" where
  "enqueue_write item c =
     (let c' = push_item item c in if client_writing c then c' else enter_client_write c')"

definition closed_response :: "string \<Rightarrow> RpcResponse" where
  "closed_response reason = error_response CONNECTION_CLOSED reason"

text \<open>Taking a request out of the map and fulfilling its promise.\<close>

definition resolve :: "u32 \<Rightarrow> RpcResponse \<Rightarrow> RpcClient \<Rightarrow> RpcClient" where
  "resolve sq resp c =
     (case map_of (pending c) sq of
        None \<Rightarrow> c
      | Some k \<Rightarrow> c\<lparr>pending := AList.delete sq (pending c), resolved := resolved c @ [(k, resp)]\<rparr>)"

definition client_write_handler :: "ec \<Rightarrow> RpcClient \<Rightarrow> RpcClient" where
  "client_write_handler ec c =
     (case client_write c of
        None \<Rightarrow> client_do_write c
      | Some item \<Rightarrow>
          let c = c\<lparr>client_write := None, client_done := client_done c @ [(item, ec)]\<rparr>;
              c = (case ec of Failure m \<Rightarrow> resolve (item_seq item) (closed_response m) c | Success \<Rightarrow> c)
          in client_do_write c)"

section \<open>Calls\<close>

definition request_header :: "u32 \<Rightarrow> string \<Rightarrow> RpcHeader" where
  "request_header sq req_body =
     \<lparr>magic = MAGIC, version = VERSION, msg_type = msg_type_code REQUEST,
      serializer = ser_type_code PROTOBUF, flags = FLAG_NONE, seq_id = sq,
      body_size = word_of_nat (length req_body), checksum = 0\<rparr>"

definition build_item :: "u32 \<Rightarrow> RpcRequest \<Rightarrow> WriteItem res" where
  "build_item sq req =
     bindR (serialize_request req) (\<lambda>req_body.
     bindR (serialize_header (request_header sq req_body)) (\<lambda>hd.
     Ret \<lparr>frame = hd @ req_body, item_seq = sq\<rparr>))"

definition fetch_seq :: "RpcClient \<Rightarrow> nat \<times> u32 \<times> RpcClient" where
  "fetch_seq c = (calls c, next_seq_id c, c\<lparr>next_seq_id := next_seq_id c + 1, calls := Suc (calls c)\<rparr>)"

definition add_pending :: "u32 \<Rightarrow> nat \<Rightarrow> RpcClient \<Rightarrow> RpcClient" where
  "add_pending sq k c = c\<lparr>pending := AList.update sq k (pending c)\<rparr>"

definition call :: "string \<Rightarrow> string \<Rightarrow> string \<Rightarrow> u32 \<Rightarrow> RpcClient \<Rightarrow> (nat \<times> RpcClient) res" where
  "call service meth ps tmo c =
     (let (k, sq, c) = fetch_seq c;
          c = add_pending sq k c;
          req = \<lparr>service_name = service, method_name = meth, timeout_ms = tmo, params = ps\<rparr>
      in bindR (build_item sq req) (\<lambda>item. Ret (k, enqueue_write item c)))"

section \<open>Reading\<close>

definition reject_all_pending :: "string \<Rightarrow> RpcClient \<Rightarrow> RpcClient" where
  "reject_all_pending reason c =
     c\<lparr>resolved := resolved c @ map (\<lambda>(sq, k). (k, closed_response reason)) (pending c), pending := []\<rparr>"

definition client_header_handler :: "ec \<Rightarrow> string \<Rightarrow> RpcClient \<Rightarrow> RpcClient" where
  "client_header_handler ec buf c =
     (let c = c\<lparr>client_read := NoRead\<rparr> in
      case ec of Failure m \<Rightarrow> reject_all_pending m c
      | Success \<Rightarrow>
          (case deserialize_header buf of
             Ret header \<Rightarrow>
               if magic header \<noteq> MAGIC then reject_all_pending ''bad magic'' c
               else c\<lparr>client_read := ReadBody header\<rparr>
           | _ \<Rightarrow> reject_all_pending ''bad header'' c))"

definition client_body_handler :: "RpcHeader \<Rightarrow> ec \<Rightarrow> string \<Rightarrow> RpcClient \<Rightarrow> RpcClient" where
  "client_body_handler header ec body c =
     (let c = c\<lparr>client_read := NoRead\<rparr> in
      case ec of Failure m \<Rightarrow> reject_all_pending m c
      | Success \<Rightarrow>
          (case deserialize_response body of
             Ret resp \<Rightarrow> client_read_header (resolve (seq_id header) resp c)
           | _ \<Rightarrow> reject_all_pending ''bad response'' c))"

text \<open>The reading loop on what the server sends, as for \<^const>\<open>conn_feed\<close>.\<close>

lemma resolve_read [simp]:
  "client_read (resolve sq r c) = client_read c" "client_read (reject_all_pending m c) = client_read c"
  by (auto simp: resolve_def reject_all_pending_def split: option.splits)

function client_feed :: "string \<Rightarrow> RpcClient \<Rightarrow> RpcClient" where
  "client_feed input c =
     (case client_read c of
        NoRead \<Rightarrow> c
      | ReadHeader \<Rightarrow>
          if length input < 20 then client_header_handler eof [] c
          else client_feed (drop 20 input) (client_header_handler Success (take 20 input) c)
      | ReadBody h \<Rightarrow>
          if length input < unat (body_size h) then client_body_handler h eof [] c
          else client_feed (drop (unat (body_size h)) input)
                 (client_body_handler h Success (take (unat (body_size h)) input) c))"
  by pat_completeness auto
termination
  by (relation "measure (\<lambda>(input, c). 2 * length input + (if \<exists>h. client_read c = ReadBody h then 1 else 0))")
    (auto simp: client_body_handler_def client_read_header_def Let_def split: res.splits)

declare client_feed.simps [simp del]

section \<open>The writer\<close>

lemmas client_write_defs = push_item_def enter_client_write_def client_do_write_def client_write_handler_def Let_def

lemma resolve_frame [simp]:
  "client_queue (resolve sq r c) = client_queue c" "client_write (resolve sq r c) = client_write c"
  "client_writing (resolve sq r c) = client_writing c" "client_starts (resolve sq r c) = client_starts c"
  "client_done (resolve sq r c) = client_done c" "calls (resolve sq r c) = calls c"
  "next_seq_id (resolve sq r c) = next_seq_id c"
  by (auto simp: resolve_def split: option.splits)

interpretation clw: serial_writer client_queue client_write client_writing client_starts
  "\<lambda>c. map fst (client_done c)" push_item enter_client_write "client_write_handler ec" for ec
  by unfold_locales (auto simp: client_write_defs split: list.splits option.splits ec.splits)

section \<open>Interleavings\<close>

text \<open>
  \<open>drafts\<close> are calls between the increment of \<^verbatim>\<open>next_seq_id_\<close> and their entry in the map, \<open>ready\<close> those between
  that and the queue. \<open>handed\<close> and \<open>received\<close> record the items in the order they entered the queue and the
  responses that were read.
\<close>

record client_sys =
  client :: RpcClient
  drafts :: "(u32 \<times> nat \<times> RpcRequest) list"
  ready :: "WriteItem list"
  handed :: "WriteItem list"
  received :: "(u32 \<times> RpcResponse) list"

definition response_in :: "RpcHeader \<Rightarrow> ec \<Rightarrow> string \<Rightarrow> (u32 \<times> RpcResponse) list" where
  "response_in h ec buf =
     (case ec of Failure _ \<Rightarrow> [] | Success \<Rightarrow>
        (case deserialize_response buf of Ret resp \<Rightarrow> [(seq_id h, resp)] | _ \<Rightarrow> []))"

inductive cl_step :: "client_sys \<Rightarrow> client_sys \<Rightarrow> bool" where
  cl_connect: "connect (client s) = Some c \<Longrightarrow> cl_step s (s\<lparr>client := c\<rparr>)"
| cl_resolved: "connect_op (client s) = Resolving \<Longrightarrow> \<not> client_stopped (client s) \<Longrightarrow>
    cl_step s (s\<lparr>client := resolve_handler ec (client s)\<rparr>)"
| cl_connected: "connect_op (client s) = Connecting \<Longrightarrow> \<not> client_stopped (client s) \<Longrightarrow>
    cl_step s (s\<lparr>client := connect_handler ec (client s)\<rparr>)"
| cl_fetch: "fetch_seq (client s) = (k, sq, c) \<Longrightarrow>
    cl_step s (s\<lparr>client := c, drafts := drafts s @ [(sq, k, req)]\<rparr>)"
| cl_register: "drafts s = xs @ (sq, k, req) # ys \<Longrightarrow> build_item sq req = Ret item \<Longrightarrow>
    cl_step s (s\<lparr>client := add_pending sq k (client s), drafts := xs @ ys, ready := ready s @ [item]\<rparr>)"
| cl_push: "ready s = xs @ item # ys \<Longrightarrow>
    cl_step s (s\<lparr>client := push_item item (client s), ready := xs @ ys, handed := handed s @ [item]\<rparr>)"
| cl_start: "0 < client_starts (client s) \<Longrightarrow> cl_step s (s\<lparr>client := enter_client_write (client s)\<rparr>)"
| cl_written: "client_write (client s) \<noteq> None \<Longrightarrow> \<not> client_stopped (client s) \<Longrightarrow>
    cl_step s (s\<lparr>client := client_write_handler ec (client s)\<rparr>)"
| cl_header: "client_read (client s) = ReadHeader \<Longrightarrow> \<not> client_stopped (client s) \<Longrightarrow>
    cl_step s (s\<lparr>client := client_header_handler ec buf (client s)\<rparr>)"
| cl_body: "client_read (client s) = ReadBody h \<Longrightarrow> \<not> client_stopped (client s) \<Longrightarrow>
    cl_step s (s\<lparr>client := client_body_handler h ec buf (client s), received := received s @ response_in h ec buf\<rparr>)"
| cl_close: "cl_step s (s\<lparr>client := close_socket (client s)\<rparr>)"
| cl_stop: "cl_step s (s\<lparr>client := stop_io (client s)\<rparr>)"

definition client_init :: client_sys where
  "client_init = \<lparr>client = new_client, drafts = [], ready = [], handed = [], received = []\<rparr>"

inductive cl_reach :: "client_sys \<Rightarrow> bool" where
  cl_begin: "cl_reach client_init"
| cl_next: "cl_reach s \<Longrightarrow> cl_step s t \<Longrightarrow> cl_reach t"

section \<open>Promises\<close>

text \<open>
  Every call's promise is in exactly one place: not yet registered, in the map under the call's own
  number, or fulfilled. This holds until the 32-bit counter comes round, that is for \<open>2 ^ 32\<close> calls.
\<close>

definition seq_of :: "nat \<Rightarrow> u32" where
  "seq_of k = word_of_nat (Suc k)"

lemma seq_of_inject: "i < 2 ^ 32 \<Longrightarrow> k < 2 ^ 32 \<Longrightarrow> seq_of i = seq_of k \<longleftrightarrow> i = k"
proof -
  assume ik: "i < 2 ^ 32" "k < 2 ^ 32"
  then have "unat (word_of_nat i :: u32) = i" "unat (word_of_nat k :: u32) = k"
    by (simp_all add: unat_of_nat take_bit_eq_mod)
  then have "word_of_nat i = (word_of_nat k :: u32) \<longleftrightarrow> i = k" by metis
  then show ?thesis by (simp add: seq_of_def)
qed

definition draft_ids :: "client_sys \<Rightarrow> nat list" where
  "draft_ids s = map (\<lambda>(sq, k, req). k) (drafts s)"

definition promise_inv :: "client_sys \<Rightarrow> bool" where
  "promise_inv s \<longleftrightarrow> (let c = client s in
     next_seq_id c = seq_of (calls c) \<and> umap_wf (pending c) \<and>
     (\<forall>(sq, k) \<in> set (pending c). sq = seq_of k) \<and> (\<forall>(sq, k, req) \<in> set (drafts s). sq = seq_of k) \<and>
     mset (map fst (resolved c)) + mset (map snd (pending c)) + mset (draft_ids s) = mset [0..<calls c] \<and>
     (\<forall>(k, resp) \<in> set (resolved c). (seq_of k, resp) \<in> set (received s) \<or> (\<exists>m. resp = closed_response m)))"

lemma promise_inv_resolve:
  assumes "promise_inv s" and "(\<exists>m. resp = closed_response m) \<or> new = [(sq, resp)]"
  shows "promise_inv (s\<lparr>client := resolve sq resp (client s), received := received s @ new\<rparr>)"
proof (cases "map_of (pending (client s)) sq")
  case None
  then show ?thesis using assms(1) by (auto simp: resolve_def promise_inv_def draft_ids_def Let_def)
next
  case (Some k)
  have wf: "umap_wf (pending (client s))" using assms(1) by (simp add: promise_inv_def Let_def)
  have sq: "sq = seq_of k"
    using assms(1) map_of_SomeD [OF Some] by (auto simp: promise_inv_def Let_def)
  show ?thesis
    using assms mset_delete [OF wf Some] um.wf_erase [OF wf, of sq] sq Some delete_subset [of sq "pending (client s)"]
    by (auto simp: resolve_def promise_inv_def draft_ids_def Let_def)
qed

lemma promise_inv_reject:
  assumes "promise_inv s"
  shows "promise_inv (s\<lparr>client := reject_all_pending m (client s)\<rparr>)"
proof -
  have eq: "fst \<circ> (\<lambda>(sq :: u32, k :: nat). (k, closed_response m)) = snd" by auto
  show ?thesis
    using assms by (auto simp: eq reject_all_pending_def promise_inv_def draft_ids_def Let_def simp flip: mset_map)
qed

lemma promise_fresh:
  assumes "promise_inv s" and "calls (client s) \<le> 2 ^ 32" and "drafts s = xs @ (sq, k, req) # ys"
  shows "map_of (pending (client s)) sq = None"
proof (rule ccontr)
  assume "map_of (pending (client s)) sq \<noteq> None"
  then obtain i where i: "(sq, i) \<in> set (pending (client s))" by (auto dest: map_of_SomeD)
  have eq: "seq_of i = seq_of k" using assms(1,3) i by (auto simp: promise_inv_def Let_def)
  have parts: "mset (map fst (resolved (client s))) + mset (map snd (pending (client s))) + mset (draft_ids s) =
      mset [0..<calls (client s)]" using assms(1) by (simp add: promise_inv_def Let_def)
  have mem: "i \<in># mset (map snd (pending (client s)))" "k \<in># mset (draft_ids s)"
    using i assms(3) by (force simp: draft_ids_def)+
  then have "i \<in># mset [0..<calls (client s)]" "k \<in># mset [0..<calls (client s)]"
    using parts by (metis union_iff)+
  then have "i = k" using eq assms(2) seq_of_inject [of i k] by simp
  with mem have "0 < count (mset (map snd (pending (client s)))) k" "0 < count (mset (draft_ids s)) k"
    by (simp_all only: count_greater_zero_iff)
  then have "2 \<le> count (mset (map fst (resolved (client s))) + mset (map snd (pending (client s))) +
      mset (draft_ids s)) k"
    unfolding count_union by linarith
  then have "2 \<le> count (mset [0..<calls (client s)]) k" unfolding parts .
  then show False by (simp add: count_mset_set' split: if_splits)
qed

lemma promise_inv_cong:
  assumes "promise_inv s" "pending c' = pending (client s)" "resolved c' = resolved (client s)"
    "calls c' = calls (client s)" "next_seq_id c' = next_seq_id (client s)"
  shows "promise_inv (s\<lparr>client := c'\<rparr>)" "promise_inv (s\<lparr>client := c', received := received s @ new\<rparr>)"
    "promise_inv (s\<lparr>client := c', ready := rd, handed := hd'\<rparr>)"
  using assms by (auto simp: promise_inv_def draft_ids_def Let_def)

lemma promise_inv_register:
  assumes "promise_inv s" and "calls (client s) \<le> 2 ^ 32" and d: "drafts s = xs @ (sq, k, req) # ys"
  shows "promise_inv (s\<lparr>client := add_pending sq k (client s), drafts := xs @ ys, ready := rd\<rparr>)"
proof -
  have none: "map_of (pending (client s)) sq = None" using promise_fresh [OF assms] .
  then have app: "AList.update sq k (pending (client s)) = pending (client s) @ [(sq, k)]"
    by (rule update_absent)
  have "umap_wf (AList.update sq k (pending (client s)))"
    using assms(1) by (intro um.wf_assign) (simp add: promise_inv_def Let_def)
  then show ?thesis
    using assms(1) d app by (auto simp: promise_inv_def draft_ids_def add_pending_def Let_def)
qed

lemma promise_inv_fetch:
  assumes "promise_inv s" and "fetch_seq (client s) = (k, sq, c)"
  shows "promise_inv (s\<lparr>client := c, drafts := drafts s @ [(sq, k, req)]\<rparr>)"
  using assms atLeast0_lessThan_Suc [of "calls (client s)"]
  by (auto simp: promise_inv_def fetch_seq_def draft_ids_def seq_of_def Let_def)

lemma client_do_write_frame [simp]:
  "pending (client_do_write c) = pending c" "resolved (client_do_write c) = resolved c"
  "calls (client_do_write c) = calls c" "next_seq_id (client_do_write c) = next_seq_id c"
  by (auto simp: client_do_write_def split: list.splits)

lemma promise_inv_write:
  assumes "promise_inv s"
  shows "promise_inv (s\<lparr>client := client_write_handler ec (client s)\<rparr>)"
proof (cases "\<exists>item m. client_write (client s) = Some item \<and> ec = Failure m")
  case True
  then obtain item m where im: "client_write (client s) = Some item" "ec = Failure m" by blast
  let ?c = "(client s)\<lparr>client_write := None, client_done := client_done (client s) @ [(item, ec)]\<rparr>"
  have "promise_inv (s\<lparr>client := ?c\<rparr>)" by (rule promise_inv_cong [OF assms]) simp_all
  from promise_inv_resolve [OF this, of "closed_response m" "[]" "item_seq item"]
  have "promise_inv (s\<lparr>client := resolve (item_seq item) (closed_response m) ?c\<rparr>)" by auto
  from promise_inv_cong(1) [OF this, of "client_write_handler ec (client s)"]
  show ?thesis using im by (simp add: client_write_handler_def)
next
  case False
  then show ?thesis
    by (intro promise_inv_cong [OF assms])
      (auto simp: client_write_handler_def Let_def split: option.splits ec.splits)
qed

lemma promise_inv_header:
  assumes "promise_inv s"
  shows "promise_inv (s\<lparr>client := client_header_handler ec buf (client s)\<rparr>)"
proof -
  let ?s = "s\<lparr>client := (client s)\<lparr>client_read := NoRead\<rparr>\<rparr>"
  have s: "promise_inv ?s" by (rule promise_inv_cong [OF assms]) simp_all
  from promise_inv_reject [OF s] promise_inv_cong(1) [OF s] show ?thesis
    by (auto simp: client_header_handler_def Let_def split: ec.splits res.splits)
qed

lemma promise_inv_body:
  assumes "promise_inv s"
  shows "promise_inv (s\<lparr>client := client_body_handler h ec buf (client s), received := received s @ response_in h ec buf\<rparr>)"
proof (cases "\<exists>resp. ec = Success \<and> deserialize_response buf = Ret resp")
  case True
  then obtain resp where r: "ec = Success" "deserialize_response buf = Ret resp" by blast
  let ?s = "s\<lparr>client := (client s)\<lparr>client_read := NoRead\<rparr>\<rparr>"
  have "promise_inv ?s" by (rule promise_inv_cong [OF assms]) simp_all
  from promise_inv_resolve [OF this, of resp "[(seq_id h, resp)]" "seq_id h"]
  have "promise_inv (s\<lparr>client := resolve (seq_id h) resp (client ?s), received := received s @ [(seq_id h, resp)]\<rparr>)"
    by simp
  from promise_inv_cong(2) [OF this, of "client_body_handler h ec buf (client s)" "[]"] show ?thesis
    using r by (simp add: client_body_handler_def response_in_def client_read_header_def Let_def)
next
  case False
  let ?s = "s\<lparr>client := (client s)\<lparr>client_read := NoRead\<rparr>\<rparr>"
  have s: "promise_inv ?s" by (rule promise_inv_cong [OF assms]) simp_all
  have "response_in h ec buf = []" using False by (auto simp: response_in_def split: ec.splits res.splits)
  moreover have "\<exists>m. client_body_handler h ec buf (client s) = reject_all_pending m (client ?s)"
    using False by (cases ec; cases "deserialize_response buf") (auto simp: client_body_handler_def Let_def)
  ultimately show ?thesis using promise_inv_reject [OF s] by auto
qed

lemma calls_mono: "cl_step s t \<Longrightarrow> calls (client s) \<le> calls (client t)"
  by (induction rule: cl_step.induct)
    (auto simp: connect_def resolve_handler_def connect_handler_def start_read_loop_def client_read_header_def
      fetch_seq_def add_pending_def push_item_def enter_client_write_def client_write_handler_def
      client_header_handler_def client_body_handler_def reject_all_pending_def close_socket_def stop_io_def
      Let_def split: ec.splits res.splits option.splits if_splits)

lemma promise_inv_step:
  assumes "cl_step s t" and "promise_inv s" and "calls (client t) \<le> 2 ^ 32"
  shows "promise_inv t"
  using assms
proof (induction rule: cl_step.induct)
  case (cl_fetch s k sq c req)
  then show ?case using promise_inv_fetch by blast
next
  case (cl_register s xs sq k req ys item)
  then show ?case using promise_inv_register by (simp add: add_pending_def)
next
  case (cl_written s ec)
  then show ?case using promise_inv_write by blast
next
  case (cl_header s ec buf)
  then show ?case using promise_inv_header by blast
next
  case (cl_body s h ec buf)
  then show ?case using promise_inv_body by blast
next
  case (cl_connected s ec)
  then show ?case
    by (intro promise_inv_cong)
      (auto simp: connect_handler_def start_read_loop_def client_read_header_def Let_def split: ec.splits)
qed (auto intro!: promise_inv_cong simp: connect_def resolve_handler_def push_item_def enter_client_write_def
    close_socket_def stop_io_def Let_def split: ec.splits if_splits)

lemma promise_inv_reach: "cl_reach s \<Longrightarrow> calls (client s) \<le> 2 ^ 32 \<Longrightarrow> promise_inv s"
proof (induction rule: cl_reach.induct)
  case cl_begin
  then show ?case by (simp add: promise_inv_def client_init_def new_client_def draft_ids_def seq_of_def)
next
  case (cl_next s t)
  then show ?case using calls_mono [OF cl_next.hyps(2)] promise_inv_step by force
qed

section \<open>Frames\<close>

lemma build_item_eq:
  "build_item sq req = Ret \<lparr>frame = header_layout (request_header sq (request_layout req)) @ request_layout req,
     item_seq = sq\<rparr>"
  by (simp add: build_item_def serialize_request_eq serialize_header_eq)

definition queue_inv :: "client_sys \<Rightarrow> bool" where
  "queue_inv s \<longleftrightarrow> clw.writer_inv (client s) \<and> handed s = clw.handed_over (client s)"

lemma queue_inv_cong:
  assumes "queue_inv s" "client_queue c' = client_queue (client s)" "client_write c' = client_write (client s)"
    "client_writing c' = client_writing (client s)" "client_starts c' = client_starts (client s)"
    "client_done c' = client_done (client s)" "handed t = handed s" "client t = c'"
  shows "queue_inv t"
  using assms by (simp add: queue_inv_def clw.writer_inv_def clw.handed_over_def)

lemma reader_queue_frame:
  assumes "c' = client_header_handler ec buf c \<or> c' = client_body_handler h ec buf c"
  shows "client_queue c' = client_queue c" "client_write c' = client_write c" "client_writing c' = client_writing c"
    "client_starts c' = client_starts c" "client_done c' = client_done c"
  using assms
  by (auto simp: client_header_handler_def client_body_handler_def reject_all_pending_def client_read_header_def
      Let_def split: ec.splits res.splits if_splits)

lemma queue_inv_step: "cl_step s t \<Longrightarrow> queue_inv s \<Longrightarrow> queue_inv t"
proof (induction rule: cl_step.induct)
  case (cl_push s xs item ys)
  then show ?case by (simp add: queue_inv_def clw.push_inv clw.handed_over_push)
next
  case (cl_start s)
  then show ?case by (simp add: queue_inv_def clw.enter_inv clw.handed_over_enter)
next
  case (cl_written s ec)
  then show ?case by (simp add: queue_inv_def clw.written_inv clw.handed_over_written)
next
  case (cl_header s ec buf)
  then show ?case
    using reader_queue_frame [of "client_header_handler ec buf (client s)" ec buf "client s"]
    by (intro queue_inv_cong [OF cl_header.prems]) auto
next
  case (cl_body s h ec buf)
  then show ?case
    using reader_queue_frame [of "client_body_handler h ec buf (client s)" ec buf "client s" h]
    by (intro queue_inv_cong [OF cl_body.prems]) auto
next
  case (cl_connected s ec)
  then show ?case
    by (intro queue_inv_cong [OF cl_connected.prems]) (auto simp: connect_handler_def start_read_loop_def client_read_header_def Let_def
        split: ec.splits)
qed (erule queue_inv_cong; auto simp: connect_def resolve_handler_def fetch_seq_def add_pending_def
    close_socket_def stop_io_def Let_def split: ec.splits if_splits)+

lemma queue_inv_reach: "cl_reach s \<Longrightarrow> queue_inv s"
  by (induction rule: cl_reach.induct)
    (auto simp: queue_inv_step, simp add: queue_inv_def client_init_def new_client_def clw.writer_inv_def
      clw.handed_over_def)

section \<open>A stream of responses\<close>

definition response_frame_ok :: "RpcHeader \<times> RpcResponse \<Rightarrow> bool" where
  "response_frame_ok = (\<lambda>(h, resp). response_fits resp \<and> frame_ok (h, response_layout resp))"

definition response_bytes :: "RpcHeader \<times> RpcResponse \<Rightarrow> string" where
  "response_bytes = (\<lambda>(h, resp). frame_bytes (h, response_layout resp))"

lemma response_layout_read: "response_fits resp \<Longrightarrow> deserialize_response (response_layout resp) = Ret resp"
  using resp.roundtrip [of resp] by (simp add: serialize_response_eq)

lemma client_feed_frame:
  assumes "client_read c = ReadHeader" and "response_frame_ok (h, resp)"
  shows "client_feed (response_bytes (h, resp) @ rest) c = client_feed rest (resolve (seq_id h) resp c)"
proof -
  let ?b = "response_layout resp"
  have dh: "deserialize_header (header_layout h) = Ret h"
    using deserialize_header_layout [of h "[]"] by simp
  have ok: "magic h = MAGIC" "unat (body_size h) = length ?b" "deserialize_response ?b = Ret resp"
    using assms(2) by (simp_all add: response_frame_ok_def frame_ok_def response_layout_read)
  have same: "(resolve (seq_id h) resp (c\<lparr>client_read := NoRead\<rparr>))\<lparr>client_read := ReadHeader\<rparr> =
      resolve (seq_id h) resp c"
    using assms(1) by (cases c) (simp add: resolve_def split: option.split)
  have "client_feed (header_layout h @ ?b @ rest) c = client_feed (?b @ rest) (c\<lparr>client_read := ReadBody h\<rparr>)"
    using assms(1) ok by (subst client_feed.simps) (simp add: client_header_handler_def dh Let_def)
  also have "\<dots> = client_feed rest (resolve (seq_id h) resp c)"
    using ok by (subst client_feed.simps)
      (simp add: client_body_handler_def client_read_header_def same Let_def)
  finally show ?thesis by (simp add: response_bytes_def frame_bytes_def)
qed

lemma client_feed_frames:
  assumes "client_read c = ReadHeader" and "\<forall>f \<in> set fs. response_frame_ok f"
  shows "client_feed (concat (map response_bytes fs) @ rest) c =
    client_feed rest (foldl (\<lambda>c (h, resp). resolve (seq_id h) resp c) c fs)"
  using assms
proof (induction fs arbitrary: c)
  case (Cons f fs)
  then show ?case
    using client_feed_frame [of c "fst f" "snd f" "concat (map response_bytes fs) @ rest"]
      Cons.IH [of "resolve (seq_id (fst f)) (snd f) c"] by (simp add: case_prod_beta)
qed simp

text \<open>Resolving the outstanding calls in any order gives each its own response and leaves none.\<close>

lemma foldl_resolve:
  assumes "umap_wf (pending c)" and "distinct (map (\<lambda>f. seq_id (fst f)) fs)"
    and "(\<lambda>f. seq_id (fst f)) ` set fs \<subseteq> dom (map_of (pending c))"
  shows "let c' = foldl (\<lambda>c (h, resp). resolve (seq_id h) resp c) c fs in
    resolved c' = resolved c @ map (\<lambda>(h, resp). (the (map_of (pending c) (seq_id h)), resp)) fs \<and>
    umap_wf (pending c') \<and>
    dom (map_of (pending c')) = dom (map_of (pending c)) - (\<lambda>f. seq_id (fst f)) ` set fs"
  using assms
proof (induction fs arbitrary: c)
  case (Cons f fs)
  obtain h resp where f: "f = (h, resp)" by (cases f)
  obtain k where k: "map_of (pending c) (seq_id h) = Some k" using Cons.prems(3) f by auto
  let ?c = "resolve (seq_id h) resp c"
  have c: "pending ?c = AList.delete (seq_id h) (pending c)" "resolved ?c = resolved c @ [(k, resp)]"
    by (simp_all add: resolve_def k)
  have wf: "umap_wf (pending ?c)" using Cons.prems(1) by (simp add: c um.wf_erase)
  have mo: "map_of (pending ?c) = (map_of (pending c))(seq_id h := None)"
    using Cons.prems(1) by (simp add: c um.find_erase)
  have new: "seq_id a \<noteq> seq_id h" if "(a, b) \<in> set fs" for a b using Cons.prems(2) f that by force
  have sub: "(\<lambda>f. seq_id (fst f)) ` set fs \<subseteq> dom (map_of (pending ?c))"
    using Cons.prems(3) new by (auto simp: mo)
  have same: "map (\<lambda>(h, resp). (the (map_of (pending ?c) (seq_id h)), resp)) fs =
      map (\<lambda>(h, resp). (the (map_of (pending c) (seq_id h)), resp)) fs"
    using new by (auto simp: mo)
  have dm: "dom (map_of (pending ?c)) = dom (map_of (pending c)) - {seq_id h}" by (simp add: mo)
  show ?case
    using Cons.IH [OF wf _ sub] Cons.prems(2) unfolding same dm by (auto simp: f k c(2) Let_def)
qed simp

lemma resolve_all_in_any_order:
  assumes "client_read c = ReadHeader" and "umap_wf (pending c)"
    and "\<forall>f \<in> set fs. response_frame_ok f"
    and "mset (map (\<lambda>(h, resp). seq_id h) fs) = mset (map fst (pending c))"
  shows "let c' = client_feed (concat (map response_bytes fs)) c in
    pending c' = [] \<and>
    resolved c' = resolved c @ map (\<lambda>(h, resp). (the (map_of (pending c) (seq_id h)), resp)) fs"
proof -
  let ?c = "foldl (\<lambda>c (h, resp). resolve (seq_id h) resp c) c fs"
  have eq: "(\<lambda>(h, resp). seq_id h) = (\<lambda>f. seq_id (fst f))" by auto
  have keys: "set (map fst (pending c)) = dom (map_of (pending c))" by (rule um.set_keys)
  have d: "distinct (map (\<lambda>f. seq_id (fst f)) fs)"
    using assms(2,4) unfolding eq umap_wf_def by (metis mset_eq_imp_distinct_iff)
  have s: "(\<lambda>f. seq_id (fst f)) ` set fs = dom (map_of (pending c))"
    using assms(4) unfolding eq keys [symmetric] by (metis list.set_map mset_eq_setD)
  have r: "resolved ?c = resolved c @ map (\<lambda>(h, resp). (the (map_of (pending c) (seq_id h)), resp)) fs"
      "dom (map_of (pending ?c)) = {}"
    using foldl_resolve [OF assms(2) d] s by (auto simp: Let_def)
  from r(2) have p: "pending ?c = []" unfolding dom_map_of_conv_image_fst by simp
  have "client_read (foldl (\<lambda>c (h, resp). resolve (seq_id h) resp c) c fs) = client_read c"
    by (induction fs arbitrary: c) auto
  then have rd: "client_read ?c = ReadHeader" using assms(1) by simp
  have "client_feed (concat (map response_bytes fs)) c = client_feed [] ?c"
    using client_feed_frames [OF assms(1,3), of "[]"] by simp
  also have "\<dots> = reject_all_pending ''End of file'' (?c\<lparr>client_read := NoRead\<rparr>)"
    using rd by (subst client_feed.simps) (simp add: client_header_handler_def eof_def)
  finally show ?thesis using r p by (simp add: reject_all_pending_def)
qed

section \<open>Properties\<close>

text \<open>
  C10: in every interleaving of calls, handlers and disconnection, as long as fewer than \<open>2 ^ 32\<close> calls have
  been made: no promise is fulfilled twice, the promise of each call is either fulfilled, waiting in the map under the
  call's own number or about to be put there, and a promise is fulfilled only with a response that arrived
  under its call's number or with the client's own connection error.
\<close>

theorem promises_resolved_once:
  assumes "cl_reach s" and "calls (client s) \<le> 2 ^ 32"
  shows "distinct (map fst (resolved (client s))) \<and>
    (\<forall>k < calls (client s). k \<in> fst ` set (resolved (client s)) \<or>
       map_of (pending (client s)) (word_of_nat (Suc k)) = Some k \<or> (\<exists>sq req. (sq, k, req) \<in> set (drafts s))) \<and>
    (\<forall>(k, resp) \<in> set (resolved (client s)).
       (word_of_nat (Suc k), resp) \<in> set (received s) \<or> (\<exists>m. resp = closed_response m))"
proof -
  have inv: "promise_inv s" using promise_inv_reach [OF assms] .
  let ?c = "client s"
  have parts: "mset (map fst (resolved ?c)) + mset (map snd (pending ?c)) + mset (draft_ids s) = mset [0..<calls ?c]"
    using inv by (simp add: promise_inv_def Let_def)
  have "distinct [0..<calls ?c]" by simp
  then have "count (mset [0..<calls ?c]) k \<le> 1" for k
    by (simp add: count_mset_set')
  then have "count (mset (map fst (resolved ?c))) k \<le> 1" for k
    unfolding parts [symmetric] count_union by (metis add_leD1)
  then have "distinct (map fst (resolved ?c))"
    by (rule count_le_one_distinct)
  moreover have "k \<in> fst ` set (resolved ?c) \<or> map_of (pending ?c) (seq_of k) = Some k \<or>
      (\<exists>sq req. (sq, k, req) \<in> set (drafts s))" if "k < calls ?c" for k
  proof -
    have "k \<in># mset [0..<calls ?c]" using that by simp
    then have "k \<in> set (map fst (resolved ?c)) \<or> k \<in> set (map snd (pending ?c)) \<or> k \<in> set (draft_ids s)"
      unfolding parts [symmetric] by (metis set_mset_mset union_iff)
    moreover have "map_of (pending ?c) (seq_of k) = Some k" if k: "k \<in> set (map snd (pending ?c))"
    proof -
      obtain sq where sq: "(sq, k) \<in> set (pending ?c)" using k by auto
      with inv have "sq = seq_of k" "umap_wf (pending ?c)" by (auto simp: promise_inv_def Let_def)
      with sq show ?thesis by (simp add: umap_wf_def)
    qed
    ultimately show ?thesis by (auto simp: draft_ids_def)
  qed
  ultimately show ?thesis using inv by (simp add: promise_inv_def Let_def seq_of_def)
qed

text \<open>
  The client never has two writes outstanding, and hands its frames to the socket in the order in
  which they entered the queue; a failed write does not stop the ones after it.
\<close>

theorem client_writes_in_order:
  assumes "cl_reach s"
  shows "client_starts (client s) + length (case client_write (client s) of None \<Rightarrow> [] | Some d \<Rightarrow> [d]) \<le> 1 \<and>
    handed s = map fst (client_done (client s)) @
      (case client_write (client s) of None \<Rightarrow> [] | Some d \<Rightarrow> [d]) @ client_queue (client s)"
  using queue_inv_reach [OF assms]
  by (auto simp: queue_inv_def clw.writer_inv_def clw.handed_over_def split: option.splits if_splits)

text \<open>
  C11: responses may arrive in any order. When frames of responses arrive for exactly the outstanding calls,
  in whatever order, each call's promise is fulfilled with the response that carries its number and none
  is left waiting.
\<close>

theorem responses_matched_in_any_order:
  assumes "client_read c = ReadHeader" and "umap_wf (pending c)"
    and "\<forall>f \<in> set fs. response_frame_ok f"
    and "mset (map (\<lambda>(h, resp). seq_id h) fs) = mset (map fst (pending c))"
  shows "let c' = client_feed (concat (map response_bytes fs)) c in
    pending c' = [] \<and>
    resolved c' = resolved c @ map (\<lambda>(h, resp). (the (map_of (pending c) (seq_id h)), resp)) fs"
  using assms by (rule resolve_all_in_any_order)

section \<open>Runs of one thread\<close>

definition request_item :: "u32 \<Rightarrow> RpcRequest \<Rightarrow> WriteItem" where
  "request_item sq req = \<lparr>frame = header_layout (request_header sq (request_layout req)) @ request_layout req,
     item_seq = sq\<rparr>"

lemma call_eq:
  "call service meth ps tmo c = Ret (calls c,
     enqueue_write (request_item (next_seq_id c)
         \<lparr>service_name = service, method_name = meth, timeout_ms = tmo, params = ps\<rparr>)
       (add_pending (next_seq_id c) (calls c) (c\<lparr>next_seq_id := next_seq_id c + 1, calls := Suc (calls c)\<rparr>)))"
  by (simp add: call_def fetch_seq_def build_item_eq request_item_def Let_def)

text \<open>A call that nobody interrupts is one of the interleavings.\<close>

lemma call_reach:
  assumes "cl_reach s" and "drafts s = []" and "ready s = []"
    and "call service meth ps tmo (client s) = Ret (k, c')"
  shows "\<exists>hs. cl_reach (s\<lparr>client := c', handed := handed s @ hs\<rparr>)"
proof -
  let ?c = "client s" and ?req = "\<lparr>service_name = service, method_name = meth, timeout_ms = tmo, params = ps\<rparr>"
  let ?sq = "next_seq_id ?c" and ?item = "request_item (next_seq_id ?c) ?req"
  let ?c1 = "?c\<lparr>next_seq_id := ?sq + 1, calls := Suc (calls ?c)\<rparr>"
  let ?c2 = "add_pending ?sq (calls ?c) ?c1"
  have "cl_reach (s\<lparr>client := ?c1, drafts := [(?sq, calls ?c, ?req)]\<rparr>)"
    using cl_next [OF assms(1) cl_fetch [of s "calls ?c" ?sq ?c1 ?req]] assms(2) by (simp add: fetch_seq_def)
  from cl_next [OF this cl_register [of _ "[]" ?sq "calls ?c" ?req "[]" ?item]]
  have "cl_reach (s\<lparr>client := ?c2, drafts := [], ready := [?item]\<rparr>)"
    using assms(3) by (simp add: build_item_eq request_item_def)
  from cl_next [OF this cl_push [of _ "[]" ?item "[]"]]
  have r3: "cl_reach (s\<lparr>client := push_item ?item ?c2, handed := handed s @ [?item]\<rparr>)"
    using assms(2,3) by (cases s) simp
  have c': "c' = (if client_writing ?c2 then push_item ?item ?c2 else enter_client_write (push_item ?item ?c2))"
    using assms(4) unfolding call_eq enqueue_write_def Let_def by (auto split: if_splits)
  show ?thesis
  proof (cases "client_writing ?c2")
    case True
    then show ?thesis using r3 c' by auto
  next
    case False
    then have "0 < client_starts (push_item ?item ?c2)" by (simp add: clw.push_laws)
    then have "cl_reach (s\<lparr>client := c', handed := handed s @ [?item]\<rparr>)"
      using cl_next [OF r3 cl_start] False c' by (cases s) simp
    then show ?thesis by blast
  qed
qed

text \<open>A client that has connected, one call it has written, and the answer.\<close>

definition online :: RpcClient where
  "online = new_client\<lparr>connected := True, client_open := True, io_thread := True,
     connect_result := Some (Ret ()), client_read := ReadHeader\<rparr>"

lemma online_reach: "cl_reach (client_init\<lparr>client := online\<rparr>)"
proof -
  have "cl_reach (client_init\<lparr>client := new_client\<lparr>connect_op := Resolving, io_thread := True\<rparr>\<rparr>)"
    by (rule cl_next [OF cl_begin cl_connect]) (simp add: client_init_def new_client_def connect_def)
  from cl_next [OF this cl_resolved [of _ Success]]
  have "cl_reach (client_init\<lparr>client := new_client\<lparr>connect_op := Connecting, io_thread := True\<rparr>\<rparr>)"
    by (simp add: new_client_def resolve_handler_def)
  from cl_next [OF this cl_connected [of _ Success]] show ?thesis
    by (simp add: new_client_def connect_handler_def start_read_loop_def client_read_header_def online_def)
qed

definition after_call :: "RpcClient \<Rightarrow> RpcClient" where
  "after_call c = (case call ''PingService'' ''Ping'' [] 5000 c of Ret (k, c') \<Rightarrow> c' | _ \<Rightarrow> c)"

lemma after_call_reach:
  assumes "cl_reach (client_init\<lparr>client := c\<rparr>)"
  obtains hs where "cl_reach (client_init\<lparr>client := after_call c, handed := hs\<rparr>)"
  using call_reach [OF assms] that by (fastforce simp: after_call_def call_eq client_init_def)

definition pong_header :: RpcHeader where
  "pong_header = response_header (request_header 1 []) pong_response (response_layout pong_response)"

definition one_call :: RpcClient where
  "one_call = after_call online"

lemmas one_call_eval = one_call_def after_call_def call_eq enqueue_write_def push_item_def enter_client_write_def
  client_do_write_def add_pending_def online_def new_client_def Let_def

lemma one_call_fields: "pending one_call = [(1, 0)]" "resolved one_call = []" "client_read one_call = ReadHeader"
  "calls one_call = 1" "client_write one_call = Some (request_item 1 ping_request)" "client_done one_call = []"
  "client_queue one_call = []" "client_starts one_call = 0" "\<not> client_stopped one_call"
  by (simp_all add: one_call_eval ping_request_def)

theorem promises_resolved_once_witness:
  "\<exists>hs. cl_reach (client_init\<lparr>client := one_call, handed := hs\<rparr>) \<and> calls one_call \<le> 2 ^ 32 \<and>
     distinct (map fst (resolved one_call))"
proof -
  obtain hs where "cl_reach (client_init\<lparr>client := one_call, handed := hs\<rparr>)"
    using after_call_reach [OF online_reach] unfolding one_call_def by blast
  then show ?thesis
    using promises_resolved_once [of "client_init\<lparr>client := one_call, handed := hs\<rparr>"] one_call_fields(4) by auto
qed

theorem client_writes_in_order_witness:
  "\<exists>hs. cl_reach (client_init\<lparr>client := one_call, handed := hs\<rparr>) \<and> hs = [request_item 1 ping_request]"
proof -
  obtain hs where "cl_reach (client_init\<lparr>client := one_call, handed := hs\<rparr>)"
    using after_call_reach [OF online_reach] unfolding one_call_def by blast
  then show ?thesis
    using client_writes_in_order [of "client_init\<lparr>client := one_call, handed := hs\<rparr>"] one_call_fields by auto
qed

theorem responses_matched_in_any_order_witness:
  "resolved (client_feed (response_bytes (pong_header, pong_response)) one_call) = [(0, pong_response)]"
proof -
  have "response_frame_ok (pong_header, pong_response)" "seq_id pong_header = 1"
    by (simp_all add: response_frame_ok_def pong_header_def pong_response_def response_header_def response_fits_def
        frame_ok_def response_layout_def unat_of_nat take_bit_eq_mod request_header_def)
  then show ?thesis
    using responses_matched_in_any_order [of one_call "[(pong_header, pong_response)]"] one_call_fields
    by (simp add: umap_wf_def Let_def)
qed

section \<open>Calls after the connection was lost\<close>

text \<open>
  Nothing is reading any more, nothing will, and no frame of call \<open>k\<close> is on its way to a write that could
  still fail.
\<close>

definition abandoned :: "nat \<Rightarrow> client_sys \<Rightarrow> bool" where
  "abandoned k s \<longleftrightarrow> (let c = client s in
     client_read c = NoRead \<and> (client_stopped c \<or> io_thread c \<and> connect_op c = NotConnecting) \<and>
     k < calls c \<and> k \<notin> fst ` set (resolved c) \<and>
     (\<forall>item \<in> set (ready s) \<union> set (client_queue c) \<union> set_option (client_write c). item_seq item \<noteq> seq_of k) \<and>
     (\<forall>(sq, i, req) \<in> set (drafts s). sq \<noteq> seq_of k))"

lemma abandoned_cong:
  assumes "abandoned k s" "client_read c' = NoRead"
    "client_stopped c' \<or> io_thread c' \<and> connect_op c' = NotConnecting"
    "calls c' = calls (client s)" "resolved c' = resolved (client s)"
    "client_queue c' = client_queue (client s)" "client_write c' = client_write (client s)"
  shows "abandoned k (s\<lparr>client := c'\<rparr>)"
  using assms by (simp add: abandoned_def Let_def)

lemma abandoned_write:
  assumes "abandoned k s" and inv: "promise_inv s"
  shows "abandoned k (s\<lparr>client := client_write_handler ec (client s)\<rparr>)"
proof (cases "client_write (client s)")
  case None
  then show ?thesis
    using assms(1) by (auto simp: abandoned_def client_write_handler_def client_do_write_def Let_def split: list.splits)
next
  case (Some item)
  have "item_seq item \<noteq> seq_of k" using assms(1) Some by (auto simp: abandoned_def Let_def)
  moreover have "sq = seq_of i" if "map_of (pending (client s)) sq = Some i" for sq i
    using inv map_of_SomeD [OF that] by (auto simp: promise_inv_def Let_def)
  ultimately have "i \<noteq> k" if "map_of (pending (client s)) (item_seq item) = Some i" for i using that by auto
  then show ?thesis
    using assms(1) Some
    by (auto simp: abandoned_def client_write_handler_def client_do_write_def resolve_def Let_def
        split: list.splits ec.splits option.splits)
qed

lemma abandoned_step:
  assumes "cl_step s t" and "abandoned k s" and "promise_inv s" and "calls (client t) \<le> 2 ^ 32"
  shows "abandoned k t"
  using assms
proof (induction rule: cl_step.induct)
  case (cl_connect s c)
  then show ?case by (intro abandoned_cong) (auto simp: connect_def abandoned_def Let_def split: if_splits)
next
  case (cl_fetch s i sq c req)
  have "calls (client s) < 2 ^ 32" using cl_fetch by (auto simp: fetch_seq_def)
  moreover have "k < calls (client s)" using cl_fetch.prems by (simp add: abandoned_def Let_def)
  ultimately have "seq_of (calls (client s)) \<noteq> seq_of k" using seq_of_inject [of k "calls (client s)"] by force
  moreover have "sq = seq_of (calls (client s))"
    using cl_fetch by (auto simp: fetch_seq_def promise_inv_def Let_def)
  ultimately show ?case using cl_fetch by (auto simp: abandoned_def fetch_seq_def Let_def)
next
  case (cl_register s xs sq i req ys item)
  then show ?case by (auto simp: abandoned_def add_pending_def build_item_eq Let_def)
next
  case (cl_push s xs item ys)
  then show ?case by (auto simp: abandoned_def push_item_def Let_def)
next
  case (cl_start s)
  then show ?case
    by (auto simp: abandoned_def enter_client_write_def client_do_write_def Let_def split: list.splits)
next
  case (cl_written s ec)
  then show ?case using abandoned_write by blast
qed (auto simp: abandoned_def close_socket_def stop_io_def Let_def)

lemma abandoned_run:
  assumes "rtranclp cl_step s t" and "cl_reach s" and "abandoned k s" and "calls (client t) \<le> 2 ^ 32"
  shows "abandoned k t"
proof -
  have "cl_reach t \<and> (calls (client t) \<le> 2 ^ 32 \<longrightarrow> abandoned k t)"
    using assms(1)
  proof (induction rule: rtranclp_induct)
    case (step t u)
    then have "cl_reach u" by (blast intro: cl_next)
    moreover have "abandoned k u" if "calls (client u) \<le> 2 ^ 32"
      using step calls_mono [OF step.hyps(2)] promise_inv_reach [of t] abandoned_step that by (meson order_trans)
    ultimately show ?case by blast
  qed (use assms in blast)
  then show ?thesis using assms(4) by blast
qed

definition hung :: client_sys where
  "hung = client_init\<lparr>client := client_write_handler Success (after_call (online\<lparr>client_read := NoRead\<rparr>)),
     handed := [request_item 1 ping_request]\<rparr>"

lemma hung_fields:
  "pending (client hung) = [(1, 0)]" "connected (client hung)" "calls (client hung) = 1" "abandoned 0 hung"
  by (simp_all add: hung_def abandoned_def client_write_handler_def one_call_eval client_init_def ping_request_def
      request_item_def seq_of_def)

lemma hung_reach: "cl_reach hung"
proof -
  have "cl_reach (client_init\<lparr>client := online\<lparr>client_read := NoRead\<rparr>\<rparr>)"
    using cl_next [OF online_reach cl_header [of _ eof "[]"]]
    by (simp add: online_def new_client_def client_header_handler_def eof_def reject_all_pending_def)
  then obtain hs where hs: "cl_reach (client_init\<lparr>client := after_call (online\<lparr>client_read := NoRead\<rparr>), handed := hs\<rparr>)"
    using after_call_reach by blast
  have "hs = [request_item 1 ping_request]"
    using queue_inv_reach [OF hs]
    by (simp add: queue_inv_def clw.handed_over_def one_call_eval ping_request_def)
  with cl_next [OF hs cl_written [of _ Success]] show ?thesis
    by (simp add: hung_def one_call_eval client_init_def)
qed



end
