(* ===== verification/Rpc_System.thy ===== *)
theory Rpc_System
  imports Rpc_Client
begin

text \<open>
  Client, connection and server together: a series of calls made on one client, the bytes they put on the
  wire, what the server's connection delivers from them, the responses of the server, and the client's reading loop
  on the response frames. The root theory states the round trip over these definitions.
\<close>

section \<open>Calls in a row\<close>

fun call_all :: "RpcRequest list \<Rightarrow> RpcClient \<Rightarrow> RpcClient res" where
  "call_all [] c = Ret c"
| "call_all (r # rs) c =
     bindR (call (service_name r) (method_name r) (params r) (timeout_ms r) c) (\<lambda>(k, c'). call_all rs c')"

text \<open>The frames a client has handed over, sent or not.\<close>

definition sent_frames :: "RpcClient \<Rightarrow> string list" where
  "sent_frames c = map frame (map fst (client_done c) @
     (case client_write c of None \<Rightarrow> [] | Some i \<Rightarrow> [i]) @ client_queue c)"

lemma sent_frames_eq: "sent_frames c = map frame (clw.handed_over c)"
  by (simp add: sent_frames_def clw.handed_over_def)

definition calling :: "nat \<Rightarrow> RpcClient \<Rightarrow> bool" where
  "calling n c \<longleftrightarrow> clw.writer_inv c \<and> client_starts c = 0 \<and> next_seq_id c = seq_of n \<and> calls c = n \<and>
     client_read c = ReadHeader \<and> resolved c = [] \<and> pending c = map (\<lambda>k. (seq_of k, k)) [0..<n]"

lemma enqueue_write_idle:
  assumes "clw.writer_inv c" and "client_starts c = 0"
  shows "clw.writer_inv (enqueue_write item c)" "client_starts (enqueue_write item c) = 0"
    "clw.handed_over (enqueue_write item c) = clw.handed_over c @ [item]"
proof -
  let ?c = "push_item item c"
  have inv: "clw.writer_inv ?c" using assms(1) by (rule clw.push_inv)
  have st: "client_starts ?c = (if client_writing c then 0 else 1)" using assms(2) by (simp add: clw.push_laws)
  show "clw.writer_inv (enqueue_write item c)" "client_starts (enqueue_write item c) = 0"
    "clw.handed_over (enqueue_write item c) = clw.handed_over c @ [item]"
    using inv st by (auto simp: enqueue_write_def clw.enter_inv clw.enter_laws clw.handed_over_enter
        clw.handed_over_push Let_def)
qed

lemma enqueue_write_frame [simp]:
  "pending (enqueue_write item c) = pending c" "resolved (enqueue_write item c) = resolved c"
  "calls (enqueue_write item c) = calls c" "next_seq_id (enqueue_write item c) = next_seq_id c"
  "client_read (enqueue_write item c) = client_read c"
  by (auto simp: enqueue_write_def client_write_defs split: list.splits)

lemma calling_call:
  assumes "calling n c" and "n < 2 ^ 32"
  obtains c' where "call (service_name r) (method_name r) (params r) (timeout_ms r) c = Ret (n, c')"
    and "calling (Suc n) c'" and "clw.handed_over c' = clw.handed_over c @ [request_item (seq_of n) r]"
proof -
  let ?c1 = "c\<lparr>next_seq_id := next_seq_id c + 1, calls := Suc (calls c)\<rparr>"
  let ?c2 = "add_pending (next_seq_id c) (calls c) ?c1"
  let ?c' = "enqueue_write (request_item (next_seq_id c) r) ?c2"
  have c: "clw.writer_inv c" "client_starts c = 0" "next_seq_id c = seq_of n" "calls c = n"
      "client_read c = ReadHeader" "resolved c = []" "pending c = map (\<lambda>k. (seq_of k, k)) [0..<n]"
    using assms(1) by (auto simp: calling_def)
  have w2: "clw.writer_inv ?c2" "client_starts ?c2 = 0" "clw.handed_over ?c2 = clw.handed_over c"
    using c(1,2) by (simp_all add: add_pending_def clw.writer_inv_def clw.handed_over_def)
  have "seq_of n \<notin> seq_of ` {0..<n}"
  proof
    assume "seq_of n \<in> seq_of ` {0..<n}"
    then obtain k where "k < n" "seq_of n = seq_of k" by auto
    then show False using seq_of_inject [of n k] assms(2) by simp
  qed
  then have "map_of (pending c) (seq_of n) = None" by (simp add: c(7) map_of_eq_None_iff image_image)
  then have p2: "pending ?c2 = map (\<lambda>k. (seq_of k, k)) [0..<Suc n]"
    using c(3,4,7) update_absent [of "pending c" "seq_of n" n] by (simp add: add_pending_def)
  have eq: "\<lparr>service_name = service_name r, method_name = method_name r, timeout_ms = timeout_ms r, params = params r\<rparr> = r"
    by (cases r) simp
  have "call (service_name r) (method_name r) (params r) (timeout_ms r) c = Ret (n, ?c')"
    by (simp only: call_eq eq c(4))
  moreover have "calling (Suc n) ?c'"
    using enqueue_write_idle(1,2) [OF w2(1,2)] p2 c
    by (simp add: calling_def) (simp add: add_pending_def seq_of_def)
  moreover have "clw.handed_over ?c' = clw.handed_over c @ [request_item (seq_of n) r]"
    using enqueue_write_idle(3) [OF w2(1,2)] w2(3) c(3) by simp
  ultimately show thesis by (rule that)
qed

lemma call_all_calling:
  assumes "calling n c" and "n + length rs \<le> 2 ^ 32"
  shows "\<exists>c'. call_all rs c = Ret c' \<and> calling (n + length rs) c' \<and>
    clw.handed_over c' = clw.handed_over c @ map (\<lambda>(k, r). request_item (seq_of k) r) (zip [n..<n + length rs] rs)"
  using assms
proof (induction rs arbitrary: n c)
  case (Cons r rs)
  obtain c1 where c1: "call (service_name r) (method_name r) (params r) (timeout_ms r) c = Ret (n, c1)"
      "calling (Suc n) c1" "clw.handed_over c1 = clw.handed_over c @ [request_item (seq_of n) r]"
    using calling_call [OF Cons.prems(1), of r] Cons.prems(2) by auto
  obtain c' where "call_all rs c1 = Ret c'" "calling (Suc n + length rs) c'"
      "clw.handed_over c' = clw.handed_over c1 @
         map (\<lambda>(k, r). request_item (seq_of k) r) (zip [Suc n..<Suc n + length rs] rs)"
    using Cons.IH [OF c1(2)] Cons.prems(2) by auto
  then show ?case using c1 by (auto simp: upt_conv_Cons simp del: upt_Suc)
qed simp

lemma calling_online: "calling 0 online"
  by (simp add: calling_def online_def new_client_def clw.writer_inv_def seq_of_def)

section \<open>The server's side\<close>

text \<open>The messages a new connection of the server delivers from a byte stream, and its replies to them.\<close>

definition delivered :: "string \<Rightarrow> (RpcHeader \<times> string) list" where
  "delivered input = concat (map message_of
     (snd (conn_feed input (start_read True True (new_connection\<lparr>conn_id := 1\<rparr>)))))"

definition reply :: "'w ServiceManager \<Rightarrow> 'w \<Rightarrow> RpcHeader \<times> string \<Rightarrow> (RpcHeader \<times> RpcResponse) list" where
  "reply m w = (\<lambda>(h, body).
     case fst (process_request m h body w) of
       Ret resp \<Rightarrow> [(response_header h resp (response_layout resp), resp)]
     | _ \<Rightarrow> [])"

lemma delivered_frames:
  assumes "\<forall>f \<in> set fs. frame_ok f"
  shows "delivered (concat (map frame_bytes fs)) = fs"
proof -
  let ?c = "start_read True True (new_connection\<lparr>conn_id := 1\<rparr>)"
  have c: "read_op ?c = ReadHeader" "on_message ?c"
    by (simp_all add: start_read_def do_read_header_def)
  obtain hb bb where f: "conn_feed (concat (map frame_bytes fs) @ []) ?c =
    (let q = conn_feed [] (?c\<lparr>header_buf := hb, body_buf := bb\<rparr>)
     in (fst q, map (\<lambda>(h, b). OnMessage h b) fs @ snd q))"
    using feed_frames [OF c assms, of "[]"] by blast
  have "concat (map message_of (snd (conn_feed [] (?c\<lparr>header_buf := hb, body_buf := bb\<rparr>)))) = []"
    using c(1) by (subst conn_feed.simps) (simp add: header_handler_def eof_def close_once_def Let_def)
  moreover have "concat (map message_of (map (\<lambda>(h, b). OnMessage h b) fs)) = fs"
    by (induction fs) auto
  ultimately show ?thesis using f by (simp add: delivered_def Let_def)
qed

definition request_frame :: "nat \<Rightarrow> RpcRequest \<Rightarrow> RpcHeader \<times> string" where
  "request_frame k r = (request_header (seq_of k) (request_layout r), request_layout r)"

lemma frame_request_item: "frame (request_item (seq_of k) r) = frame_bytes (request_frame k r)"
  by (simp add: request_item_def request_frame_def frame_bytes_def)

lemma request_frame_ok: "length (request_layout r) < 2 ^ 32 \<Longrightarrow> frame_ok (request_frame k r)"
  by (simp add: request_frame_def frame_ok_def request_header_def unat_of_nat take_bit_eq_mod del: length_layout)

text \<open>What is needed of a request and of the server's answer to it for the length fields to carry them.\<close>

definition carries :: "'w ServiceManager \<Rightarrow> 'w \<Rightarrow> RpcRequest \<Rightarrow> RpcResponse \<Rightarrow> bool" where
  "carries m w r resp \<longleftrightarrow> length (request_layout r) < 2 ^ 32 \<and> response_fits resp \<and>
     length (response_layout resp) < 2 ^ 32 \<and>
     (\<forall>k. fst (process_request m (fst (request_frame k r)) (snd (request_frame k r)) w) = Ret resp)"

lemma reply_request:
  assumes "carries m w r resp"
  shows "reply m w (request_frame k r) =
      [(response_header (fst (request_frame k r)) resp (response_layout resp), resp)]"
    and "response_frame_ok (response_header (fst (request_frame k r)) resp (response_layout resp), resp)"
    and "seq_id (response_header (fst (request_frame k r)) resp (response_layout resp)) = seq_of k"
  using assms
  by (simp_all add: reply_def case_prod_beta carries_def response_frame_ok_def frame_ok_def response_header_def
      request_frame_def request_header_def unat_of_nat take_bit_eq_mod del: length_layout)


section \<open>A ping\<close>

lemma ping_carries: "carries (ping_manager (\<lambda>n. n)) 3 ping_request pong_response"
proof -
  have "deserialize_request (request_layout ping_request) = Ret ping_request"
    using ping_body_read by (simp add: ping_body_def)
  then have "fst (process_request (ping_manager (\<lambda>n. n)) h (request_layout ping_request) 3) = Ret pong_response"
    if "msg_type h = msg_type_code REQUEST" for h
    using that
    by (simp add: process_request_def process_request_via_def dispatch_def ping_request_def PingService_def
        ping_handle_def pong_response_def empty_response_def)
  then show ?thesis
    by (simp add: carries_def request_frame_def request_header_def)
      (simp add: ping_request_def pong_response_def response_fits_def)
qed

end
