(* ===== verification/Server_Runs.thy ===== *)
theory Server_Runs
  imports Rpc_Server
begin

text \<open>
  The server of \<^verbatim>\<open>src/core/rpc_service.cpp\<close> at work with its pool: connections accepted and lost, frames and garbage
  arriving, reads and writes that fail, the statements of the workers, \<^verbatim>\<open>stop\<close> and the destructor of the pool, in any order. A worker
  processes a request and hands its response to the connection in one step; the interleavings inside \<^verbatim>\<open>send\<close> are
  those of \<^verbatim>\<open>Connection\<close>.
\<close>

section \<open>Steps\<close>

text \<open>
  A completion handler of connection \<open>r\<close> with the messages it delivers. An exception that leaves \<^verbatim>\<open>on_message\<close> leaves
  \<^verbatim>\<open>io_context::run\<close> and ends the process: \<^const>\<open>None\<close>.
\<close>

fun deliver :: "'a manager \<Rightarrow> nat \<Rightarrow> (RpcHeader \<times> string) list \<Rightarrow> 'a RpcServer_scheme \<Rightarrow> 'a RpcServer_scheme option" where
  "deliver m r [] s = Some s"
| "deliver m r ((h, b) # ms) s =
     (case server_on_message m h b r s of (Ret _, s') \<Rightarrow> deliver m r ms s' | _ \<Rightarrow> None)"

definition serve ::
    "'a manager \<Rightarrow> nat \<Rightarrow> (Connection \<Rightarrow> Connection \<times> conn_effect list) \<Rightarrow> 'a RpcServer_scheme \<Rightarrow>
     'a RpcServer_scheme option" where
  "serve m r f s =
     (let (mc, ms) = run_handler r f (cycle s) in deliver m r ms (s\<lparr>cycle := mc\<rparr>))"

text \<open>\<open>io\<close> says for which connections a read or write may succeed with bytes of the environment's choice.\<close>

inductive sv_step :: "'a manager \<Rightarrow> (nat \<Rightarrow> bool) \<Rightarrow> 'a RpcServer_scheme \<Rightarrow> 'a RpcServer_scheme \<Rightarrow> bool" for m io where
  sv_accept: "accept_pending (cycle s) \<Longrightarrow> sv_step m io s (s\<lparr>cycle := accept_handler ec (cycle s)\<rparr>)"
| sv_header: "store (cycle s) r = Some c \<Longrightarrow> read_op c = ReadHeader \<Longrightarrow> io r \<or> ec \<noteq> Success \<Longrightarrow>
    serve m r (header_handler ec buf) s = Some s' \<Longrightarrow> sv_step m io s s'"
| sv_body: "store (cycle s) r = Some c \<Longrightarrow> read_op c = ReadBody h \<Longrightarrow> io r \<or> ec \<noteq> Success \<Longrightarrow>
    serve m r (body_handler h ec buf) s = Some s' \<Longrightarrow> sv_step m io s s'"
| sv_write: "store (cycle s) r = Some c \<Longrightarrow> write_op c \<noteq> None \<Longrightarrow> io r \<Longrightarrow>
    serve m r (write_handler ec) s = Some s' \<Longrightarrow> sv_step m io s s'"
| sv_worker: "server_worker m i s = Some s' \<Longrightarrow> sv_step m io s s'"
| sv_pool_stop: "sv_step m io s (s\<lparr>thread_pool := map_option request_stop (thread_pool s)\<rparr>)"
| sv_stop: "sv_step m io s (server_stop s)"

definition sv_start :: "nat \<Rightarrow> nat \<Rightarrow> 'a RpcServer_scheme \<Rightarrow> bool" where
  "sv_start n hw s \<longleftrightarrow> (\<exists>s0. cycle s0 = message_cycle0 \<and> thread_pool s0 = Some (new_pool n hw) \<and>
     server_start Success s0 = (Ret (), s))"

inductive sv_reach :: "'a manager \<Rightarrow> nat \<Rightarrow> nat \<Rightarrow> 'a RpcServer_scheme \<Rightarrow> bool" for m n hw where
  sv_init: "sv_start n hw s \<Longrightarrow> sv_reach m n hw s"
| sv_next: "sv_reach m n hw s \<Longrightarrow> sv_step m (\<lambda>_. True) s s' \<Longrightarrow> sv_reach m n hw s'"

section \<open>What a connection holds\<close>

text \<open>
  \<open>conn_holds fs c\<close>: the frames handed to the connection, on the wire, in flight or queued, are among \<open>fs\<close>, and while it
  is not closed they are exactly \<open>fs\<close>, up to order.
\<close>

definition tidy :: "Connection \<Rightarrow> bool" where
  "tidy c \<longleftrightarrow> (write_op c \<noteq> None \<or> write_queue c \<noteq> [] \<longrightarrow> writing c) \<and> (writing c \<longrightarrow> closed c \<or> write_op c \<noteq> None)"

definition conn_holds :: "string multiset \<Rightarrow> Connection \<Rightarrow> bool" where
  "conn_holds fs c \<longleftrightarrow> tidy c \<and> mset (cw.handed_over c) \<subseteq># fs \<and> (\<not> closed c \<longrightarrow> mset (cw.handed_over c) = fs)"

lemma conn_holds_cong:
  assumes "write_queue c' = write_queue c" "write_op c' = write_op c" "writing c' = writing c" "wire c' = wire c"
    "closed c \<Longrightarrow> closed c'" "conn_holds fs c"
  shows "conn_holds fs c'"
  using assms by (auto simp: conn_holds_def tidy_def cw.handed_over_def)

lemma conn_holds_close: "conn_holds fs c \<Longrightarrow> conn_holds fs (close c)"
  by (rule conn_holds_cong) simp_all

lemma conn_holds_read:
  assumes "conn_holds fs c" and "c' = fst (header_handler ec buf c) \<or> c' = fst (body_handler h ec buf c)"
  shows "conn_holds fs c'"
  using assms(1) by (rule conn_holds_cong [rotated -1]) (rule reader_writer_frame [OF assms(2)], assumption?)+

lemma conn_holds_write:
  assumes "conn_holds fs c" and "write_op c \<noteq> None"
  shows "conn_holds fs (fst (write_handler ec c))"
proof (cases ec)
  case Success
  have "tidy (fst (write_handler Success c))"
    using assms by (auto simp: conn_holds_def tidy_def conn_write_defs split: list.splits)
  moreover have "closed (fst (write_handler Success c)) = closed c"
    by (simp add: conn_write_defs split: list.split)
  ultimately show ?thesis using assms Success by (simp add: conn_holds_def cw.handed_over_written)
next
  case (Failure e)
  have "mset (cw.handed_over (fst (write_handler ec c))) \<subseteq># mset (cw.handed_over c)"
    by (simp add: Failure write_handler_def cw.handed_over_def subset_mset.add_increasing2 split: option.split)
  then show ?thesis
    using assms by (auto simp: conn_holds_def tidy_def Failure write_handler_def intro: subset_mset.order_trans)
qed

lemma conn_holds_send:
  assumes "conn_holds fs c"
  obtains c' where "send h body c = Ret c'" "conn_holds (add_mset (header_layout h @ body) fs) c'"
    "read_op c' = read_op c" "wire c' = wire c" "on_message c' = on_message c"
proof (cases "closed c")
  case True
  then show thesis
    using assms that [of c] subset_mset.order_trans [OF _ subset_mset.add_increasing [of "{#header_layout h @ body#}" fs fs]]
    by (auto simp: send_def conn_holds_def)
next
  case False
  let ?d = "header_layout h @ body"
  let ?c' = "if writing c then enqueue_frame ?d c else enter_do_write (enqueue_frame ?d c)"
  have idle: "\<not> writing c \<Longrightarrow> write_op c = None \<and> write_queue c = []"
    using assms by (auto simp: conn_holds_def tidy_def)
  have "cw.handed_over ?c' = cw.handed_over c @ [?d]" "tidy ?c'" "closed ?c' = closed c" "read_op ?c' = read_op c"
    "wire ?c' = wire c" "on_message ?c' = on_message c"
    using idle assms
    by (auto simp: cw.handed_over_push) (auto simp: cw.handed_over_def tidy_def conn_holds_def conn_write_defs)
  moreover have "send h body c = Ret ?c'" using False by (simp add: send_def frame_of_eq Let_def)
  ultimately show thesis using that [of ?c'] assms by (simp add: conn_holds_def)
qed

section \<open>The answers given so far\<close>

text \<open>
  A log of the executed requests: each with the response it was answered with, or \<^const>\<open>None\<close> when the service threw something
  that is not caught.
\<close>

type_synonym answer_log = "(job \<times> RpcResponse option) list"

definition answer_frame :: "job \<Rightarrow> RpcResponse \<Rightarrow> string" where
  "answer_frame j resp =
     (case j of (h, body, r) \<Rightarrow>
        header_layout (response_header h resp (response_layout resp)) @ response_layout resp)"

fun frames_for :: "nat \<Rightarrow> answer_log \<Rightarrow> string multiset" where
  "frames_for r [] = {#}"
| "frames_for r ((j, a) # L) =
     (case a of Some resp \<Rightarrow> if snd (snd j) = r then {#answer_frame j resp#} else {#} | None \<Rightarrow> {#}) + frames_for r L"

lemma frames_for_append [simp]: "frames_for r (L @ L') = frames_for r L + frames_for r L'"
  by (induction L) auto

lemma in_frames_for:
  "d \<in># frames_for r L \<longleftrightarrow> (\<exists>h body resp. ((h, body, r), Some resp) \<in> set L \<and> d = answer_frame (h, body, r) resp)"
  by (induction L) (auto split: option.splits if_splits, blast)

definition is_answer :: "'a manager \<Rightarrow> RpcHeader \<Rightarrow> string \<Rightarrow> RpcResponse \<Rightarrow> bool" where
  "is_answer m h body resp \<longleftrightarrow> (\<exists>w w'. process_request m h body w = (Ret resp, w'))"

definition log_ok :: "'a manager \<Rightarrow> answer_log \<Rightarrow> bool" where
  "log_ok m L \<longleftrightarrow> (\<forall>((h, body, r), a) \<in> set L. case a of Some resp \<Rightarrow> is_answer m h body resp
     | None \<Rightarrow> (\<exists>w w' e. process_request m h body w = (Throw e, w')))"

definition sv_inv :: "'a manager \<Rightarrow> job ThreadPool \<Rightarrow> answer_log \<Rightarrow> 'a RpcServer_scheme \<Rightarrow> bool" where
  "sv_inv m p L s \<longleftrightarrow> thread_pool s = Some p \<and> pool_inv p \<and> workers p \<noteq> [] \<and>
     (\<forall>r \<ge> fresh (cycle s). store (cycle s) r = None) \<and>
     (\<forall>j \<in> set (accepted p). store (cycle s) (snd (snd j)) \<noteq> None) \<and>
     map fst L = executed p \<and> log_ok m L \<and>
     (\<forall>r c. store (cycle s) r = Some c \<longrightarrow> conn_holds (frames_for r L) c)"

lemma sv_invD:
  assumes "sv_inv m p L s"
  shows "thread_pool s = Some p" "pool_inv p" "workers p \<noteq> []"
    "\<And>r. r \<ge> fresh (cycle s) \<Longrightarrow> store (cycle s) r = None"
    "\<And>j. j \<in> set (accepted p) \<Longrightarrow> store (cycle s) (snd (snd j)) \<noteq> None"
    "map fst L = executed p" "log_ok m L"
    "\<And>r c. store (cycle s) r = Some c \<Longrightarrow> conn_holds (frames_for r L) c"
  using assms unfolding sv_inv_def by blast+

section \<open>Every step keeps the log\<close>

lemma foldl_close_cb_fields [simp]: "store (foldl close_cb mc es) = store mc"
proof (induction es arbitrary: mc)
  case (Cons e es)
  then show ?case by (cases e) auto
qed simp

lemma run_handler_effect:
  assumes "store mc r = Some c"
  shows "store (fst (run_handler r f mc)) = (store mc)(r \<mapsto> fst (f c))" "fresh (fst (run_handler r f mc)) = fresh mc"
    "snd (run_handler r f mc) = concat (map message_of (snd (f c)))"
  using assms by (simp_all add: run_handler_def case_prod_beta)

lemma sv_inv_cycle:
  assumes "sv_inv m p L s" and "fresh mc = fresh (cycle s)"
    and "\<And>r. store mc r = None \<longleftrightarrow> store (cycle s) r = None"
    and "\<And>r c. store mc r = Some c \<Longrightarrow> conn_holds (frames_for r L) c"
  shows "sv_inv m p L (s\<lparr>cycle := mc\<rparr>)"
  using assms unfolding sv_inv_def by simp

lemma sv_inv_pool:
  assumes "sv_inv m p L s" and "pool_inv p'" and "workers p' \<noteq> []" and "executed p' = executed p"
    and "\<And>j. j \<in> set (accepted p') \<Longrightarrow> store (cycle s) (snd (snd j)) \<noteq> None"
  shows "sv_inv m p' L (s\<lparr>thread_pool := Some p'\<rparr>)"
  using assms unfolding sv_inv_def by simp

lemma sv_inv_deliver:
  assumes "sv_inv m p L s" and "store (cycle s) r \<noteq> None" and "deliver m r ms s = Some s'"
  shows "\<exists>p'. sv_inv m p' L s' \<and> cycle s' = cycle s \<and> accepted p' = accepted p @ map (\<lambda>(h, b). (h, b, r)) ms"
  using assms
proof (induction ms arbitrary: s p)
  case (Cons x ms)
  obtain h b where x: "x = (h, b)" by force
  note p = sv_invD [OF Cons.prems(1)]
  obtain q where q: "enqueue (h, b, r) p = Ret q" "deliver m r ms (s\<lparr>thread_pool := Some q\<rparr>) = Some s'"
    using Cons.prems(3) p(1) x by (auto simp: server_on_message_def split: res.splits)
  have acc: "accepted q = accepted p @ [(h, b, r)]" "executed q = executed p" "workers q = workers p"
    using q(1) by (auto simp: enqueue_def split: if_splits)
  have "sv_inv m q L (s\<lparr>thread_pool := Some q\<rparr>)"
    using Cons.prems(2) p acc by (intro sv_inv_pool [OF Cons.prems(1) pool_inv_enqueue [OF q(1) p(2)]]) auto
  from Cons.IH [OF this _ q(2)] Cons.prems(2) obtain p' where
    "sv_inv m p' L s'" "cycle s' = cycle s" "accepted p' = accepted q @ map (\<lambda>(h, b). (h, b, r)) ms" by auto
  then show ?case using acc x by auto
qed auto

lemma sv_inv_serve:
  assumes "sv_inv m p L s" and c: "store (cycle s) r = Some c" and "conn_holds (frames_for r L) (fst (f c))"
    and "serve m r f s = Some s'"
  shows "\<exists>p'. sv_inv m p' L s' \<and> store (cycle s') = (store (cycle s))(r \<mapsto> fst (f c)) \<and> fresh (cycle s') = fresh (cycle s) \<and>
    accepted p' = accepted p @ map (\<lambda>(h, b). (h, b, r)) (concat (map message_of (snd (f c))))"
proof -
  let ?mc = "fst (run_handler r f (cycle s))" and ?ms = "snd (run_handler r f (cycle s))"
  note e = run_handler_effect [OF c, of f]
  have d: "deliver m r ?ms (s\<lparr>cycle := ?mc\<rparr>) = Some s'" using assms(4) by (simp add: serve_def case_prod_beta)
  have "sv_inv m p L (s\<lparr>cycle := ?mc\<rparr>)"
    using assms(1,3) c sv_invD(8) [OF assms(1)] by (intro sv_inv_cycle) (auto simp: e split: if_splits)
  from sv_inv_deliver [OF this _ d] e show ?thesis by auto
qed

lemma frames_for_none: "\<forall>j \<in> fst ` set L. snd (snd j) \<noteq> r \<Longrightarrow> frames_for r L = {#}"
  by (induction L) (auto split: option.splits)

lemma sv_inv_accept:
  assumes "sv_inv m p L s"
  shows "sv_inv m p L (s\<lparr>cycle := accept_handler ec (cycle s)\<rparr>)"
proof (cases ec)
  case Success
  note p = sv_invD [OF assms]
  have "fst ` set L = set (executed p)" using p(6) by (metis set_map)
  then have "frames_for (fresh (cycle s)) L = {#}"
    using p(4) [of "fresh (cycle s)"] p(5) executed_accepted [OF p(2)] by (intro frames_for_none) force
  moreover have "conn_holds {#} (start_read True True (new_connection\<lparr>conn_id := i\<rparr>))" for i
    by (simp add: conn_holds_def tidy_def start_read_def do_read_header_def new_connection_def cw.handed_over_def)
  ultimately show ?thesis
    using assms unfolding sv_inv_def Success by (auto simp: accept_handler_store)
next
  case (Failure e)
  then show ?thesis
    using assms unfolding sv_inv_def by (auto simp: accept_handler_def do_accept_def Let_def)
qed

lemma mc_stop_store: "store (mc_stop mc) r = store mc r \<or> store (mc_stop mc) r = map_option close (store mc r)"
  by (simp add: mc_stop_def Let_def close_all_store)

lemma sv_inv_stop:
  assumes "sv_inv m p L s"
  shows "sv_inv m p L (server_stop s)"
proof -
  have "sv_inv m p L (s\<lparr>cycle := mc_stop (cycle s)\<rparr>)"
  proof (rule sv_inv_cycle [OF assms])
    show "fresh (mc_stop (cycle s)) = fresh (cycle s)" by (simp add: mc_stop_def Let_def)
    show "store (mc_stop (cycle s)) r = None \<longleftrightarrow> store (cycle s) r = None" for r
      using mc_stop_store [of "cycle s" r] by auto
    show "conn_holds (frames_for r L) c" if "store (mc_stop (cycle s)) r = Some c" for r c
      using mc_stop_store [of "cycle s" r] that sv_invD(8) [OF assms, of r]
      by (cases "store (cycle s) r") (auto intro: conn_holds_close)
  qed
  then show ?thesis by (simp add: server_stop_def sv_inv_def)
qed
text \<open>What a step of a worker leaves alone: the connections' reading side and what they have written.\<close>

definition same_io :: "(nat \<rightharpoonup> Connection) \<Rightarrow> (nat \<rightharpoonup> Connection) \<Rightarrow> bool" where
  "same_io st st' \<longleftrightarrow> (\<forall>r. case st r of None \<Rightarrow> st' r = None
     | Some c \<Rightarrow> \<exists>c'. st' r = Some c' \<and> read_op c' = read_op c \<and> wire c' = wire c \<and> on_message c' = on_message c)"

lemma same_io_refl [simp]: "same_io st st"
  by (simp add: same_io_def split: option.split)

lemma same_io_update:
  "st r = Some c \<Longrightarrow> read_op c' = read_op c \<Longrightarrow> wire c' = wire c \<Longrightarrow> on_message c' = on_message c \<Longrightarrow>
   same_io st (st(r \<mapsto> c'))"
  by (auto simp: same_io_def split: option.split)

lemma sv_inv_process:
  assumes keep: "services_keep m" and inv: "sv_inv m p L s" and acc: "(h, body, r) \<in> set (accepted p)"
    and p': "pool_inv p'" "workers p' \<noteq> []" "accepted p' = accepted p" "executed p' = executed p @ [(h, body, r)]"
  shows "\<exists>a. sv_inv m p' (L @ [((h, body, r), a)]) (snd (process_job m (h, body, r) (s\<lparr>thread_pool := Some p'\<rparr>))) \<and>
    same_io (store (cycle s)) (store (cycle (snd (process_job m (h, body, r) (s\<lparr>thread_pool := Some p'\<rparr>)))))"
proof -
  let ?s = "s\<lparr>thread_pool := Some p'\<rparr>"
  note d = sv_invD [OF inv]
  obtain out s1 where o: "process_request m h body ?s = (out, s1)" by force
  have k: "out \<noteq> UB" "cycle s1 = cycle s" "thread_pool s1 = Some p'"
    using process_request_keeps [OF keep o] by simp_all
  obtain c where c: "store (cycle s) r = Some c" using d(5) [OF acc] by auto
  have ex: "map fst (L @ [((h, body, r), a)]) = executed p'" for a using d(6) p'(4) by simp
  show ?thesis
  proof (cases out)
    case (Throw e)
    have "log_ok m (L @ [((h, body, r), None)])" using d(7) o Throw by (auto simp: log_ok_def)
    then have "sv_inv m p' (L @ [((h, body, r), None)]) s1"
      using d p' k ex unfolding sv_inv_def by simp
    then show ?thesis using o Throw k by (intro exI [of _ None]) (simp add: process_job_def)
  next
    case (Ret resp)
    let ?h = "response_header h resp (response_layout resp)"
    obtain c' where c': "send ?h (response_layout resp) c = Ret c'"
        "conn_holds (add_mset (header_layout ?h @ response_layout resp) (frames_for r L)) c'"
        "read_op c' = read_op c" "wire c' = wire c" "on_message c' = on_message c"
      using conn_holds_send [OF d(8) [OF c]] .
    let ?s2 = "s1\<lparr>cycle := (cycle s1)\<lparr>store := (store (cycle s1))(r \<mapsto> c')\<rparr>\<rparr>"
    have job: "process_job m (h, body, r) ?s = (Ret (), ?s2)"
      using o Ret k c c'(1) by (simp add: process_job_def send_response_def serialize_response_eq)
    have "log_ok m (L @ [((h, body, r), Some resp)])" using d(7) o Ret by (auto simp: log_ok_def is_answer_def)
    moreover have "conn_holds (frames_for q (L @ [((h, body, r), Some resp)])) cq"
      if "((store (cycle s))(r \<mapsto> c')) q = Some cq" for q cq
      using that c'(2) d(8) [of q cq] by (auto simp: answer_frame_def split: if_splits)
    ultimately have "sv_inv m p' (L @ [((h, body, r), Some resp)]) ?s2"
      using d p' k ex c unfolding sv_inv_def by auto
    then show ?thesis
      using job k same_io_update [of "store (cycle s)" r c c', OF c c'(3-5)] by (intro exI [of _ "Some resp"]) simp
  qed (use k in simp)
qed

lemma sv_inv_worker:
  assumes keep: "services_keep m" and inv: "sv_inv m p L s" and w: "server_worker m i s = Some s'"
  shows "\<exists>p' L'. sv_inv m p' (L @ L') s' \<and> worker_loop i p = Some p' \<and> same_io (store (cycle s)) (store (cycle s'))"
proof -
  note d = sv_invD [OF inv]
  obtain p' where p': "worker_loop i p = Some p'"
    using w d(1) by (auto simp: server_worker_def split: option.splits)
  note eff = worker_loop_effect [OF p'] and fr = worker_loop_frame [OF p']
  have wk: "workers p' \<noteq> []" using eff(2,3) by auto
  have pi: "pool_inv p'" using pool_inv_worker [OF p' d(2)] .
  show ?thesis
  proof (cases "\<exists>j. workers p ! i = Entered j")
    case True
    then obtain h body r where j: "workers p ! i = Entered (h, body, r)" by auto
    have "(h, body, r) \<in> set (accepted p)" using in_hand_accepted [OF d(2) eff(3) j] .
    from sv_inv_process [OF keep inv this pi wk] fr eff(1) j
    obtain a where a: "sv_inv m p' (L @ [((h, body, r), a)]) (snd (process_job m (h, body, r) (s\<lparr>thread_pool := Some p'\<rparr>)))"
        "same_io (store (cycle s)) (store (cycle (snd (process_job m (h, body, r) (s\<lparr>thread_pool := Some p'\<rparr>)))))"
      by auto
    have "s' = snd (process_job m (h, body, r) (s\<lparr>thread_pool := Some p'\<rparr>))"
      using w d(1) p' j by (simp add: server_worker_def)
    with a p' show ?thesis by blast
  next
    case False
    then have "s' = s\<lparr>thread_pool := Some p'\<rparr>" "executed p' = executed p"
      using w d(1) p' eff(1) by (auto simp: server_worker_def Let_def split: worker.splits)
    moreover have "sv_inv m p' L (s\<lparr>thread_pool := Some p'\<rparr>)"
      using calculation(2) fr d(5) by (intro sv_inv_pool [OF inv pi wk]) auto
    ultimately show ?thesis using p' by (intro exI [of _ p'] exI [of _ "[]"]) simp
  qed
qed

lemma sv_inv_pool_stop:
  assumes "sv_inv m p L s"
  shows "sv_inv m (request_stop p) L (s\<lparr>thread_pool := map_option request_stop (thread_pool s)\<rparr>)"
proof -
  note d = sv_invD [OF assms]
  have "pool_inv (request_stop p)" using pool_inv_step [OF pool_stop d(2)] .
  from sv_inv_pool [OF assms this] d show ?thesis by (simp add: request_stop_def)
qed

lemma sv_inv_step:
  assumes "sv_step m io s s'" and "services_keep m" and "sv_inv m p L s"
  shows "\<exists>p' L'. sv_inv m p' (L @ L') s'"
  using assms
proof (induction rule: sv_step.induct)
  case (sv_accept s ec)
  then show ?case by (metis append_Nil2 sv_inv_accept)
next
  case (sv_header s r c ec buf s')
  then have "conn_holds (frames_for r L) (fst (header_handler ec buf c))"
    using conn_holds_read [of _ c] sv_invD(8) by blast
  then show ?case using sv_inv_serve sv_header by (metis append_Nil2)
next
  case (sv_body s r c h ec buf s')
  then have "conn_holds (frames_for r L) (fst (body_handler h ec buf c))"
    using conn_holds_read [of _ c] sv_invD(8) by blast
  then show ?case using sv_inv_serve sv_body by (metis append_Nil2)
next
  case (sv_write s r c ec s')
  then have "conn_holds (frames_for r L) (fst (write_handler ec c))"
    using conn_holds_write sv_invD(8) by blast
  then show ?case using sv_inv_serve sv_write by (metis append_Nil2)
next
  case (sv_worker i s s')
  then show ?case using sv_inv_worker by blast
next
  case (sv_pool_stop s)
  then show ?case using sv_inv_pool_stop by (metis append_Nil2)
next
  case (sv_stop s)
  then show ?case using sv_inv_stop by (metis append_Nil2)
qed

lemma sv_inv_start:
  assumes "sv_start n hw s"
  shows "sv_inv m (new_pool n hw) [] s"
proof -
  obtain s0 where "cycle s0 = message_cycle0" "thread_pool s0 = Some (new_pool n hw)" "server_start Success s0 = (Ret (), s)"
    using assms by (auto simp: sv_start_def)
  then have "store (cycle s) = Map.empty" "thread_pool s = Some (new_pool n hw)"
    by (auto simp: server_start_def start_listen_def do_accept_def mc_run_def message_cycle0_def Let_def)
  moreover have "workers (new_pool n hw) \<noteq> []" using thread_count_pos [of n hw] by (simp add: new_pool_def)
  ultimately show ?thesis
    by (simp add: sv_inv_def pool_inv_new log_ok_def) (simp add: new_pool_def)
qed

lemma sv_inv_reach: "sv_reach m n hw s \<Longrightarrow> services_keep m \<Longrightarrow> \<exists>p L. sv_inv m p L s"
proof (induction rule: sv_reach.induct)
  case (sv_init s)
  then show ?case using sv_inv_start by blast
next
  case (sv_next s s')
  then show ?case using sv_inv_step by blast
qed
section \<open>Properties\<close>

lemma frame_seq_answer [simp]: "frame_seq (answer_frame (h, body, r) resp) = seq_id h"
  by (simp add: answer_frame_def response_header_def)

lemma services_ok_answers:
  assumes "services_ok m" and "log_ok m L" and "(j, a) \<in> set L"
  shows "a \<noteq> None"
proof
  assume "a = None"
  with assms(2,3) obtain w w' e where "process_request m (fst j) (fst (snd j)) w = (Throw e, w')"
    by (fastforce simp: log_ok_def)
  moreover obtain resp s' where "process_request m (fst j) (fst (snd j)) w = (Ret resp, s')"
    using process_request_ok [OF assms(1)] .
  ultimately show False by simp
qed

lemma frames_for_seqs:
  assumes "\<And>j a. (j, a) \<in> set L \<Longrightarrow> a \<noteq> None"
  shows "image_mset frame_seq (frames_for r L) =
    mset (map (\<lambda>(h, body, q). seq_id h) (filter (\<lambda>(h, body, q). q = r) (map fst L)))"
  using assms
proof (induction L)
  case (Cons x L)
  obtain h body q a where x: "x = ((h, body, q), a)" by (metis prod.exhaust)
  moreover obtain resp where "a = Some resp" using Cons.prems [of "(h, body, q)" a] x by auto
  moreover have "image_mset frame_seq (frames_for r L) =
      mset (map (\<lambda>(h, body, q). seq_id h) (filter (\<lambda>(h, body, q). q = r) (map fst L)))"
    by (rule Cons.IH) (use Cons.prems in force)
  ultimately show ?case by (simp add: case_prod_beta')
qed simp


text \<open>A server with one worker that answers one ping.\<close>

abbreviation demo_mgr :: "unit manager" where
  "demo_mgr \<equiv> ping_manager connection_count"

definition srv0 :: RpcServer where
  "srv0 = snd (server_start Success (rpc_server0\<lparr>thread_pool := Some (new_pool 1 0)\<rparr>))"

definition conn1 :: Connection where
  "conn1 = start_read True True (new_connection\<lparr>conn_id := 1\<rparr>)"

definition conn2 :: Connection where
  "conn2 = fst (header_handler Success (header_layout (ping_header 9)) conn1)"

definition conn3 :: Connection where
  "conn3 = fst (body_handler (ping_header 9) Success ping_body conn2)"

definition with_conn :: "Connection \<Rightarrow> RpcServer \<Rightarrow> RpcServer" where
  "with_conn c s = s\<lparr>cycle := (cycle s)\<lparr>store := (store (cycle s))(0 \<mapsto> c)\<rparr>\<rparr>"

definition srv1 :: RpcServer where
  "srv1 = srv0\<lparr>cycle := accept_handler Success (cycle srv0)\<rparr>"

lemmas srv0_simps = srv0_def server_start_def start_listen_def mc_run_def do_accept_def rpc_server0_def
  message_cycle0_def Let_def

lemma srv1_reach: "sv_reach demo_mgr 1 0 srv1" "store (cycle srv1) 0 = Some conn1"
  "thread_pool srv1 = Some (new_pool 1 0)"
proof -
  have "sv_start 1 0 srv0"
    unfolding sv_start_def
    by (rule exI [of _ "rpc_server0\<lparr>thread_pool := Some (new_pool 1 0)\<rparr>"]) (simp add: srv0_simps)
  then have "sv_reach demo_mgr 1 0 srv0" by (rule sv_init)
  moreover have "sv_step demo_mgr (\<lambda>_. True) srv0 srv1"
    unfolding srv1_def by (rule sv_accept) (simp add: srv0_simps)
  ultimately show "sv_reach demo_mgr 1 0 srv1" by (rule sv_next)
  show "store (cycle srv1) 0 = Some conn1" "thread_pool srv1 = Some (new_pool 1 0)"
    by (simp_all add: srv1_def srv0_simps accept_handler_store conn_manager0_def conn1_def)
qed

lemma conn2_eq: "header_handler Success (header_layout (ping_header 9)) conn1 = (conn2, [])"
  and conn2_fields: "read_op conn2 = ReadBody (ping_header 9)" "on_message conn2" "\<not> closed conn2"
proof -
  have dh: "deserialize_header (header_layout (ping_header 9)) = Ret (ping_header 9)"
    using deserialize_header_layout [of "ping_header 9" "[]"] by simp
  have mg: "magic (ping_header 9) = MAGIC" by (simp add: ping_header_def)
  show "header_handler Success (header_layout (ping_header 9)) conn1 = (conn2, [])"
    "read_op conn2 = ReadBody (ping_header 9)" "on_message conn2" "\<not> closed conn2"
    by (simp_all add: conn2_def header_handler_def dh mg Let_def do_read_body_def conn1_def start_read_def
        do_read_header_def new_connection_def)
qed

lemma conn3_eq: "body_handler (ping_header 9) Success ping_body conn2 = (conn3, [OnMessage (ping_header 9) ping_body])"
  using conn2_fields by (simp add: conn3_def body_handler_def do_read_header_def Let_def)

lemma ping_accepted:
  "\<exists>s p. sv_reach demo_mgr 1 0 s \<and> thread_pool s = Some p \<and> accepted p = [(ping_header 9, ping_body, 0)] \<and>
     (\<exists>c. store (cycle s) 0 = Some c \<and> \<not> closed c)"
proof -
  have s2: "serve demo_mgr 0 (header_handler Success (header_layout (ping_header 9))) srv1 = Some (with_conn conn2 srv1)"
    using srv1_reach(2) conn2_eq by (simp add: serve_def run_handler_def with_conn_def)
  have "sv_step demo_mgr (\<lambda>_. True) srv1 (with_conn conn2 srv1)"
    by (rule sv_header [OF srv1_reach(2) _ _ s2]) (simp_all add: conn1_def start_read_def do_read_header_def)
  with srv1_reach(1) have r2: "sv_reach demo_mgr 1 0 (with_conn conn2 srv1)" by (rule sv_next)
  obtain q :: "job ThreadPool" where q: "enqueue (ping_header 9, ping_body, 0) (new_pool 1 0) = Ret q"
      "accepted q = [(ping_header 9, ping_body, 0)]"
    by (simp add: enqueue_def new_pool_def)
  let ?s3 = "(with_conn conn3 srv1)\<lparr>thread_pool := Some q\<rparr>"
  have s3: "serve demo_mgr 0 (body_handler (ping_header 9) Success ping_body) (with_conn conn2 srv1) = Some ?s3"
    using conn3_eq srv1_reach(3) q(1)
    by (simp add: serve_def run_handler_def with_conn_def server_on_message_def)
  have st: "store (cycle (with_conn conn2 srv1)) 0 = Some conn2" by (simp add: with_conn_def)
  have "sv_step demo_mgr (\<lambda>_. True) (with_conn conn2 srv1) ?s3"
    by (rule sv_body [OF st conn2_fields(1) _ s3]) simp
  with r2 have "sv_reach demo_mgr 1 0 ?s3" by (rule sv_next)
  moreover have "\<not> closed conn3"
    using conn2_fields by (simp add: conn3_def body_handler_def do_read_header_def Let_def)
  ultimately show ?thesis using q(2) by (intro exI [of _ ?s3] exI [of _ q]) (simp add: with_conn_def)
qed
text \<open>Whatever is left to do, the workers can finish it once the pool is stopped; a worker closes no connection.\<close>

lemma process_job_closed:
  assumes "services_keep m" and "store (cycle s) q = Some c"
  shows "\<exists>c'. store (cycle (snd (process_job m j s))) q = Some c' \<and> closed c' = closed c"
proof -
  obtain h body r where j: "j = (h, body, r)" by (metis prod.exhaust)
  obtain out s1 where o: "process_request m h body s = (out, s1)" by force
  have k: "cycle s1 = cycle s" using process_request_keeps [OF assms(1) o] by simp
  have "closed d' = closed d" if "send hd b d = Ret d'" for hd b d d'
    using that by (auto simp: send_def frame_of_eq Let_def split: if_splits)
  then show ?thesis
    using assms(2) o k
    by (auto simp: j process_job_def send_response_def serialize_response_eq bindR_eq_Ret split: res.split option.split)
qed

lemma server_worker_closed:
  assumes "services_keep m" and "server_worker m i s = Some s'" and "store (cycle s) q = Some c"
  shows "\<exists>c'. store (cycle s') q = Some c' \<and> closed c' = closed c"
proof -
  obtain p p' where p: "thread_pool s = Some p" "worker_loop i p = Some p'"
    using assms(2) by (auto simp: server_worker_def split: option.splits)
  show ?thesis
    using assms(2,3) p process_job_closed [OF assms(1), of "s\<lparr>thread_pool := Some p'\<rparr>" q c]
    by (auto simp: server_worker_def Let_def split: worker.splits)
qed

lemma sv_can_join:
  assumes "services_keep m" and "sv_reach m n hw s" and "thread_pool s = Some p" and "stopped p"
    and "store (cycle s) q = Some c" and "\<not> closed c"
  shows "\<exists>s' p' c'. sv_reach m n hw s' \<and> thread_pool s' = Some p' \<and> joined p' \<and> accepted p' = accepted p \<and>
    store (cycle s') q = Some c' \<and> \<not> closed c'"
  using assms
proof (induction "work_left p" arbitrary: s p c rule: less_induct)
  case less
  show ?case
  proof (cases "joined p")
    case True
    then show ?thesis using less.prems by blast
  next
    case False
    then obtain i p1 where p1: "worker_loop i p = Some p1" using stopped_progress less.prems(4) by blast
    obtain s1 where s1: "server_worker m i s = Some s1"
      using p1 less.prems(3) by (cases "workers p ! i") (auto simp: server_worker_def Let_def)
    have reach: "sv_reach m n hw s1" using less.prems(2) sv_step.sv_worker [OF s1] by (rule sv_next)
    obtain L where L: "sv_inv m p L s" using sv_inv_reach [OF less.prems(2,1)] less.prems(3) by (auto simp: sv_inv_def)
    have t1: "thread_pool s1 = Some p1" using sv_inv_worker [OF less.prems(1) L s1] p1 sv_invD(1) by fastforce
    obtain c1 where "store (cycle s1) q = Some c1" "\<not> closed c1"
      using server_worker_closed [OF less.prems(1) s1 less.prems(5)] less.prems(6) by auto
    then show ?thesis
      using less.hyps [OF work_left_decreases [OF p1] less.prems(1) reach t1] worker_loop_frame [OF p1] less.prems(4)
      by auto
  qed
qed

lemma ping_joined:
  "\<exists>s p c. sv_reach demo_mgr 1 0 s \<and> thread_pool s = Some p \<and> joined p \<and>
     accepted p = [(ping_header 9, ping_body, 0)] \<and> store (cycle s) 0 = Some c \<and> \<not> closed c"
proof -
  obtain s p c where s: "sv_reach demo_mgr 1 0 s" "thread_pool s = Some p" "accepted p = [(ping_header 9, ping_body, 0)]"
      "store (cycle s) 0 = Some c" "\<not> closed c"
    using ping_accepted by blast
  let ?t = "s\<lparr>thread_pool := map_option request_stop (thread_pool s)\<rparr>"
  have "sv_reach demo_mgr 1 0 ?t" using s(1) sv_pool_stop by (rule sv_next)
  moreover have "thread_pool ?t = Some (request_stop p)" "stopped (request_stop p)" "accepted (request_stop p) = accepted p"
      "store (cycle ?t) 0 = Some c"
    using s by (simp_all add: request_stop_def)
  ultimately show ?thesis
    using sv_can_join [OF services_ok_keep [OF ping_services_ok], of connection_count 1 0 ?t "request_stop p" 0 c] s(3,5)
    by metis
qed


end
