(* ===== verification/Byte_Stream.thy ===== *)
theory Byte_Stream
  imports Connection "HOL-Library.Sublist"
begin

text \<open>
  One direction of a TCP connection between a writer of frames and a reading loop of the shape both \<^verbatim>\<open>Connection\<close> and
  \<^verbatim>\<open>RpcClient\<close> have: 20 bytes of header, then as many bytes of body as it announces. The bytes written arrive in order;
  when a write fails, any prefix of its frame may have left, and nothing is written after it.
\<close>

definition flows :: "bool \<Rightarrow> string \<Rightarrow> string \<Rightarrow> bool" where
  "flows broken avail rest \<longleftrightarrow> (if broken then prefix avail rest else avail = rest)"

lemma flows_take:
  assumes "flows b a (x @ r)" and "length x \<le> length a"
  shows "take (length x) a = x" and "flows b (drop (length x) a) r"
proof -
  have "prefix a (x @ r)" using assms(1) by (auto simp: flows_def split: if_splits)
  then obtain t where t: "x @ r = a @ t" by (auto simp: prefix_def)
  then show x: "take (length x) a = x" using assms(2) by (metis append_eq_conv_conj take_append diff_is_0_eq' take0 append_Nil2)
  then have "a = x @ drop (length x) a" by (metis append_take_drop_id)
  then show "flows b (drop (length x) a) r" using assms(1) by (metis flows_def same_append_eq same_prefix_prefix)
qed

text \<open>\<open>fs\<close> are the frames written and not yet delivered, the one being read included.\<close>

fun reading :: "ReadOp \<Rightarrow> bool \<Rightarrow> string \<Rightarrow> (RpcHeader \<times> string) list \<Rightarrow> bool" where
  "reading NoRead b a fs \<longleftrightarrow> True"
| "reading ReadHeader b a fs \<longleftrightarrow> flows b a (concat (map frame_bytes fs)) \<and> list_all frame_ok fs"
| "reading (ReadBody h) b a fs \<longleftrightarrow>
     (case fs of [] \<Rightarrow> False
      | (h', body) # fs' \<Rightarrow> h' = h \<and> flows b a (body @ concat (map frame_bytes fs')) \<and> list_all frame_ok fs)"

lemma reading_write:
  assumes "reading op False a fs" and "frame_ok f"
  shows "reading op False (a @ frame_bytes f) (fs @ [f])"
  using assms by (cases op) (auto simp: flows_def split: list.splits)

lemma reading_break:
  assumes "reading op False a fs" and "frame_ok f" and "prefix p (frame_bytes f)"
  shows "reading op True (a @ p) (fs @ [f])"
  using assms by (cases op) (auto simp: flows_def split: list.splits)

lemma reading_header:
  assumes "reading ReadHeader b a fs" and "20 \<le> length a"
  obtains h body fs' where "fs = (h, body) # fs'" "take 20 a = header_layout h" "magic h = MAGIC"
    "reading (ReadBody h) b (drop 20 a) fs"
proof -
  have f: "flows b a (concat (map frame_bytes fs))" and ok: "list_all frame_ok fs" using assms(1) by simp_all
  then have "prefix a (concat (map frame_bytes fs))" by (auto simp: flows_def split: if_splits)
  then have "length a \<le> length (concat (map frame_bytes fs))" by (rule prefix_length_le)
  then have "fs \<noteq> []" using assms(2) by auto
  then obtain h body fs' where fs: "fs = (h, body) # fs'" by (metis neq_Nil_conv prod.exhaust)
  have "flows b a (header_layout h @ (body @ concat (map frame_bytes fs')))" using f fs by (simp add: frame_bytes_def)
  from flows_take [OF this] assms(2) have t: "take 20 a = header_layout h"
      "flows b (drop 20 a) (body @ concat (map frame_bytes fs'))" by simp_all
  then show thesis using that [of h body fs'] fs ok by (simp add: frame_ok_def)
qed

lemma reading_body:
  assumes "reading (ReadBody h) b a fs" and "unat (body_size h) \<le> length a"
  obtains body fs' where "fs = (h, body) # fs'" "take (unat (body_size h)) a = body"
    "reading ReadHeader b (drop (unat (body_size h)) a) fs'"
proof -
  from assms(1) obtain body fs' where fs: "fs = (h, body) # fs'" "flows b a (body @ concat (map frame_bytes fs'))"
      "list_all frame_ok fs"
    by (auto split: list.splits)
  then have n: "unat (body_size h) = length body" by (simp add: frame_ok_def)
  from flows_take [OF fs(2)] assms(2) n that fs show thesis by auto
qed

end
