(* ===== verification/Refinement.thy ===== *)
theory Refinement
  imports Main
begin

text \<open>
  Forward simulation with stuttering: a concrete transition system, its invariant, and an abstraction
  under which every step is a sequence of steps, possibly empty, of an abstract system. Properties of all runs of
  the abstract system then hold of the abstraction of all runs of the concrete one.
\<close>

locale transition_system =
  fixes init :: "'c \<Rightarrow> bool" and step :: "'c \<Rightarrow> 'c \<Rightarrow> bool" and invar :: "'c \<Rightarrow> bool"
  assumes init_invar: "init s \<Longrightarrow> invar s"
    and step_invar: "step s t \<Longrightarrow> invar s \<Longrightarrow> invar t"
begin

lemma run_invar: "rtranclp step s t \<Longrightarrow> invar s \<Longrightarrow> invar t"
  by (induction rule: rtranclp_induct) (auto intro: step_invar)

lemma reach_invar: "init s \<Longrightarrow> rtranclp step s t \<Longrightarrow> invar t"
  using init_invar run_invar by blast

end

locale simulation = transition_system +
  fixes ainit :: "'a \<Rightarrow> bool" and astep :: "'a \<Rightarrow> 'a \<Rightarrow> bool" and abs :: "'c \<Rightarrow> 'a"
  assumes init_abs: "init s \<Longrightarrow> ainit (abs s)"
    and step_abs: "step s t \<Longrightarrow> invar s \<Longrightarrow> rtranclp astep (abs s) (abs t)"
begin

lemma run_abs: "rtranclp step s t \<Longrightarrow> invar s \<Longrightarrow> rtranclp astep (abs s) (abs t)"
proof (induction rule: rtranclp_induct)
  case (step t u)
  then show ?case using run_invar step_abs by (meson rtranclp_trans)
qed simp

lemma reach_abs: "init s \<Longrightarrow> rtranclp step s t \<Longrightarrow> ainit (abs s) \<and> rtranclp astep (abs s) (abs t)"
  using init_abs init_invar run_abs by blast

lemma abstract_invariant:
  assumes "\<And>a. ainit a \<Longrightarrow> P a" and "\<And>a b. astep a b \<Longrightarrow> P a \<Longrightarrow> P b" and "init s" and "rtranclp step s t"
  shows "P (abs t)"
proof -
  have "rtranclp astep (abs s) (abs t)" "P (abs s)" using reach_abs [OF assms(3,4)] assms(1) by blast+
  then show ?thesis by (induction rule: rtranclp_induct) (auto intro: assms(2))
qed

end

end
