(* ===== verification/Rpc_Network.thy ===== *)
theory Rpc_Network
  imports Rpc_System Server_Runs Byte_Stream Refinement
begin

text \<open>
  Client, network and server running together. One client (\<^verbatim>\<open>RpcClient\<close> with all its threads, as in \<^verbatim>\<open>Rpc_Client\<close>) talks to one server
  (\<^verbatim>\<open>RpcServer\<close> with its pool, as in \<^verbatim>\<open>Server_Runs\<close>) through the two byte streams of a TCP connection. Everything
  interleaves: calls from any thread, completions in any order, failing reads and writes, disconnection, the shutdown
  of the server, and any number of other connections on which anything may arrive.
\<close>

section \<open>The system\<close>

text \<open>
  \<open>linked\<close>: the TCP connection exists; \<open>peer\<close>: the server's reference of it, once accepted. \<open>up\<close> and \<open>down\<close> are the bytes
  that were written and not yet read. \<open>issued\<close> records the requests of the calls, by the number of their promise.
\<close>

record side =
  ncl :: client_sys
  linked :: bool
  peer :: "nat option"
  up :: string
  up_broken :: bool
  down :: string
  down_broken :: bool
  issued :: "RpcRequest list"

record 'a net = side +
  nsv :: "'a RpcServer_scheme"

text \<open>The steps of the client that exchange no bytes.\<close>

inductive cl_local :: "client_sys \<Rightarrow> client_sys \<Rightarrow> bool" where
  loc_connect: "connect (client s) = Some c \<Longrightarrow> cl_local s (s\<lparr>client := c\<rparr>)"
| loc_resolved: "connect_op (client s) = Resolving \<Longrightarrow> \<not> client_stopped (client s) \<Longrightarrow>
    cl_local s (s\<lparr>client := resolve_handler ec (client s)\<rparr>)"
| loc_refused: "connect_op (client s) = Connecting \<Longrightarrow> \<not> client_stopped (client s) \<Longrightarrow>
    cl_local s (s\<lparr>client := connect_handler (Failure e) (client s)\<rparr>)"
| loc_register: "drafts s = xs @ (sq, k, req) # ys \<Longrightarrow> build_item sq req = Ret item \<Longrightarrow>
    cl_local s (s\<lparr>client := add_pending sq k (client s), drafts := xs @ ys, ready := ready s @ [item]\<rparr>)"
| loc_push: "ready s = xs @ item # ys \<Longrightarrow>
    cl_local s (s\<lparr>client := push_item item (client s), ready := xs @ ys, handed := handed s @ [item]\<rparr>)"
| loc_start: "0 < client_starts (client s) \<Longrightarrow> cl_local s (s\<lparr>client := enter_client_write (client s)\<rparr>)"
| loc_header_failed: "client_read (client s) = ReadHeader \<Longrightarrow> \<not> client_stopped (client s) \<Longrightarrow>
    cl_local s (s\<lparr>client := client_header_handler (Failure e) buf (client s)\<rparr>)"
| loc_body_failed: "client_read (client s) = ReadBody h \<Longrightarrow> \<not> client_stopped (client s) \<Longrightarrow>
    cl_local s (s\<lparr>client := client_body_handler h (Failure e) buf (client s)\<rparr>)"
| loc_close: "cl_local s (s\<lparr>client := close_socket (client s)\<rparr>)"
| loc_stop: "cl_local s (s\<lparr>client := stop_io (client s)\<rparr>)"

definition with_client :: "(RpcClient \<Rightarrow> RpcClient) \<Rightarrow> client_sys \<Rightarrow> client_sys" where
  "with_client f cs = cs\<lparr>client := f (client cs)\<rparr>"

text \<open>
  The calls whose request the wire format can carry, and whose names leave room in the 16-bit length of an
  error message for the server's ``method not found: '' in front of them.
\<close>

definition call_fits :: "RpcRequest \<Rightarrow> bool" where
  "call_fits req \<longleftrightarrow> request_fits req \<and> length (request_layout req) < 2 ^ 32 \<and>
     length (service_name req) + length (method_name req) + 19 < 2 ^ 16"

inductive link_step :: "'a manager \<Rightarrow> 'a net \<Rightarrow> 'a net \<Rightarrow> bool" for m where
  l_fetch: "fetch_seq (client (ncl s)) = (k, sq, c) \<Longrightarrow> call_fits req \<Longrightarrow>
    link_step m s (s\<lparr>ncl := (ncl s)\<lparr>client := c, drafts := drafts (ncl s) @ [(sq, k, req)]\<rparr>, issued := issued s @ [req]\<rparr>)"
| l_client: "cl_local (ncl s) t \<Longrightarrow> link_step m s (s\<lparr>ncl := t\<rparr>)"
| l_link: "connect_op (client (ncl s)) = Connecting \<Longrightarrow> \<not> client_stopped (client (ncl s)) \<Longrightarrow> \<not> linked s \<Longrightarrow>
    link_step m s (s\<lparr>ncl := with_client (connect_handler Success) (ncl s), linked := True\<rparr>)"
| l_accept: "linked s \<Longrightarrow> peer s = None \<Longrightarrow> accept_pending (cycle (nsv s)) \<Longrightarrow>
    link_step m s (s\<lparr>nsv := (nsv s)\<lparr>cycle := accept_handler Success (cycle (nsv s))\<rparr>, peer := Some (fresh (cycle (nsv s)))\<rparr>)"
| l_written: "client_write (client (ncl s)) = Some item \<Longrightarrow> \<not> client_stopped (client (ncl s)) \<Longrightarrow>
    linked s \<Longrightarrow> \<not> up_broken s \<Longrightarrow>
    link_step m s (s\<lparr>ncl := with_client (client_write_handler Success) (ncl s), up := up s @ frame item\<rparr>)"
| l_write_failed: "client_write (client (ncl s)) = Some item \<Longrightarrow> \<not> client_stopped (client (ncl s)) \<Longrightarrow>
    prefix d (frame item) \<Longrightarrow> (\<not> linked s \<or> up_broken s \<longrightarrow> d = []) \<Longrightarrow>
    link_step m s (s\<lparr>ncl := with_client (client_write_handler (Failure e)) (ncl s), up := up s @ d, up_broken := linked s\<rparr>)"
| l_read_header: "client_read (client (ncl s)) = ReadHeader \<Longrightarrow> \<not> client_stopped (client (ncl s)) \<Longrightarrow>
    20 \<le> length (down s) \<Longrightarrow>
    link_step m s (s\<lparr>ncl := with_client (client_header_handler Success (take 20 (down s))) (ncl s), down := drop 20 (down s)\<rparr>)"
| l_read_body: "client_read (client (ncl s)) = ReadBody h \<Longrightarrow> \<not> client_stopped (client (ncl s)) \<Longrightarrow>
    unat (body_size h) \<le> length (down s) \<Longrightarrow> buf = take (unat (body_size h)) (down s) \<Longrightarrow>
    link_step m s (s\<lparr>ncl := (ncl s)\<lparr>client := client_body_handler h Success buf (client (ncl s)),
                           received := received (ncl s) @ response_in h Success buf\<rparr>,
                   down := drop (unat (body_size h)) (down s)\<rparr>)"
| l_serve_header: "peer s = Some r \<Longrightarrow> store (cycle (nsv s)) r = Some c \<Longrightarrow> read_op c = ReadHeader \<Longrightarrow> 20 \<le> length (up s) \<Longrightarrow>
    serve m r (header_handler Success (take 20 (up s))) (nsv s) = Some sv \<Longrightarrow>
    link_step m s (s\<lparr>nsv := sv, up := drop 20 (up s)\<rparr>)"
| l_serve_body: "peer s = Some r \<Longrightarrow> store (cycle (nsv s)) r = Some c \<Longrightarrow> read_op c = ReadBody h \<Longrightarrow>
    unat (body_size h) \<le> length (up s) \<Longrightarrow>
    serve m r (body_handler h Success (take (unat (body_size h)) (up s))) (nsv s) = Some sv \<Longrightarrow>
    link_step m s (s\<lparr>nsv := sv, up := drop (unat (body_size h)) (up s)\<rparr>)"
| l_serve_write: "peer s = Some r \<Longrightarrow> store (cycle (nsv s)) r = Some c \<Longrightarrow> write_op c = Some d \<Longrightarrow> \<not> down_broken s \<Longrightarrow>
    serve m r (write_handler Success) (nsv s) = Some sv \<Longrightarrow>
    link_step m s (s\<lparr>nsv := sv, down := down s @ d\<rparr>)"
| l_serve_write_failed: "peer s = Some r \<Longrightarrow> store (cycle (nsv s)) r = Some c \<Longrightarrow> write_op c = Some d \<Longrightarrow>
    prefix d' d \<Longrightarrow> (down_broken s \<longrightarrow> d' = []) \<Longrightarrow>
    serve m r (write_handler (Failure e)) (nsv s) = Some sv \<Longrightarrow>
    link_step m s (s\<lparr>nsv := sv, down := down s @ d', down_broken := True\<rparr>)"

text \<open>With the steps of the server that do not concern the client: its other connections receive and send what their peers please.\<close>

inductive net_step :: "'a manager \<Rightarrow> 'a net \<Rightarrow> 'a net \<Rightarrow> bool" for m where
  on_link: "link_step m s t \<Longrightarrow> net_step m s t"
| n_server: "sv_step m (\<lambda>r. peer s \<noteq> Some r) (nsv s) sv \<Longrightarrow> net_step m s (s\<lparr>nsv := sv\<rparr>)"

definition net_start :: "nat \<Rightarrow> nat \<Rightarrow> 'a net \<Rightarrow> bool" where
  "net_start n hw s \<longleftrightarrow> ncl s = client_init \<and> sv_start n hw (nsv s) \<and> \<not> linked s \<and> peer s = None \<and>
     up s = [] \<and> \<not> up_broken s \<and> down s = [] \<and> \<not> down_broken s \<and> issued s = []"

text \<open>The sequence numbers are unique as long as no more than \<open>2 ^ 32\<close> calls were made.\<close>

definition net_next :: "'a manager \<Rightarrow> 'a net \<Rightarrow> 'a net \<Rightarrow> bool" where
  "net_next m s t \<longleftrightarrow> net_step m s t \<and> calls (client (ncl t)) \<le> 2 ^ 32"

abbreviation net_run :: "'a manager \<Rightarrow> 'a net \<Rightarrow> 'a net \<Rightarrow> bool" where
  "net_run m \<equiv> rtranclp (net_next m)"

text \<open>The steps of the client, of its connection and of the workers alone.\<close>

inductive own_step :: "'a manager \<Rightarrow> 'a net \<Rightarrow> 'a net \<Rightarrow> bool" for m where
  own_link: "link_step m s t \<Longrightarrow> own_step m s t"
| own_worker: "server_worker m i (nsv s) = Some sv \<Longrightarrow> own_step m s (s\<lparr>nsv := sv\<rparr>)"

definition own_next :: "'a manager \<Rightarrow> 'a net \<Rightarrow> 'a net \<Rightarrow> bool" where
  "own_next m s t \<longleftrightarrow> own_step m s t \<and> calls (client (ncl t)) \<le> 2 ^ 32"

abbreviation own_run :: "'a manager \<Rightarrow> 'a net \<Rightarrow> 'a net \<Rightarrow> bool" where
  "own_run m \<equiv> rtranclp (own_next m)"

lemma own_next_net: "own_next m s t \<Longrightarrow> net_next m s t"
  by (auto simp: own_next_def net_next_def elim!: own_step.cases intro: on_link n_server sv_step.sv_worker)

lemma own_run_net: "own_run m s t \<Longrightarrow> net_run m s t"
  by (rule mono_rtranclp [rule_format]) (rule own_next_net)

section \<open>The client's side\<close>

lemma cl_local_step: "cl_local s t \<Longrightarrow> cl_step s t"
proof (induction rule: cl_local.induct)
  case (loc_body_failed s h e buf)
  then have "cl_step s (s\<lparr>client := client_body_handler h (Failure e) buf (client s),
      received := received s @ response_in h (Failure e) buf\<rparr>)" by (rule cl_body)
  then show ?case by (simp add: response_in_def)
qed (auto intro: cl_step.intros)

text \<open>The items on their way to the socket.\<close>

definition items :: "client_sys \<Rightarrow> WriteItem list" where
  "items cs = ready cs @ (case client_write (client cs) of None \<Rightarrow> [] | Some i \<Rightarrow> [i]) @ client_queue (client cs)"

definition item_asked :: "RpcRequest list \<Rightarrow> WriteItem \<Rightarrow> bool" where
  "item_asked iss it \<longleftrightarrow> (\<exists>k < length iss. it = request_item (seq_of k) (iss ! k))"

definition asked :: "RpcRequest list \<Rightarrow> RpcHeader \<times> string \<Rightarrow> bool" where
  "asked iss f \<longleftrightarrow> (\<exists>k < length iss. f = request_frame k (iss ! k))"

definition answers :: "'a manager \<Rightarrow> RpcRequest list \<Rightarrow> u32 \<Rightarrow> RpcResponse \<Rightarrow> bool" where
  "answers m iss sq resp \<longleftrightarrow> (\<exists>k < length iss. sq = seq_of k \<and>
     is_answer m (fst (request_frame k (iss ! k))) (snd (request_frame k (iss ! k))) resp)"

definition answer_ok :: "'a manager \<Rightarrow> RpcRequest list \<Rightarrow> RpcHeader \<times> string \<Rightarrow> bool" where
  "answer_ok m iss = (\<lambda>(h, body). \<exists>resp. body = response_layout resp \<and> response_fits resp \<and> answers m iss (seq_id h) resp)"

lemma asked_mono:
  "asked iss f \<Longrightarrow> asked (iss @ xs) f" "item_asked iss it \<Longrightarrow> item_asked (iss @ xs) it"
  "answers m iss sq resp \<Longrightarrow> answers m (iss @ xs) sq resp" "answer_ok m iss f \<Longrightarrow> answer_ok m (iss @ xs) f"
proof -
  show a: "answers m iss sq resp \<Longrightarrow> answers m (iss @ xs) sq resp" for sq resp
    unfolding answers_def by (metis length_append nth_append trans_less_add1)
  show "asked iss f \<Longrightarrow> asked (iss @ xs) f" "item_asked iss it \<Longrightarrow> item_asked (iss @ xs) it"
    unfolding asked_def item_asked_def by (metis length_append nth_append trans_less_add1)+
  show "answer_ok m iss f \<Longrightarrow> answer_ok m (iss @ xs) f" using a by (auto simp: answer_ok_def)
qed

definition client_ok :: "client_sys \<Rightarrow> RpcRequest list \<Rightarrow> bool" where
  "client_ok cs iss \<longleftrightarrow> promise_inv cs \<and> queue_inv cs \<and> length iss = calls (client cs) \<and> (\<forall>req \<in> set iss. call_fits req) \<and>
     (\<forall>(sq, k, req) \<in> set (drafts cs). k < length iss \<and> iss ! k = req) \<and> (\<forall>it \<in> set (items cs). item_asked iss it)"

text \<open>The sequence numbers between a call and its frame.\<close>

definition on_the_way :: "client_sys \<Rightarrow> u32 multiset" where
  "on_the_way cs = mset (map fst (drafts cs)) + mset (map item_seq (items cs))"

text \<open>What a local step changes of all this: the place of an item at most, and the reading loop may end.\<close>

definition locally :: "client_sys \<Rightarrow> client_sys \<Rightarrow> bool" where
  "locally cs t \<longleftrightarrow> calls (client t) = calls (client cs) \<and> on_the_way t = on_the_way cs \<and>
     set (drafts t) \<subseteq> set (drafts cs) \<and>
     (\<forall>it \<in> set (items t). it \<in> set (items cs) \<or> (\<exists>(sq, k, req) \<in> set (drafts cs). it = request_item sq req))"

lemma locallyI:
  assumes "calls (client t) = calls (client cs)" "drafts t = drafts cs" "mset (items t) = mset (items cs)"
  shows "locally cs t"
proof -
  have "set (items t) = set (items cs)" using assms(3) by (rule mset_eq_setD)
  then show ?thesis using assms by (simp add: locally_def on_the_way_def)
qed

lemma reject_all_pending_fields [simp]:
  "calls (reject_all_pending m c) = calls c" "client_write (reject_all_pending m c) = client_write c"
  "client_queue (reject_all_pending m c) = client_queue c"
  by (simp_all add: reject_all_pending_def)

lemma cl_local_locally:
  assumes "cl_local cs t" and "queue_inv cs"
  shows "locally cs t \<and> received t = received cs \<and>
    (client_read (client t) = client_read (client cs) \<or> client_read (client t) = NoRead)"
  using assms
proof (induction rule: cl_local.induct)
  case (loc_register s xs sq k req ys item)
  then have "item = request_item sq req" by (simp add: build_item_eq request_item_def)
  then show ?case
    using loc_register.hyps(1)
    by (auto simp: locally_def items_def on_the_way_def add_pending_def request_item_def)
next
  case (loc_push s xs item ys)
  then show ?case
    by (auto intro!: locallyI simp: items_def push_item_def Let_def)
next
  case (loc_start s)
  have "client_write (client s) = None"
    using clw.inv_starter_idle [of "client s"] loc_start by (simp add: queue_inv_def)
  then show ?case
    by (auto intro!: locallyI simp: items_def enter_client_write_def client_do_write_def split: list.splits)
qed (auto intro!: locallyI simp: items_def connect_def resolve_handler_def connect_handler_def client_header_handler_def
    client_body_handler_def close_socket_def stop_io_def Let_def split: if_splits ec.splits)

lemma handler_locally:
  "locally cs (with_client (connect_handler ec) cs)"
  "locally cs (with_client (client_header_handler ec buf) cs)"
  "locally cs (cs\<lparr>client := client_body_handler h ec buf (client cs), received := rs\<rparr>)"
  by (auto intro!: locallyI simp: with_client_def items_def connect_handler_def start_read_loop_def client_read_header_def
      client_header_handler_def client_body_handler_def Let_def split: ec.split res.split)

lemma client_okD:
  assumes "client_ok cs iss"
  shows "promise_inv cs" "queue_inv cs" "length iss = calls (client cs)" "\<And>req. req \<in> set iss \<Longrightarrow> call_fits req"
    "\<And>sq k req. (sq, k, req) \<in> set (drafts cs) \<Longrightarrow> k < length iss \<and> iss ! k = req"
    "\<And>it. it \<in> set (items cs) \<Longrightarrow> item_asked iss it"
  using assms by (auto simp: client_ok_def)

lemma client_ok_locally:
  assumes "client_ok cs iss" and "cl_step cs t" and "locally cs t" and "calls (client cs) \<le> 2 ^ 32"
  shows "client_ok t iss"
proof -
  note ok = client_okD [OF assms(1)]
  have l: "calls (client t) = calls (client cs)" "set (drafts t) \<subseteq> set (drafts cs)"
      "\<And>it. it \<in> set (items t) \<Longrightarrow> it \<in> set (items cs) \<or> (\<exists>(sq, k, req) \<in> set (drafts cs). it = request_item sq req)"
    using assms(3) by (auto simp: locally_def)
  have "promise_inv t" using promise_inv_step [OF assms(2) ok(1)] l(1) assms(4) by simp
  moreover have "queue_inv t" using queue_inv_step [OF assms(2) ok(2)] .
  moreover have "item_asked iss it" if "it \<in> set (items t)" for it
  proof -
    have "item_asked iss (request_item sq req)" if "(sq, k, req) \<in> set (drafts cs)" for sq k req
    proof -
      have "sq = seq_of k" using ok(1) that by (auto simp: promise_inv_def Let_def)
      then show ?thesis using ok(5) [OF that] by (auto simp: item_asked_def)
    qed
    then show ?thesis using l(3) [OF that] ok(6) by blast
  qed
  ultimately show ?thesis using ok(3-5) l(1,2) unfolding client_ok_def by auto
qed

lemma client_ok_fetch:
  assumes "client_ok cs iss" and "fetch_seq (client cs) = (k, sq, c)" and "call_fits req" and "calls c \<le> 2 ^ 32"
  defines "t \<equiv> cs\<lparr>client := c, drafts := drafts cs @ [(sq, k, req)]\<rparr>"
  shows "client_ok t (iss @ [req])" "sq = seq_of (length iss)" "received t = received cs" "client_read (client t) = client_read (client cs)"
    "on_the_way t = add_mset (seq_of (length iss)) (on_the_way cs)"
proof -
  note ok = client_okD [OF assms(1)]
  have c: "c = (client cs)\<lparr>next_seq_id := next_seq_id (client cs) + 1, calls := Suc (calls (client cs))\<rparr>"
      "k = calls (client cs)" "sq = next_seq_id (client cs)"
    using assms(2) by (auto simp: fetch_seq_def)
  have step: "cl_step cs t" unfolding t_def using assms(2) by (rule cl_fetch)
  show sq: "sq = seq_of (length iss)" using ok(1,3) c(3) by (simp add: promise_inv_def Let_def)
  have it: "items t = items cs" by (simp add: t_def c(1) items_def)
  have "promise_inv t" using promise_inv_step [OF step ok(1)] assms(4) by (simp add: t_def)
  moreover have "queue_inv t" using queue_inv_step [OF step ok(2)] .
  moreover have "i < length (iss @ [req]) \<and> (iss @ [req]) ! i = r" if "(q, i, r) \<in> set (drafts t)" for q i r
    using that ok(3) ok(5) [of q i r] c(2) by (auto simp: t_def nth_append)
  moreover have "length (iss @ [req]) = calls (client t)" using ok(3) by (simp add: t_def c(1))
  ultimately show "client_ok t (iss @ [req])"
    using ok(4,6) assms(3) asked_mono(2) unfolding client_ok_def it by auto
  show "received t = received cs" "client_read (client t) = client_read (client cs)" by (simp_all add: t_def c(1))
  show "on_the_way t = add_mset (seq_of (length iss)) (on_the_way cs)"
    unfolding on_the_way_def it by (simp add: t_def sq)
qed

lemma client_ok_write:
  assumes "client_ok cs iss" and "client_write (client cs) = Some item" and "\<not> client_stopped (client cs)"
    and "calls (client cs) \<le> 2 ^ 32" and t_def: "t = with_client (client_write_handler ec) cs"
  shows "client_ok t iss" "item_asked iss item" "received t = received cs" "calls (client t) = calls (client cs)"
    "client_read (client t) = client_read (client cs)" "on_the_way cs = add_mset (item_seq item) (on_the_way t)"
proof -
  note ok = client_okD [OF assms(1)]
  have step: "cl_step cs t"
    unfolding t_def with_client_def using assms(2,3) by (intro cl_written) simp_all
  have fields: "calls (client t) = calls (client cs)" "drafts t = drafts cs" "received t = received cs"
      "client_read (client t) = client_read (client cs)" "mset (items cs) = add_mset item (mset (items t))"
    using assms(2)
    by (auto simp: t_def with_client_def client_write_handler_def client_do_write_def items_def Let_def
        split: ec.splits list.splits)
  have "set (items cs) = insert item (set (items t))" using arg_cong [OF fields(5), of set_mset] by simp
  then show "item_asked iss item" "client_ok t iss"
    using ok promise_inv_step [OF step ok(1)] queue_inv_step [OF step ok(2)] fields assms(4)
    by (auto simp: client_ok_def)
  show "on_the_way cs = add_mset (item_seq item) (on_the_way t)"
    using arg_cong [OF fields(5), of "image_mset item_seq"] by (simp add: on_the_way_def fields(2))
qed (auto simp: with_client_def client_write_handler_def client_do_write_def t_def Let_def split: option.splits ec.splits list.splits)
section \<open>The server's side\<close>

definition op_of :: "'a RpcServer_scheme \<Rightarrow> nat \<Rightarrow> ReadOp" where
  "op_of s r = (case store (cycle s) r of None \<Rightarrow> NoRead | Some c \<Rightarrow> read_op c)"

definition jobs_of :: "nat \<Rightarrow> job ThreadPool \<Rightarrow> job list" where
  "jobs_of r p = filter (\<lambda>j. snd (snd j) = r) (accepted p)"

definition conn_kept :: "nat \<Rightarrow> 'a RpcServer_scheme \<Rightarrow> 'a RpcServer_scheme \<Rightarrow> bool" where
  "conn_kept r s s' \<longleftrightarrow> (\<forall>c'. store (cycle s') r = Some c' \<longrightarrow>
     (\<exists>c. store (cycle s) r = Some c \<and> wire c' = wire c \<and> on_message c' = on_message c))"

lemma conn_kept_refl [simp]: "store (cycle s') r = store (cycle s) r \<Longrightarrow> conn_kept r s s'"
  by (simp add: conn_kept_def)

definition untouched :: "nat \<Rightarrow> job ThreadPool \<Rightarrow> 'a RpcServer_scheme \<Rightarrow> job ThreadPool \<Rightarrow> 'a RpcServer_scheme \<Rightarrow> bool" where
  "untouched r p s p' s' \<longleftrightarrow> jobs_of r p' = jobs_of r p \<and> fresh (cycle s) \<le> fresh (cycle s') \<and>
     (r < fresh (cycle s) \<longrightarrow> (op_of s' r = op_of s r \<or> op_of s' r = NoRead) \<and> conn_kept r s s')"

lemma serve_untouched:
  assumes "sv_inv m p L s" and c: "store (cycle s) q = Some c" and "conn_holds (frames_for q L) (fst (f c))"
    and "serve m q f s = Some s'"
    and "q = r \<Longrightarrow> read_op (fst (f c)) \<in> {read_op c, NoRead} \<and> concat (map message_of (snd (f c))) = [] \<and>
      wire (fst (f c)) = wire c \<and> on_message (fst (f c)) = on_message c"
  shows "\<exists>p'. sv_inv m p' L s' \<and> untouched r p s p' s'"
proof -
  obtain p' where p': "sv_inv m p' L s'" "store (cycle s') = (store (cycle s))(q \<mapsto> fst (f c))"
      "fresh (cycle s') = fresh (cycle s)"
      "accepted p' = accepted p @ map (\<lambda>(h, b). (h, b, q)) (concat (map message_of (snd (f c))))"
    using sv_inv_serve [OF assms(1-4)] by blast
  have "jobs_of r p' = jobs_of r p"
  proof (cases "q = r")
    case True
    with assms(5) p'(4) show ?thesis by (simp add: jobs_of_def)
  next
    case False
    then show ?thesis by (simp add: jobs_of_def p'(4) filter_map comp_def case_prod_beta)
  qed
  moreover have "op_of s' r = op_of s r \<or> op_of s' r = NoRead" "conn_kept r s s'"
    using assms(5) c by (auto simp: op_of_def conn_kept_def p'(2))
  ultimately show ?thesis using p'(1,3) by (auto simp: untouched_def)
qed

lemma failed_handlers:
  assumes "ec \<noteq> Success"
  shows "read_op (fst (header_handler ec buf c)) = NoRead \<and> concat (map message_of (snd (header_handler ec buf c))) = [] \<and>
      wire (fst (header_handler ec buf c)) = wire c \<and> on_message (fst (header_handler ec buf c)) = on_message c"
    "read_op (fst (body_handler h ec buf c)) = NoRead \<and> concat (map message_of (snd (body_handler h ec buf c))) = [] \<and>
      wire (fst (body_handler h ec buf c)) = wire c \<and> on_message (fst (body_handler h ec buf c)) = on_message c"
  using assms by (auto simp: header_handler_def body_handler_def close_once_def Let_def split: ec.splits)

lemma write_handler_untouched:
  "read_op (fst (write_handler ec c)) = read_op c" "concat (map message_of (snd (write_handler ec c))) = []"
  "on_message (fst (write_handler ec c)) = on_message c"
  by (auto simp: write_handler_def close_once_def do_write_def split: ec.splits list.splits)

text \<open>A worker changes the objects of connections only.\<close>

lemma server_worker_cycle:
  assumes "server_worker m i s = Some s'" and "services_keep m"
  obtains st where "cycle s' = (cycle s)\<lparr>store := st\<rparr>"
proof -
  have job: "\<exists>st. cycle (snd (process_job m (h, body, r) t)) = (cycle t)\<lparr>store := st\<rparr>" for h body r t
    using process_request_keeps [OF assms(2), of h body t]
    by (cases "process_request m h body t")
      (auto simp: process_job_def send_response_def serialize_response_eq bindR_eq_Ret
        intro: exI [of _ "store (cycle t)"] split: res.split option.split)
  obtain p p' where p: "thread_pool s = Some p" "worker_loop i p = Some p'"
    using assms(1) by (auto simp: server_worker_def split: option.splits)
  have "\<exists>st. cycle s' = (cycle s)\<lparr>store := st\<rparr>"
  proof (cases "workers p ! i")
    case (Entered j)
    then show ?thesis using assms(1) p job [of "fst j" "fst (snd j)" "snd (snd j)" "s\<lparr>thread_pool := Some p'\<rparr>"] by (simp add: server_worker_def)
  qed (use assms(1) p in \<open>auto simp: server_worker_def Let_def intro: exI [of _ "store (cycle s)"]\<close>)
  then show thesis using that by blast
qed

lemma server_worker_fresh: "server_worker m i s = Some s' \<Longrightarrow> services_keep m \<Longrightarrow> fresh (cycle s') = fresh (cycle s)"
  by (erule (1) server_worker_cycle) simp

lemma accept_untouched:
  assumes "sv_inv m p L s"
  shows "\<exists>p'. sv_inv m p' L (s\<lparr>cycle := accept_handler ec (cycle s)\<rparr>) \<and> untouched r p s p' (s\<lparr>cycle := accept_handler ec (cycle s)\<rparr>)"
proof -
  have "untouched r p s p (s\<lparr>cycle := accept_handler ec (cycle s)\<rparr>)"
  proof (cases ec)
    case Success
    then show ?thesis by (simp add: untouched_def op_of_def accept_handler_store)
  next
    case (Failure e)
    then show ?thesis by (simp add: untouched_def op_of_def accept_handler_def do_accept_def Let_def)
  qed
  then show ?thesis using sv_inv_accept [OF assms] by blast
qed

lemma worker_untouched:
  assumes "services_keep m" and "sv_inv m p L s" and "server_worker m i s = Some s'"
  shows "\<exists>p' L'. sv_inv m p' (L @ L') s' \<and> untouched r p s p' s'"
proof -
  obtain p' L' where w: "sv_inv m p' (L @ L') s'" "worker_loop i p = Some p'" "same_io (store (cycle s)) (store (cycle s'))"
    using sv_inv_worker [OF assms] by blast
  have "jobs_of r p' = jobs_of r p" using worker_loop_frame [OF w(2)] by (simp add: jobs_of_def)
  moreover have "op_of s' r = op_of s r" "conn_kept r s s'"
    using w(3) [unfolded same_io_def, rule_format, of r] by (auto simp: op_of_def conn_kept_def split: option.splits)
  moreover have "fresh (cycle s') = fresh (cycle s)" using assms(3,1) by (rule server_worker_fresh)
  ultimately show ?thesis using w(1) by (auto simp: untouched_def)
qed

lemma stop_untouched:
  assumes "sv_inv m p L s"
  shows "\<exists>p'. sv_inv m p' L (server_stop s) \<and> untouched r p s p' (server_stop s)"
proof -
  have "op_of (server_stop s) r = op_of s r" "conn_kept r s (server_stop s)"
    using mc_stop_store [of "cycle s" r]
    by (auto simp: op_of_def conn_kept_def server_stop_def close_def Let_def split: option.splits)
  moreover have "fresh (cycle (server_stop s)) = fresh (cycle s)" by (simp add: server_stop_def mc_stop_def Let_def)
  ultimately show ?thesis using sv_inv_stop [OF assms] by (intro exI [of _ p]) (simp add: untouched_def)
qed

text \<open>Most steps execute nothing: the log stays as it is.\<close>

lemma same_log: "\<exists>p'. sv_inv m p' L s' \<and> untouched r p s p' s' \<Longrightarrow> \<exists>p' L'. sv_inv m p' (L @ L') s' \<and> untouched r p s p' s'"
  by (metis append_Nil2)

lemma sv_step_untouched:
  assumes "sv_step m io s s'" and "services_keep m" and "sv_inv m p L s" and "\<not> io r"
  shows "\<exists>p' L'. sv_inv m p' (L @ L') s' \<and> untouched r p s p' s'"
  using assms
proof (induction rule: sv_step.induct)
  case (sv_header s q c ec buf s')
  then have "conn_holds (frames_for q L) (fst (header_handler ec buf c))"
    using conn_holds_read [of _ c] sv_invD(8) by blast
  then show ?case
    using failed_handlers(1) [of ec buf c] sv_header.hyps(3) sv_header.prems(3)
    by (intro same_log serve_untouched [OF sv_header.prems(2) sv_header.hyps(1) _ sv_header.hyps(4)]) auto
next
  case (sv_body s q c h ec buf s')
  then have "conn_holds (frames_for q L) (fst (body_handler h ec buf c))"
    using conn_holds_read [of _ c] sv_invD(8) by blast
  then show ?case
    using failed_handlers(2) [of ec h buf c] sv_body.hyps(3) sv_body.prems(3)
    by (intro same_log serve_untouched [OF sv_body.prems(2) sv_body.hyps(1) _ sv_body.hyps(4)]) auto
next
  case (sv_write s q c ec s')
  then have "conn_holds (frames_for q L) (fst (write_handler ec c))"
    using conn_holds_write sv_invD(8) by blast
  then show ?case
    using sv_write.hyps(3) sv_write.prems(3)
    by (intro same_log serve_untouched [OF sv_write.prems(2) sv_write.hyps(1) _ sv_write.hyps(4)]) auto
next
  case (sv_pool_stop s)
  then show ?case using sv_inv_pool_stop [OF sv_pool_stop.prems(2)]
    by (intro same_log exI [of _ "request_stop p"]) (simp add: untouched_def jobs_of_def op_of_def request_stop_def)
qed (rule same_log [OF accept_untouched] worker_untouched same_log [OF stop_untouched], assumption+)+
section \<open>The invariant\<close>

definition up_ok :: "RpcRequest list \<Rightarrow> nat option \<Rightarrow> job ThreadPool \<Rightarrow> (RpcHeader \<times> string) list \<Rightarrow> bool" where
  "up_ok iss pr p fu \<longleftrightarrow> (\<forall>f \<in> set fu. asked iss f) \<and>
     (\<forall>r. pr = Some r \<longrightarrow> (\<forall>j \<in> set (jobs_of r p). asked iss (fst j, fst (snd j))))"

definition down_ok :: "'a manager \<Rightarrow> RpcRequest list \<Rightarrow> (RpcHeader \<times> string) list \<Rightarrow> (u32 \<times> RpcResponse) list \<Rightarrow> bool" where
  "down_ok m iss fd rcv \<longleftrightarrow> (\<forall>f \<in> set fd. answer_ok m iss f) \<and> (\<forall>(sq, resp) \<in> set rcv. answers m iss sq resp)"

text \<open>The requests of the client the pool has executed, by their sequence numbers; only they are answered.\<close>

definition ran :: "nat option \<Rightarrow> answer_log \<Rightarrow> u32 list" where
  "ran pr L = (case pr of None \<Rightarrow> [] | Some r \<Rightarrow> map (\<lambda>j. seq_id (fst j)) (filter (\<lambda>j. snd (snd j) = r) (map fst L)))"

definition ran_ok :: "nat option \<Rightarrow> answer_log \<Rightarrow> (RpcHeader \<times> string) list \<Rightarrow> (u32 \<times> RpcResponse) list \<Rightarrow> bool" where
  "ran_ok pr L fd rcv \<longleftrightarrow> (\<forall>f \<in> set fd. seq_id (fst f) \<in> set (ran pr L)) \<and> (\<forall>x \<in> set rcv. fst x \<in> set (ran pr L))"

lemma ran_ok_mono:
  assumes "ran_ok pr L fd rcv" and "pr = None \<or> pr' = pr"
  shows "ran_ok pr' (L @ L') fd rcv"
proof -
  have "set (ran pr L) \<subseteq> set (ran pr' (L @ L'))" using assms(2) by (auto simp: ran_def split: option.splits)
  then show ?thesis using assms(1) unfolding ran_ok_def by blast
qed

definition peer_op :: "'a net \<Rightarrow> ReadOp" where
  "peer_op s = (case peer s of None \<Rightarrow> ReadHeader | Some r \<Rightarrow> op_of (nsv s) r)"

definition link_ok :: "'a net \<Rightarrow> (RpcHeader \<times> string) list \<Rightarrow> (RpcHeader \<times> string) list \<Rightarrow> bool" where
  "link_ok s fu fd \<longleftrightarrow> (\<not> linked s \<longrightarrow> peer s = None \<and> \<not> up_broken s) \<and>
     (peer s = None \<longrightarrow> down s = [] \<and> \<not> down_broken s \<and> fd = []) \<and>
     (\<forall>r. peer s = Some r \<longrightarrow> r < fresh (cycle (nsv s))) \<and>
     reading (peer_op s) (up_broken s) (up s) fu \<and>
     reading (client_read (client (ncl s))) (down_broken s) (down s) fd"

text \<open>The sequence numbers of the calls in the order of their way: not yet written, in the stream, delivered.\<close>

definition delivered_seqs :: "nat option \<Rightarrow> job ThreadPool \<Rightarrow> u32 multiset" where
  "delivered_seqs pr p = (case pr of None \<Rightarrow> {#} | Some r \<Rightarrow> mset (map (\<lambda>j. seq_id (fst j)) (jobs_of r p)))"

definition once :: "u32 multiset \<Rightarrow> bool" where
  "once M \<longleftrightarrow> (\<forall>x. count M x \<le> 1)"

lemma once_subset: "once M \<Longrightarrow> N \<subseteq># M \<Longrightarrow> once N"
  unfolding once_def by (meson le_trans mset_subset_eq_count)

definition frame_seqs :: "(RpcHeader \<times> string) list \<Rightarrow> u32 multiset" where
  "frame_seqs fs = mset (map (\<lambda>f. seq_id (fst f)) fs)"

definition pipeline :: "'a net \<Rightarrow> job ThreadPool \<Rightarrow> (RpcHeader \<times> string) list \<Rightarrow> u32 multiset" where
  "pipeline s p fu = on_the_way (ncl s) + frame_seqs fu + delivered_seqs (peer s) p"

text \<open>
  No pending call is lost: its request is on its way or was delivered, and an answer that was written is still in the stream as long as
  the call is pending.
\<close>

definition seqs :: "(RpcHeader \<times> string) list \<Rightarrow> u32 set" where
  "seqs fs = (\<lambda>f. seq_id (fst f)) ` set fs"

definition awaited :: "client_sys \<Rightarrow> u32 set" where
  "awaited cs = fst ` set (pending (client cs))"

definition tracked :: "'a net \<Rightarrow> job ThreadPool \<Rightarrow> (RpcHeader \<times> string) list \<Rightarrow> (RpcHeader \<times> string) list \<Rightarrow> bool" where
  "tracked s p fu fd \<longleftrightarrow> awaited (ncl s) \<subseteq> set_mset (pipeline s p fu) \<and>
     (\<forall>r c. peer s = Some r \<longrightarrow> store (cycle (nsv s)) r = Some c \<longrightarrow>
        on_message c \<and> (\<forall>d \<in> set (wire c). frame_seq d \<in> awaited (ncl s) \<longrightarrow> frame_seq d \<in> seqs fd))"

definition net_inv_with ::
    "'a manager \<Rightarrow> job ThreadPool \<Rightarrow> answer_log \<Rightarrow> (RpcHeader \<times> string) list \<Rightarrow> (RpcHeader \<times> string) list \<Rightarrow> 'a net \<Rightarrow> bool" where
  "net_inv_with m p L fu fd s \<longleftrightarrow> client_ok (ncl s) (issued s) \<and> sv_inv m p L (nsv s) \<and> link_ok s fu fd \<and>
     up_ok (issued s) (peer s) p fu \<and> down_ok m (issued s) fd (received (ncl s)) \<and> once (pipeline s p fu) \<and>
     calls (client (ncl s)) \<le> 2 ^ 32 \<and> ran_ok (peer s) L fd (received (ncl s)) \<and> tracked s p fu fd"

definition net_inv_from :: "'a manager \<Rightarrow> answer_log \<Rightarrow> 'a net \<Rightarrow> bool" where
  "net_inv_from m L s \<longleftrightarrow> (\<exists>p L' fu fd. net_inv_with m p (L @ L') fu fd s)"

definition net_inv :: "'a manager \<Rightarrow> 'a net \<Rightarrow> bool" where
  "net_inv m s \<longleftrightarrow> (\<exists>p L fu fd. net_inv_with m p L fu fd s)"

lemma net_inv_fromI: "net_inv_with m p L fu fd s \<Longrightarrow> net_inv_from m L s" "net_inv_with m p (L @ L') fu fd s \<Longrightarrow> net_inv_from m L s"
  unfolding net_inv_from_def by (metis append_Nil2)+

lemma net_inv_withD:
  assumes "net_inv_with m p L fu fd s"
  shows "client_ok (ncl s) (issued s)" "sv_inv m p L (nsv s)" "link_ok s fu fd" "up_ok (issued s) (peer s) p fu"
    "down_ok m (issued s) fd (received (ncl s))" "once (pipeline s p fu)" "calls (client (ncl s)) \<le> 2 ^ 32"
    "ran_ok (peer s) L fd (received (ncl s))" "tracked s p fu fd"
  using assms by (auto simp: net_inv_with_def)

lemma trackedD:
  assumes "tracked s p fu fd"
  shows "\<And>x. x \<in> awaited (ncl s) \<Longrightarrow> x \<in># pipeline s p fu"
    "\<And>r c. peer s = Some r \<Longrightarrow> store (cycle (nsv s)) r = Some c \<Longrightarrow> on_message c"
    "\<And>r c d. peer s = Some r \<Longrightarrow> store (cycle (nsv s)) r = Some c \<Longrightarrow> d \<in> set (wire c) \<Longrightarrow> frame_seq d \<in> awaited (ncl s) \<Longrightarrow>
       frame_seq d \<in> seqs fd"
  using assms by (auto simp: tracked_def)

lemma wire_delivered:
  assumes "sv_inv m p L sv" and "store (cycle sv) r = Some c" and "d \<in> set (cw.handed_over c)"
  shows "frame_seq d \<in># delivered_seqs (Some r) p"
proof -
  note i = sv_invD [OF assms(1)]
  have "d \<in># frames_for r L"
    using i(8) [OF assms(2)] assms(3) by (metis conn_holds_def mset_subset_eqD set_mset_mset)
  then obtain h body resp where L: "((h, body, r), Some resp) \<in> set L" "d = answer_frame (h, body, r) resp"
    by (auto simp: in_frames_for)
  have "(h, body, r) \<in> set (executed p)" using L(1) i(6) by (metis fst_conv image_eqI set_map)
  then have "(h, body, r) \<in> set (jobs_of r p)" using executed_accepted [OF i(2)] by (auto simp: jobs_of_def)
  then show ?thesis using L(2) by (force simp: delivered_seqs_def)
qed

text \<open>The results of the services fit the length fields of a response.\<close>

definition answers_fit :: "'a manager \<Rightarrow> bool" where
  "answers_fit m \<longleftrightarrow> (\<forall>k req resp. call_fits req \<longrightarrow> is_answer m (fst (request_frame k req)) (snd (request_frame k req)) resp \<longrightarrow>
     response_fits resp \<and> length (response_layout resp) < 2 ^ 32)"

lemma reading_stop: "reading op b a fs \<Longrightarrow> op' = op \<or> op' = NoRead \<Longrightarrow> reading op' b a fs"
  by auto

lemma item_frame:
  assumes "item_asked iss item" and "\<And>req. req \<in> set iss \<Longrightarrow> call_fits req"
  obtains f where "asked iss f" "frame item = frame_bytes f" "frame_ok f" "item_seq item = seq_id (fst f)"
proof -
  from assms(1) obtain k where k: "k < length iss" "item = request_item (seq_of k) (iss ! k)" by (auto simp: item_asked_def)
  have "call_fits (iss ! k)" using k(1) assms(2) by simp
  then have "frame_ok (request_frame k (iss ! k))" by (intro request_frame_ok) (simp add: call_fits_def)
  then show thesis
    using that [of "request_frame k (iss ! k)"] k frame_request_item
    by (auto simp: asked_def request_item_def request_frame_def request_header_def)
qed

text \<open>A frame handed to the client's connection answers one of its calls.\<close>

lemma peer_frame:
  assumes inv: "sv_inv m p L sv" and c: "store (cycle sv) r = Some c" and d: "d \<in> set (cw.handed_over c)"
    and up: "up_ok iss (Some r) p fu" and fit: "answers_fit m" and iss: "\<And>req. req \<in> set iss \<Longrightarrow> call_fits req"
  obtains f where "d = frame_bytes f" "frame_ok f" "answer_ok m iss f" "seq_id (fst f) \<in> set (ran (Some r) L)"
proof -
  note i = sv_invD [OF inv]
  have "d \<in># frames_for r L"
    using i(8) [OF c] d by (metis conn_holds_def mset_subset_eqD set_mset_mset)
  then obtain h body resp where L: "((h, body, r), Some resp) \<in> set L" "d = answer_frame (h, body, r) resp"
    by (auto simp: in_frames_for)
  have ans: "is_answer m h body resp" using i(7) L(1) by (force simp: log_ok_def)
  have "(h, body, r) \<in> set (executed p)" using L(1) i(6) by (metis fst_conv image_eqI set_map)
  then have "(h, body, r) \<in> set (jobs_of r p)" using executed_accepted [OF i(2)] by (auto simp: jobs_of_def)
  then have "asked iss (h, body)" using up by (auto simp: up_ok_def)
  then obtain k where k: "k < length iss" "(h, body) = request_frame k (iss ! k)" by (auto simp: asked_def)
  have "call_fits (iss ! k)" using iss k(1) by simp
  then have fr: "response_fits resp" "length (response_layout resp) < 2 ^ 32"
    using fit ans k(2) unfolding answers_fit_def by (metis fst_conv snd_conv)+
  let ?f = "(response_header h resp (response_layout resp), response_layout resp)"
  have sq: "seq_id h = seq_of k" using k(2) by (simp add: request_frame_def request_header_def)
  have "answers m iss (seq_id h) resp"
    unfolding answers_def using k ans sq by (metis fst_conv snd_conv)
  then have "answer_ok m iss ?f" using fr by (auto simp: answer_ok_def response_header_def)
  moreover have "frame_ok ?f"
    using fr(2) by (simp add: frame_ok_def response_header_def unat_of_nat take_bit_eq_mod del: length_layout)
  moreover have "seq_id (fst ?f) \<in> set (ran (Some r) L)" using L(1) by (force simp: ran_def response_header_def)
  moreover have "d = frame_bytes ?f" using L(2) by (simp add: answer_frame_def frame_bytes_def)
  ultimately show thesis using that by blast
qed

section \<open>Every step keeps it\<close>

lemma all_known:
  assumes "net_inv_with m p L fu fd s" and "x \<in># pipeline s p fu"
  shows "\<exists>k < length (issued s). x = seq_of k"
proof -
  note i = net_inv_withD [OF assms(1)]
  note c = client_okD [OF i(1)]
  have a: "\<exists>k < length (issued s). seq_id (fst f) = seq_of k" if "asked (issued s) f" for f
    using that by (auto simp: asked_def request_frame_def request_header_def)
  from assms(2) consider "x \<in> fst ` set (drafts (ncl s))" | "x \<in> item_seq ` set (items (ncl s))"
    | "x \<in> (\<lambda>f. seq_id (fst f)) ` set fu" | r j where "peer s = Some r" "j \<in> set (jobs_of r p)" "x = seq_id (fst j)"
    by (auto simp: pipeline_def on_the_way_def frame_seqs_def delivered_seqs_def split: option.splits)
  then show ?thesis
  proof cases
    case 1
    then obtain k req where "(x, k, req) \<in> set (drafts (ncl s))" by force
    then show ?thesis using c(1,5) by (fastforce simp: promise_inv_def Let_def)
  next
    case 2
    then show ?thesis using c(6) by (force simp: item_asked_def request_item_def)
  next
    case 3
    then show ?thesis using i(4) a by (auto simp: up_ok_def)
  next
    case 4
    then show ?thesis using i(4) a [of "(fst j, fst (snd j))" for j] by (auto simp: up_ok_def)
  qed
qed

lemma peer_op_cong: "nsv t = nsv s \<Longrightarrow> peer t = peer s \<Longrightarrow> peer_op t = peer_op s"
  by (simp add: peer_op_def split: option.split)

lemma inv_fetch:
  assumes "net_inv_with m p L fu fd s" and "fetch_seq (client (ncl s)) = (k, sq, c)" and "call_fits req"
    and "calls c \<le> 2 ^ 32"
  shows "net_inv_with m p L fu fd
    (s\<lparr>ncl := (ncl s)\<lparr>client := c, drafts := drafts (ncl s) @ [(sq, k, req)]\<rparr>, issued := issued s @ [req]\<rparr>)" (is "net_inv_with _ _ _ _ _ ?t")
proof -
  note i = net_inv_withD [OF assms(1)]
  note f = client_ok_fetch [OF i(1) assms(2-4)]
  let ?n = "length (issued s)"
  have n: "?n < 2 ^ 32"
    using client_okD(3) [OF i(1)] assms(2,4) by (auto simp: fetch_seq_def)
  have "seq_of ?n \<notin># pipeline s p fu"
  proof
    assume "seq_of ?n \<in># pipeline s p fu"
    then obtain j where "j < ?n" "seq_of ?n = seq_of j" using all_known [OF assms(1)] by blast
    then show False using seq_of_inject [of ?n j] n by simp
  qed
  then have z: "count (pipeline s p fu) (seq_of ?n) = 0" by (simp add: not_in_iff)
  have pl: "pipeline ?t p fu = add_mset (seq_of ?n) (pipeline s p fu)"
    using f(5) by (simp add: pipeline_def)
  have "once (pipeline ?t p fu)" unfolding pl using i(6) z by (simp add: once_def)
  moreover have "link_ok ?t fu fd" using i(3) f(4) peer_op_cong [of ?t s] by (simp add: link_ok_def)
  moreover have "up_ok (issued ?t) (peer ?t) p fu" using i(4) asked_mono(1) by (auto simp: up_ok_def)
  moreover have "down_ok m (issued ?t) fd (received (ncl ?t))"
    using i(5) asked_mono(3,4) by (simp add: down_ok_def) blast
  moreover have "ran_ok (peer s) L fd (received (ncl ?t))" using i(8) f(3) by simp
  moreover have "awaited (ncl ?t) = awaited (ncl s)" using assms(2) by (auto simp: awaited_def fetch_seq_def)
  then have "tracked ?t p fu fd" using i(9) unfolding tracked_def pl by auto
  ultimately show ?thesis using i(2) f(1) assms(4) by (simp add: net_inv_with_def)
qed

text \<open>A step of the client that hands nothing to the socket; it may read.\<close>

lemma inv_client:
  assumes "net_inv_with m p L fu fd s" and "cl_step (ncl s) t" and "locally (ncl s) t"
    and "down_ok m (issued s) fd' (received t)" and "reading (client_read (client t)) (down_broken s) dn fd'"
    and "linked s \<longrightarrow> ln" and "peer s = None \<longrightarrow> dn = [] \<and> fd' = []" and "ran_ok (peer s) L fd' (received t)"
    and "awaited t \<subseteq> awaited (ncl s) \<union> fst ` set (drafts (ncl s))" and "\<And>x. x \<in> seqs fd \<Longrightarrow> x \<in> awaited t \<Longrightarrow> x \<in> seqs fd'"
  shows "net_inv_with m p L fu fd' (s\<lparr>ncl := t, linked := ln, down := dn\<rparr>)"
proof -
  note i = net_inv_withD [OF assms(1)]
  have "client_ok t (issued s)" using client_ok_locally [OF i(1) assms(2,3) i(7)] .
  moreover have "on_the_way t = on_the_way (ncl s)" "calls (client t) = calls (client (ncl s))"
    using assms(3) by (simp_all add: locally_def)
  moreover have "tracked (s\<lparr>ncl := t, linked := ln, down := dn\<rparr>) p fu fd'" (is "tracked ?t p fu fd'")
  proof -
    have pl: "pipeline ?t p fu = pipeline s p fu" using calculation(2) by (simp add: pipeline_def)
    have dr: "x \<in># on_the_way (ncl s)" if "x \<in> fst ` set (drafts (ncl s))" for x
      using that by (auto simp: on_the_way_def)
    have "x \<in># pipeline ?t p fu" if "x \<in> awaited t" for x
    proof (cases "x \<in> awaited (ncl s)")
      case True
      then show ?thesis using trackedD(1) [OF i(9)] unfolding pl by blast
    next
      case False
      then show ?thesis using that assms(9) dr unfolding pl by (auto simp: pipeline_def)
    qed
    then have "awaited (ncl ?t) \<subseteq> set_mset (pipeline ?t p fu)" by auto
    moreover have "frame_seq d \<in> seqs fd'"
      if d: "peer s = Some r" "store (cycle (nsv s)) r = Some c" "d \<in> set (wire c)" "frame_seq d \<in> awaited t" for r c d
    proof (cases "frame_seq d \<in> awaited (ncl s)")
      case True
      then show ?thesis using trackedD(3) [OF i(9) d(1-3)] d(4) assms(10) by blast
    next
      case False
      then have "0 < count (on_the_way (ncl s)) (frame_seq d)" using assms(9) d(4) dr by force
      moreover have "0 < count (delivered_seqs (peer s) p) (frame_seq d)"
        using wire_delivered [OF i(2) d(2), of d] d(1,3) by (simp add: cw.handed_over_def)
      moreover have "count (pipeline s p fu) (frame_seq d) \<le> 1" using i(6) by (simp add: once_def)
      ultimately have False unfolding pipeline_def count_union by linarith
      then show ?thesis ..
    qed
    ultimately show ?thesis using trackedD(2) [OF i(9)] by (simp add: tracked_def)
  qed
  ultimately show ?thesis
    using i assms(4-8) peer_op_cong [of "s\<lparr>ncl := t, linked := ln, down := dn\<rparr>" s]
    by (auto simp: net_inv_with_def link_ok_def pipeline_def)
qed

lemma resolve_keys: "fst ` set (pending (resolve sq resp c)) = fst ` set (pending c) - {sq}"
proof -
  have "fst ` set (AList.delete sq xs) = fst ` set xs - {sq}" for xs :: "(u32 \<times> nat) list"
    using arg_cong [OF delete_keys [of sq xs], of set] by simp
  then show ?thesis by (simp add: resolve_def map_of_eq_None_iff split: option.split)
qed

lemma cl_local_awaited: "cl_local cs t \<Longrightarrow> awaited t \<subseteq> awaited cs \<union> fst ` set (drafts cs)"
proof (induction rule: cl_local.induct)
  case (loc_register s xs sq k req ys item)
  then show ?case using update_conv [of sq k "pending (client s)"] by (auto simp: awaited_def add_pending_def dom_update)
qed (auto simp: awaited_def connect_def resolve_handler_def connect_handler_def push_item_def enter_client_write_def client_do_write_def
    client_header_handler_def client_body_handler_def reject_all_pending_def close_socket_def stop_io_def Let_def
    split: ec.splits list.splits if_splits)

lemma inv_local:
  assumes "net_inv_with m p L fu fd s" and "cl_local (ncl s) t"
  shows "net_inv_with m p L fu fd (s\<lparr>ncl := t\<rparr>)"
proof -
  note i = net_inv_withD [OF assms(1)]
  note l = cl_local_locally [OF assms(2) client_okD(2) [OF i(1)]]
  have "reading (client_read (client t)) (down_broken s) (down s) fd"
    using i(3) l reading_stop unfolding link_ok_def by blast
  then have "net_inv_with m p L fu fd (s\<lparr>ncl := t, linked := linked s, down := down s\<rparr>)"
    using l i(3,5,8) cl_local_awaited [OF assms(2)] by (intro inv_client [OF assms(1) cl_local_step [OF assms(2)]]) (auto simp: link_ok_def)
  then show ?thesis by simp
qed

lemma inv_link:
  assumes "net_inv_with m p L fu fd s" and "connect_op (client (ncl s)) = Connecting"
    and "\<not> client_stopped (client (ncl s))" and "\<not> linked s"
  shows "net_inv_with m p L fu fd (s\<lparr>ncl := with_client (connect_handler Success) (ncl s), linked := True\<rparr>)"
    (is "net_inv_with m p L fu fd (s\<lparr>ncl := ?t, linked := True\<rparr>)")
proof -
  note i = net_inv_withD [OF assms(1)]
  have e: "down s = []" "\<not> down_broken s" "fd = []" using i(3) assms(4) by (auto simp: link_ok_def)
  have "net_inv_with m p L fu fd (s\<lparr>ncl := ?t, linked := True, down := down s\<rparr>)"
  proof (rule inv_client [OF assms(1)])
    show "cl_step (ncl s) ?t" unfolding with_client_def using assms(2,3) by (rule cl_connected)
    show "locally (ncl s) ?t" by (rule handler_locally)
    show "down_ok m (issued s) fd (received ?t)" "ran_ok (peer s) L fd (received ?t)"
      using i(5,8) by (simp_all add: with_client_def)
    show "reading (client_read (client ?t)) (down_broken s) (down s) fd"
      using e by (simp add: with_client_def connect_handler_def start_read_loop_def client_read_header_def flows_def Let_def)
    show "awaited ?t \<subseteq> awaited (ncl s) \<union> fst ` set (drafts (ncl s))"
      by (auto simp: awaited_def with_client_def connect_handler_def start_read_loop_def client_read_header_def Let_def)
  qed (use e in simp_all)
  then show ?thesis by simp
qed

lemma inv_read_header:
  assumes "net_inv_with m p L fu fd s" and r: "client_read (client (ncl s)) = ReadHeader"
    and "\<not> client_stopped (client (ncl s))" and n: "20 \<le> length (down s)"
  shows "net_inv_with m p L fu fd
    (s\<lparr>ncl := with_client (client_header_handler Success (take 20 (down s))) (ncl s), down := drop 20 (down s)\<rparr>)"
    (is "net_inv_with m p L fu fd (s\<lparr>ncl := ?t, down := _\<rparr>)")
proof -
  note i = net_inv_withD [OF assms(1)]
  have "reading ReadHeader (down_broken s) (down s) fd" using i(3) r by (simp add: link_ok_def)
  from reading_header [OF this n] obtain h body fs' where h: "take 20 (down s) = header_layout h" "magic h = MAGIC"
      "reading (ReadBody h) (down_broken s) (drop 20 (down s)) fd" by metis
  have op: "client_read (client ?t) = ReadBody h"
    using h(1,2) deserialize_header_layout [of h "[]"] by (simp add: with_client_def client_header_handler_def)
  have "net_inv_with m p L fu fd (s\<lparr>ncl := ?t, linked := linked s, down := drop 20 (down s)\<rparr>)"
  proof (rule inv_client [OF assms(1)])
    show "cl_step (ncl s) ?t" unfolding with_client_def using assms(2,3) by (rule cl_header)
    show "locally (ncl s) ?t" by (rule handler_locally)
    show "down_ok m (issued s) fd (received ?t)" "ran_ok (peer s) L fd (received ?t)"
      using i(5,8) by (simp_all add: with_client_def)
    show "reading (client_read (client ?t)) (down_broken s) (drop 20 (down s)) fd" using h(3) op by simp
    show "peer s = None \<longrightarrow> drop 20 (down s) = [] \<and> fd = []" using i(3) n by (auto simp: link_ok_def)
    show "awaited ?t \<subseteq> awaited (ncl s) \<union> fst ` set (drafts (ncl s))"
      by (auto simp: awaited_def with_client_def client_header_handler_def reject_all_pending_def Let_def split: res.splits)
  qed simp
  then show ?thesis by simp
qed

lemma inv_read_body:
  assumes "net_inv_with m p L fu fd s" and r: "client_read (client (ncl s)) = ReadBody h"
    and "\<not> client_stopped (client (ncl s))" and n: "unat (body_size h) \<le> length (down s)"
    and "buf = take (unat (body_size h)) (down s)"
  shows "\<exists>fd'. net_inv_with m p L fu fd'
    (s\<lparr>ncl := (ncl s)\<lparr>client := client_body_handler h Success buf (client (ncl s)),
                   received := received (ncl s) @ response_in h Success buf\<rparr>,
       down := drop (unat (body_size h)) (down s)\<rparr>)" (is "\<exists>_. net_inv_with m p L fu _ (s\<lparr>ncl := ?t, down := ?d\<rparr>)")
proof -
  note i = net_inv_withD [OF assms(1)]
  have "reading (ReadBody h) (down_broken s) (down s) fd" using i(3) r by (simp add: link_ok_def)
  from reading_body [OF this n] assms(5) obtain fd' where f: "fd = (h, buf) # fd'" "reading ReadHeader (down_broken s) ?d fd'"
    by metis
  have "answer_ok m (issued s) (h, buf)" using i(5) f(1) by (simp add: down_ok_def)
  then obtain resp where resp: "buf = response_layout resp" "response_fits resp" "answers m (issued s) (seq_id h) resp"
    by (auto simp: answer_ok_def)
  have des: "deserialize_response buf = Ret resp" using deserialize_response_layout [OF resp(2), of "[]"] resp(1) by simp
  have "net_inv_with m p L fu fd' (s\<lparr>ncl := ?t, linked := linked s, down := ?d\<rparr>)"
  proof (rule inv_client [OF assms(1)])
    show "cl_step (ncl s) ?t" using assms(2,3) by (rule cl_body)
    show "locally (ncl s) ?t" by (rule handler_locally)
    show "down_ok m (issued s) fd' (received ?t)" "ran_ok (peer s) L fd' (received ?t)"
      using i(5,8) f(1) resp(3) des by (auto simp: down_ok_def ran_ok_def response_in_def)
    show "reading (client_read (client ?t)) (down_broken s) ?d fd'"
      using f(2) des by (simp add: client_body_handler_def client_read_header_def)
    show "peer s = None \<longrightarrow> ?d = [] \<and> fd' = []" using i(3) f(1) by (auto simp: link_ok_def)
    have aw: "awaited ?t = awaited (ncl s) - {seq_id h}"
      using des by (simp add: client_body_handler_def client_read_header_def resolve_keys awaited_def)
    then show "awaited ?t \<subseteq> awaited (ncl s) \<union> fst ` set (drafts (ncl s))" by blast
    show "x \<in> seqs fd'" if "x \<in> seqs fd" "x \<in> awaited ?t" for x using that f(1) aw by (auto simp: seqs_def)
  qed simp
  then show ?thesis by auto
qed

lemma inv_accept:
  assumes "net_inv_with m p L fu fd s" and "linked s" and "peer s = None"
  shows "net_inv_with m p L fu fd
    (s\<lparr>nsv := (nsv s)\<lparr>cycle := accept_handler Success (cycle (nsv s))\<rparr>, peer := Some (fresh (cycle (nsv s)))\<rparr>)"
    (is "net_inv_with _ _ _ _ _ ?t")
proof -
  note i = net_inv_withD [OF assms(1)]
  let ?r = "fresh (cycle (nsv s))"
  have "store (cycle (nsv s)) ?r = None" using sv_invD(4) [OF i(2)] by simp
  then have "jobs_of ?r p = []" using sv_invD(5) [OF i(2)] by (force simp: jobs_of_def filter_empty_conv)
  then have "up_ok (issued s) (Some ?r) p fu" "pipeline ?t p fu = pipeline s p fu"
    using i(4) assms(3) by (auto simp: up_ok_def pipeline_def delivered_seqs_def)
  moreover have "peer_op ?t = ReadHeader"
    by (simp add: peer_op_def op_of_def accept_handler_store start_read_def do_read_header_def)
  moreover have "ran_ok (Some ?r) L fd (received (ncl s))" using ran_ok_mono [of None L fd _ _ "[]"] i(8) assms(3) by simp
  moreover have "tracked ?t p fu fd"
    using i(9) calculation(2) by (simp add: tracked_def accept_handler_store start_read_def do_read_header_def new_connection_def)
  moreover have "peer_op s = ReadHeader" using assms(3) by (simp add: peer_op_def)
  moreover have "reading (client_read (client (ncl s))) False [] []" "down s = []" "\<not> down_broken s" "fd = []"
    using i(3) assms(3) by (auto simp: link_ok_def)
  ultimately show ?thesis
    using i sv_inv_accept [OF i(2), of Success] assms(2,3)
    by (simp add: net_inv_with_def link_ok_def accept_handler_store)
qed

lemma client_write_keys:
  assumes "client_write c = Some item"
  shows "fst ` set (pending (client_write_handler ec c)) \<subseteq> fst ` set (pending c)"
    "ec \<noteq> Success \<Longrightarrow> item_seq item \<notin> fst ` set (pending (client_write_handler ec c))"
proof -
  have k: "pending (client_do_write d) = pending d" for d by (simp add: client_do_write_def split: list.split)
  show "fst ` set (pending (client_write_handler ec c)) \<subseteq> fst ` set (pending c)"
    "ec \<noteq> Success \<Longrightarrow> item_seq item \<notin> fst ` set (pending (client_write_handler ec c))"
    using assms by (simp_all add: client_write_handler_def k resolve_keys Let_def split: ec.split)
qed

lemma inv_write:
  assumes "net_inv_with m p L fu fd s" and "client_write (client (ncl s)) = Some item"
    and "\<not> client_stopped (client (ncl s))"
  obtains f where "frame item = frame_bytes f" "frame_ok f"
    "\<And>ec fu' a b. fu' = fu \<and> ec \<noteq> Success \<or> fu' = fu @ [f] \<Longrightarrow> reading (peer_op s) b a fu' \<Longrightarrow> linked s \<or> \<not> b \<Longrightarrow>
       net_inv_with m p L fu' fd (s\<lparr>ncl := with_client (client_write_handler ec) (ncl s), up := a, up_broken := b\<rparr>)"
proof -
  note i = net_inv_withD [OF assms(1)]
  note w = client_ok_write [OF i(1) assms(2,3) i(7) refl]
  obtain f where f: "asked (issued s) f" "frame item = frame_bytes f" "frame_ok f" "item_seq item = seq_id (fst f)"
    using item_frame [OF w(2) client_okD(4) [OF i(1)]] by blast
  have "net_inv_with m p L fu' fd (s\<lparr>ncl := with_client (client_write_handler ec) (ncl s), up := a, up_broken := b\<rparr>)"
      (is "net_inv_with m p L fu' fd ?t")
    if fu: "fu' = fu \<and> ec \<noteq> Success \<or> fu' = fu @ [f]" and rd: "reading (peer_op s) b a fu'" and b: "linked s \<or> \<not> b" for ec fu' a b
  proof -
    have "link_ok ?t fu' fd"
      using i(3) rd b w(5) [where ec = ec] peer_op_cong [of ?t s] by (auto simp: link_ok_def)
    moreover have "up_ok (issued s) (peer s) p fu'" using i(4) fu f(1) by (auto simp: up_ok_def)
    moreover have "pipeline ?t p fu' \<subseteq># pipeline s p fu"
      using fu w(6) [where ec = ec] f(4) by (auto simp: pipeline_def frame_seqs_def)
    then have "once (pipeline ?t p fu')" using i(6) once_subset by blast
    moreover have "tracked ?t p fu' fd"
    proof -
      have "x \<in># pipeline ?t p fu'" if x: "x \<in> awaited (ncl ?t)" for x
      proof (cases "fu' = fu @ [f]")
        case True
        then have "pipeline ?t p fu' = pipeline s p fu" using w(6) [where ec = ec] f(4) by (simp add: pipeline_def frame_seqs_def)
        then show ?thesis using x client_write_keys(1) [OF assms(2), of ec] trackedD(1) [OF i(9)] by (auto simp: awaited_def with_client_def)
      next
        case False
        then have e: "fu' = fu" "ec \<noteq> Success" using fu by auto
        have "pipeline s p fu = add_mset (item_seq item) (pipeline ?t p fu')"
          using w(6) [where ec = ec] e(1) by (simp add: pipeline_def)
        moreover have "x \<in> fst ` set (pending (client_write_handler ec (client (ncl s))))" using x by (simp add: awaited_def with_client_def)
        then have "x \<in># pipeline s p fu" "x \<noteq> item_seq item"
          using client_write_keys [OF assms(2), of ec] e(2) trackedD(1) [OF i(9), of x] unfolding awaited_def by blast+
        ultimately show ?thesis by simp
      qed
      moreover have "awaited (ncl ?t) \<subseteq> awaited (ncl s)"
        using client_write_keys(1) [OF assms(2), of ec] by (simp add: awaited_def with_client_def)
      ultimately show ?thesis using i(9) unfolding tracked_def by (simp add: subset_iff)
    qed
    ultimately show ?thesis using i w(1,3,4) [where ec = ec] by (simp add: net_inv_with_def)
  qed
  then show thesis using that [OF f(2,3)] by simp
qed

lemma inv_written:
  assumes "net_inv_with m p L fu fd s" and "client_write (client (ncl s)) = Some item"
    and "\<not> client_stopped (client (ncl s))" and "linked s" and "\<not> up_broken s"
  shows "net_inv_from m L (s\<lparr>ncl := with_client (client_write_handler Success) (ncl s), up := up s @ frame item\<rparr>)"
proof -
  obtain f where f: "frame item = frame_bytes f" "frame_ok f"
    and step: "\<And>ec fu' a b. fu' = fu \<and> ec \<noteq> Success \<or> fu' = fu @ [f] \<Longrightarrow> reading (peer_op s) b a fu' \<Longrightarrow> linked s \<or> \<not> b \<Longrightarrow>
       net_inv_with m p L fu' fd (s\<lparr>ncl := with_client (client_write_handler ec) (ncl s), up := a, up_broken := b\<rparr>)"
    by (rule inv_write [OF assms(1-3)]) (rule that; simp)
  have "reading (peer_op s) False (up s) fu" using net_inv_withD(3) [OF assms(1)] assms(5) by (simp add: link_ok_def)
  note step [where fu' = "fu @ [f]" and ec = Success, OF _ reading_write [OF this f(2)]]
  moreover have "s\<lparr>ncl := t, up := a, up_broken := False\<rparr> = s\<lparr>ncl := t, up := a\<rparr>" for t a
    using assms(5) by (cases s) simp
  ultimately show ?thesis using f(1) by (simp add: net_inv_fromI(1))
qed

lemma inv_write_failed:
  assumes "net_inv_with m p L fu fd s" and "client_write (client (ncl s)) = Some item"
    and "\<not> client_stopped (client (ncl s))" and "prefix d (frame item)" and "\<not> linked s \<or> up_broken s \<longrightarrow> d = []"
  shows "net_inv_from m L
    (s\<lparr>ncl := with_client (client_write_handler (Failure e)) (ncl s), up := up s @ d, up_broken := linked s\<rparr>)"
proof -
  obtain f where f: "frame item = frame_bytes f" "frame_ok f"
    and step: "\<And>ec fu' a b. fu' = fu \<and> ec \<noteq> Success \<or> fu' = fu @ [f] \<Longrightarrow> reading (peer_op s) b a fu' \<Longrightarrow> linked s \<or> \<not> b \<Longrightarrow>
       net_inv_with m p L fu' fd (s\<lparr>ncl := with_client (client_write_handler ec) (ncl s), up := a, up_broken := b\<rparr>)"
    by (rule inv_write [OF assms(1-3)]) (rule that; simp)
  have r: "reading (peer_op s) (up_broken s) (up s) fu" "\<not> linked s \<longrightarrow> \<not> up_broken s"
    using net_inv_withD(3) [OF assms(1)] by (simp_all add: link_ok_def)
  show ?thesis
  proof (cases "linked s \<and> \<not> up_broken s")
    case True
    then have "reading (peer_op s) True (up s @ d) (fu @ [f])"
      using reading_break [of "peer_op s" "up s" fu f d] r(1) f assms(4) by simp
    from step [where ec = "Failure e", OF _ this] True show ?thesis by (simp add: net_inv_fromI(1))
  next
    case False
    then have "d = []" "up_broken s = linked s" using assms(5) r(2) by auto
    with step [where fu' = fu and b = "linked s" and a = "up s" and ec = "Failure e"] r(1) show ?thesis by (simp add: net_inv_fromI(1))
  qed
qed


lemma filter_jobs [simp]: "filter (\<lambda>j. snd (snd j) = r) (map (\<lambda>(h, b). (h, b, r)) ms) = map (\<lambda>(h, b). (h, b, r)) ms"
  by (induction ms) auto

text \<open>What a completed operation of the peer leaves: \<open>fu\<close> is split into the frame it delivered and the rest.\<close>

lemma inv_serve:
  assumes inv: "net_inv_with m p L fu fd s" and r: "peer s = Some r" and c: "store (cycle (nsv s)) r = Some c"
    and holds: "conn_holds (frames_for r L) (fst (f c))" and sv: "serve m r f (nsv s) = Some sv"
    and fu: "fu = ms @ fu'" and ms: "concat (map message_of (snd (f c))) = ms"
    and om: "on_message (fst (f c)) = on_message c" and wr: "\<forall>d \<in> set (wire (fst (f c))). d \<in> set (wire c) \<or> frame_seq d \<in> seqs fd'"
    and sq: "seqs fd \<subseteq> seqs fd'"
    and up: "reading (read_op (fst (f c))) (up_broken s) a fu'"
    and dn: "reading (client_read (client (ncl s))) b d fd'" and fd: "\<forall>g \<in> set fd'. answer_ok m (issued s) g" "\<forall>g \<in> set fd'. seq_id (fst g) \<in> set (ran (Some r) L)"
  shows "net_inv_from m L (s\<lparr>nsv := sv, up := a, down := d, down_broken := b\<rparr>)" (is "net_inv_from m L ?t")
proof -
  note i = net_inv_withD [OF inv]
  obtain p' where p': "sv_inv m p' L sv" "store (cycle sv) = (store (cycle (nsv s)))(r \<mapsto> fst (f c))"
      "fresh (cycle sv) = fresh (cycle (nsv s))"
      "accepted p' = accepted p @ map (\<lambda>(h, b). (h, b, r)) (concat (map message_of (snd (f c))))"
    using sv_inv_serve [OF i(2) c holds sv] by blast
  let ?ms = "concat (map message_of (snd (f c)))"
  have j: "jobs_of r p' = jobs_of r p @ map (\<lambda>(h, b). (h, b, r)) ?ms" by (simp add: jobs_of_def p'(4))
  have "peer_op ?t = read_op (fst (f c))" using r by (simp add: peer_op_def op_of_def p'(2))
  then have "link_ok ?t fu' fd'" using i(3) r p'(3) up dn by (simp add: link_ok_def)
  moreover have "\<forall>g \<in> set ?ms. asked (issued s) g"
    using i(4) fu ms by (simp add: up_ok_def)
  then have "up_ok (issued s) (peer s) p' fu'" using i(4) r fu j by (force simp: up_ok_def)
  moreover have "down_ok m (issued s) fd' (received (ncl s))" using i(5) fd by (simp add: down_ok_def)
  moreover have pl: "pipeline ?t p' fu' = pipeline s p fu"
    using r j ms by (simp add: pipeline_def delivered_seqs_def frame_seqs_def fu comp_def case_prod_beta)
  then have "once (pipeline ?t p' fu')" using i(6) by simp
  moreover have "tracked ?t p' fu' fd'"
    using i(9) r c om wr sq unfolding tracked_def pl by (auto simp: p'(2))
  moreover have "ran_ok (peer s) L fd' (received (ncl s))" using i(8) fd(2) r by (simp add: ran_ok_def)
  ultimately have "net_inv_with m p' L fu' fd' ?t" using i(1,7) p'(1) r by (simp add: net_inv_with_def)
  then show ?thesis by (rule net_inv_fromI(1))
qed

lemma conn_of_peer:
  assumes "net_inv_with m p L fu fd s" and "peer s = Some r" and "store (cycle (nsv s)) r = Some c"
  shows "reading (read_op c) (up_broken s) (up s) fu" "conn_holds (frames_for r L) c"
    "reading (client_read (client (ncl s))) (down_broken s) (down s) fd" "\<forall>g \<in> set fd. answer_ok m (issued s) g"
    "\<forall>g \<in> set fd. seq_id (fst g) \<in> set (ran (Some r) L)"
  using net_inv_withD [OF assms(1)] assms(2,3) sv_invD(8)
  by (auto simp: link_ok_def peer_op_def op_of_def down_ok_def ran_ok_def)

lemma inv_serve_header:
  assumes inv: "net_inv_with m p L fu fd s" and r: "peer s = Some r" and c: "store (cycle (nsv s)) r = Some c"
    and op: "read_op c = ReadHeader" and n: "20 \<le> length (up s)"
    and sv: "serve m r (header_handler Success (take 20 (up s))) (nsv s) = Some sv"
  shows "net_inv_from m L (s\<lparr>nsv := sv, up := drop 20 (up s)\<rparr>)"
proof -
  note k = conn_of_peer [OF inv r c]
  have "reading ReadHeader (up_broken s) (up s) fu" using k(1) op by simp
  from reading_header [OF this n] obtain h body fs' where h: "take 20 (up s) = header_layout h" "magic h = MAGIC"
      "reading (ReadBody h) (up_broken s) (drop 20 (up s)) fu" by metis
  have hd: "header_handler Success (take 20 (up s)) c =
      (do_read_body h (c\<lparr>read_op := NoRead, header_buf := take 20 (up s)\<rparr>), [])"
    using h(1,2) deserialize_header_layout [of h "[]"] by (simp add: header_handler_def)
  have "conn_holds (frames_for r L) (fst (header_handler Success (take 20 (up s)) c))"
    using conn_holds_read [OF k(2)] by blast
  from inv_serve [OF inv r c this sv, of "[]" fu, OF _ _ _ _ _ _ k(3-5)] h(3)
  have "net_inv_from m L (s\<lparr>nsv := sv, up := drop 20 (up s), down := down s, down_broken := down_broken s\<rparr>)"
    by (simp add: hd do_read_body_def Let_def)
  then show ?thesis by simp
qed

lemma inv_serve_body:
  assumes inv: "net_inv_with m p L fu fd s" and r: "peer s = Some r" and c: "store (cycle (nsv s)) r = Some c"
    and op: "read_op c = ReadBody h" and n: "unat (body_size h) \<le> length (up s)"
    and sv: "serve m r (body_handler h Success (take (unat (body_size h)) (up s))) (nsv s) = Some sv"
  shows "net_inv_from m L (s\<lparr>nsv := sv, up := drop (unat (body_size h)) (up s)\<rparr>)"
proof -
  note k = conn_of_peer [OF inv r c]
  let ?b = "take (unat (body_size h)) (up s)" and ?d = "drop (unat (body_size h)) (up s)"
  have "reading (ReadBody h) (up_broken s) (up s) fu" using k(1) op by simp
  from reading_body [OF this n] obtain fu' where f: "fu = [(h, ?b)] @ fu'" "reading ReadHeader (up_broken s) ?d fu'"
    by (metis append_Cons append_Nil)
  have "net_inv_from m L (s\<lparr>nsv := sv, up := ?d, down := down s, down_broken := down_broken s\<rparr>)"
  proof (rule inv_serve [OF inv r c _ sv f(1) _ _ _ _ _ k(3-5)])
    show "conn_holds (frames_for r L) (fst (body_handler h Success ?b c))" using conn_holds_read [OF k(2)] by blast
    show "reading (read_op (fst (body_handler h Success ?b c))) (up_broken s) ?d fu'"
      using f(2) by (simp add: body_handler_def do_read_header_def)
    have "on_message c" using trackedD(2) [OF net_inv_withD(9) [OF inv] r c] .
    then show "concat (map message_of (snd (body_handler h Success ?b c))) = [(h, ?b)]"
      "on_message (fst (body_handler h Success ?b c)) = on_message c"
      "\<forall>d \<in> set (wire (fst (body_handler h Success ?b c))). d \<in> set (wire c) \<or> frame_seq d \<in> seqs fd"
      by (simp_all add: body_handler_def do_read_header_def Let_def)
  qed simp
  then show ?thesis by simp
qed

lemma inv_serve_write:
  assumes inv: "net_inv_with m p L fu fd s" and r: "peer s = Some r" and c: "store (cycle (nsv s)) r = Some c"
    and op: "write_op c = Some d" and fit: "answers_fit m" and sv: "serve m r (write_handler ec) (nsv s) = Some sv"
    and ec: "ec = Success \<longrightarrow> \<not> down_broken s" and a: "\<not> down_broken s \<and> (b \<and> prefix a d \<or> \<not> b \<and> a = d) \<or> down_broken s \<and> b \<and> a = []"
  shows "net_inv_from m L (s\<lparr>nsv := sv, down := down s @ a, down_broken := b\<rparr>)"
proof -
  note k = conn_of_peer [OF inv r c]
  note i = net_inv_withD [OF inv]
  have "d \<in> set (cw.handed_over c)" using op by (simp add: cw.handed_over_def)
  then obtain g where g: "d = frame_bytes g" "frame_ok g" "answer_ok m (issued s) g" "seq_id (fst g) \<in> set (ran (Some r) L)"
    using peer_frame [OF i(2) c _ _ fit client_okD(4) [OF i(1)]] i(4) r by metis
  have "\<exists>fd'. reading (client_read (client (ncl s))) b (down s @ a) fd' \<and> (\<forall>x \<in> set fd'. answer_ok m (issued s) x) \<and>
      (\<forall>x \<in> set fd'. seq_id (fst x) \<in> set (ran (Some r) L)) \<and> seqs fd \<subseteq> seqs fd' \<and> (ec = Success \<longrightarrow> frame_seq d \<in> seqs fd')"
  proof (cases "down_broken s")
    case True
    then show ?thesis using a k(3-5) ec by (intro exI [of _ fd]) simp
  next
    case False
    then have "reading (client_read (client (ncl s))) b (down s @ a) (fd @ [g])"
      using a g(1,2) k(3) reading_write [of _ "down s" fd g] reading_break [of _ "down s" fd g a] by (cases b) simp_all
    then show ?thesis using k(4,5) g(1,3,4) by (intro exI [of _ "fd @ [g]"]) (auto simp: seqs_def frame_bytes_def split: prod.splits)
  qed
  then obtain fd' where fd': "reading (client_read (client (ncl s))) b (down s @ a) fd'" "\<forall>x \<in> set fd'. answer_ok m (issued s) x"
      "\<forall>x \<in> set fd'. seq_id (fst x) \<in> set (ran (Some r) L)"
    and sq: "seqs fd \<subseteq> seqs fd'" "ec = Success \<longrightarrow> frame_seq d \<in> seqs fd'"
    by blast
  have h: "conn_holds (frames_for r L) (fst (write_handler ec c))" using conn_holds_write [OF k(2)] op by simp
  have wr: "\<forall>x \<in> set (wire (fst (write_handler ec c))). x \<in> set (wire c) \<or> frame_seq x \<in> seqs fd'"
    using op sq(2) by (auto simp: write_handler_def close_once_def do_write_def split: ec.splits list.splits)
  from inv_serve [OF inv r c _ sv, where ms = "[]" and fu' = fu and a = "up s", OF h _ _ write_handler_untouched(3) wr sq(1) _ fd'] k(1)
  have "net_inv_from m L (s\<lparr>nsv := sv, up := up s, down := down s @ a, down_broken := b\<rparr>)"
    unfolding write_handler_untouched(1,2) [of ec c] by simp
  then show ?thesis by simp
qed

lemma inv_server:
  assumes inv: "net_inv_with m p L fu fd s" and "services_keep m" and st: "sv_step m (\<lambda>r. peer s \<noteq> Some r) (nsv s) sv"
  shows "net_inv_from m L (s\<lparr>nsv := sv\<rparr>)"
proof -
  note i = net_inv_withD [OF inv]
  have "\<exists>p' L'. sv_inv m p' (L @ L') sv \<and> (\<forall>r. peer s = Some r \<longrightarrow> untouched r p (nsv s) p' sv)"
  proof (cases "peer s")
    case None
    then show ?thesis using sv_inv_step [OF st assms(2) i(2)] by auto
  next
    case (Some r)
    then show ?thesis using sv_step_untouched [OF st assms(2) i(2), of r] by auto
  qed
  then obtain p' L' where p': "sv_inv m p' (L @ L') sv" "\<And>r. peer s = Some r \<Longrightarrow> untouched r p (nsv s) p' sv" by blast
  let ?t = "s\<lparr>nsv := sv\<rparr>"
  have "peer_op ?t = peer_op s \<or> peer_op ?t = NoRead"
    using p'(2) i(3) by (auto simp: peer_op_def untouched_def link_ok_def split: option.splits)
  then have "link_ok ?t fu fd"
    using i(3) p'(2) reading_stop by (fastforce simp: link_ok_def untouched_def)
  moreover have "up_ok (issued s) (peer s) p' fu" "delivered_seqs (peer s) p' = delivered_seqs (peer s) p"
    using i(4) p'(2) by (auto simp: up_ok_def delivered_seqs_def untouched_def split: option.splits)
  moreover have "tracked ?t p' fu fd"
  proof -
    have "pipeline ?t p' fu = pipeline s p fu" using calculation(3) by (simp add: pipeline_def)
    moreover have "conn_kept r (nsv s) sv" if "peer s = Some r" for r
      using p'(2) [OF that] i(3) that by (simp add: untouched_def link_ok_def)
    ultimately show ?thesis using i(9) unfolding tracked_def conn_kept_def by simp metis
  qed
  ultimately have "net_inv_with m p' (L @ L') fu fd ?t"
    using i p'(1) ran_ok_mono [OF i(8)] by (simp add: net_inv_with_def pipeline_def)
  then show ?thesis by (rule net_inv_fromI)
qed


lemma link_inv_step:
  assumes "link_step m s t" and "calls (client (ncl t)) \<le> 2 ^ 32" and "net_inv_with m p L fu fd s"
    and keep: "services_keep m" and fit: "answers_fit m"
  shows "net_inv_from m L t"
  using assms(1-3)
proof (induction rule: link_step.induct)
  case (l_fetch s k sq c req)
  then show ?case using inv_fetch [OF l_fetch.prems(2) l_fetch.hyps] by (simp add: net_inv_fromI(1))
next
  case (l_client s t)
  then show ?case using inv_local net_inv_fromI(1) by blast
next
  case (l_link s)
  then show ?case using inv_link net_inv_fromI(1) by blast
next
  case (l_accept s)
  then show ?case using inv_accept net_inv_fromI(1) by blast
next
  case (l_written s item)
  then show ?case using inv_written by blast
next
  case (l_write_failed s item d e)
  then show ?case using inv_write_failed by blast
next
  case (l_read_header s)
  then show ?case using inv_read_header net_inv_fromI(1) by blast
next
  case (l_read_body s h buf)
  from inv_read_body [OF l_read_body.prems(2) l_read_body.hyps] show ?case using net_inv_fromI(1) by blast
next
  case (l_serve_header s r c sv)
  then show ?case using inv_serve_header by blast
next
  case (l_serve_body s r c h sv)
  then show ?case using inv_serve_body by blast
next
  case (l_serve_write s r c d sv)
  from inv_serve_write [OF l_serve_write.prems(2) l_serve_write.hyps(1-3) fit l_serve_write.hyps(5), of False d]
  have "net_inv_from m L (s\<lparr>nsv := sv, down := down s @ d, down_broken := False\<rparr>)" using l_serve_write.hyps(4) by simp
  moreover have "s\<lparr>nsv := sv, down := down s @ d, down_broken := False\<rparr> = s\<lparr>nsv := sv, down := down s @ d\<rparr>"
    using l_serve_write.hyps(4) by (cases s) simp
  ultimately show ?case by simp
next
  case (l_serve_write_failed s r c d d' e sv)
  then show ?case
    using inv_serve_write [OF l_serve_write_failed.prems(2) l_serve_write_failed.hyps(1-3) fit l_serve_write_failed.hyps(6), of True d']
    by auto
qed

lemma net_inv_step:
  assumes "net_next m s t" and "net_inv_with m p L fu fd s" and "services_keep m" and "answers_fit m"
  shows "net_inv_from m L t"
proof -
  have "net_step m s t" "calls (client (ncl t)) \<le> 2 ^ 32" using assms(1) by (simp_all add: net_next_def)
  then show ?thesis using assms(2-4) by (cases rule: net_step.cases) (auto intro: link_inv_step inv_server)
qed

lemma net_inv_start:
  assumes "net_start n hw s"
  shows "net_inv m s"
proof -
  have s: "ncl s = client_init" "sv_start n hw (nsv s)" "\<not> linked s" "peer s = None" "up s = []" "\<not> up_broken s" "down s = []"
      "\<not> down_broken s" "issued s = []"
    using assms by (auto simp: net_start_def)
  have "client_ok client_init []"
    using promise_inv_reach [OF cl_begin] queue_inv_reach [OF cl_begin] by (simp add: client_ok_def client_init_def new_client_def items_def)
  moreover have "on_the_way client_init = {#}" "received client_init = []" "client_read (client client_init) = NoRead"
      "calls (client client_init) = 0" "pending (client client_init) = []"
    by (simp_all add: on_the_way_def items_def client_init_def new_client_def)
  moreover have "sv_inv m (new_pool n hw) [] (nsv s)" using s(2) by (rule sv_inv_start)
  ultimately have "net_inv_with m (new_pool n hw) [] [] [] s"
    using s by (simp add: net_inv_with_def link_ok_def up_ok_def down_ok_def pipeline_def once_def delivered_seqs_def
        frame_seqs_def peer_op_def flows_def ran_ok_def tracked_def awaited_def)
  then show ?thesis by (auto simp: net_inv_def)
qed

end
