(* ===== verification/Call_Ledger.thy ===== *)
theory Call_Ledger
  imports Rpc_Network
begin

text \<open>
  What the whole system promises its callers, as an abstract system of its own: a ledger of the calls. A call is
  issued; it may be run, once; it ends at most once, either with an answer that its run can give or with the error response for a
  lost connection. The client, the network and the server of \<^verbatim>\<open>Rpc_Network\<close> refine it.
\<close>

section \<open>The ledger\<close>

record ledger =
  l_calls :: "RpcRequest list"
  l_runs :: "nat list"
  l_results :: "nat \<rightharpoonup> RpcResponse"

definition can_answer :: "'a manager \<Rightarrow> nat \<Rightarrow> RpcRequest \<Rightarrow> RpcResponse \<Rightarrow> bool" where
  "can_answer m k req resp \<longleftrightarrow> is_answer m (fst (request_frame k req)) (snd (request_frame k req)) resp"

inductive ledger_step :: "'a manager \<Rightarrow> ledger \<Rightarrow> ledger \<Rightarrow> bool" for m where
  led_issue: "ledger_step m l (l\<lparr>l_calls := l_calls l @ [req]\<rparr>)"
| led_run: "k < length (l_calls l) \<Longrightarrow> k \<notin> set (l_runs l) \<Longrightarrow> ledger_step m l (l\<lparr>l_runs := l_runs l @ [k]\<rparr>)"
| led_answer: "k \<in> set (l_runs l) \<Longrightarrow> l_results l k = None \<Longrightarrow> can_answer m k (l_calls l ! k) resp \<Longrightarrow>
    ledger_step m l (l\<lparr>l_results := (l_results l)(k \<mapsto> resp)\<rparr>)"
| led_fail: "k < length (l_calls l) \<Longrightarrow> l_results l k = None \<Longrightarrow>
    ledger_step m l (l\<lparr>l_results := (l_results l)(k \<mapsto> closed_response e)\<rparr>)"

definition ledger_init :: "ledger \<Rightarrow> bool" where
  "ledger_init l \<longleftrightarrow> l = \<lparr>l_calls = [], l_runs = [], l_results = Map.empty\<rparr>"

definition outcome_ok :: "'a manager \<Rightarrow> RpcRequest list \<Rightarrow> nat list \<Rightarrow> nat \<Rightarrow> RpcResponse \<Rightarrow> bool" where
  "outcome_ok m qs ks k resp \<longleftrightarrow> k < length qs \<and> (k \<in> set ks \<and> can_answer m k (qs ! k) resp \<or> (\<exists>e. resp = closed_response e))"

definition ledger_ok :: "'a manager \<Rightarrow> ledger \<Rightarrow> bool" where
  "ledger_ok m l \<longleftrightarrow> distinct (l_runs l) \<and> set (l_runs l) \<subseteq> {..<length (l_calls l)} \<and>
     (\<forall>k resp. l_results l k = Some resp \<longrightarrow> outcome_ok m (l_calls l) (l_runs l) k resp)"

lemma ledger_ok_init: "ledger_init l \<Longrightarrow> ledger_ok m l"
  by (simp add: ledger_init_def ledger_ok_def)

lemma ledger_ok_step: "ledger_step m l l' \<Longrightarrow> ledger_ok m l \<Longrightarrow> ledger_ok m l'"
  by (induction rule: ledger_step.induct)
    (auto simp: ledger_ok_def outcome_ok_def nth_append less_Suc_eq_le subset_iff split: if_splits, force+)

section \<open>Paths\<close>

lemma path_calls: "(ledger_step m)\<^sup>*\<^sup>* l (l\<lparr>l_calls := l_calls l @ qs\<rparr>)"
proof (induction qs rule: rev_induct)
  case (snoc q qs)
  let ?l = "l\<lparr>l_calls := l_calls l @ qs\<rparr>"
  have "ledger_step m ?l (?l\<lparr>l_calls := l_calls ?l @ [q]\<rparr>)" by (rule led_issue)
  with snoc show ?case by (auto intro: rtranclp.rtrancl_into_rtrancl)
qed simp

lemma path_runs:
  assumes "distinct (l_runs l @ ks)" and "set ks \<subseteq> {..<length (l_calls l)}"
  shows "(ledger_step m)\<^sup>*\<^sup>* l (l\<lparr>l_runs := l_runs l @ ks\<rparr>)"
  using assms
proof (induction ks rule: rev_induct)
  case (snoc k ks)
  let ?l = "l\<lparr>l_runs := l_runs l @ ks\<rparr>"
  have "ledger_step m ?l (?l\<lparr>l_runs := l_runs ?l @ [k]\<rparr>)" using snoc.prems by (intro led_run) auto
  with snoc show ?case by (auto intro: rtranclp.rtrancl_into_rtrancl)
qed simp

lemma map_of_snoc: "distinct (map fst (xs @ [(k, v)])) \<Longrightarrow> map_of (xs @ [(k, v)]) = (map_of xs)(k \<mapsto> v)"
  by (induction xs) (auto simp: fun_eq_iff)

lemma path_results:
  assumes "distinct (map fst (rs @ new))" and "\<forall>(k, resp) \<in> set new. outcome_ok m (l_calls l) (l_runs l) k resp"
    and "l_results l = map_of rs"
  shows "(ledger_step m)\<^sup>*\<^sup>* l (l\<lparr>l_results := map_of (rs @ new)\<rparr>)"
  using assms
proof (induction new rule: rev_induct)
  case (snoc x new)
  obtain k resp where x: "x = (k, resp)" by force
  let ?l = "l\<lparr>l_results := map_of (rs @ new)\<rparr>"
  have e: "map_of (rs @ new @ [(k, resp)]) = (map_of (rs @ new))(k \<mapsto> resp)"
    using map_of_snoc [of "rs @ new" k resp] snoc.prems(1) x by simp
  have n: "l_results ?l k = None" using snoc.prems(1) x by (auto simp: map_of_eq_None_iff)
  have "outcome_ok m (l_calls ?l) (l_runs ?l) k resp" using snoc.prems(2) x by simp
  then have "ledger_step m ?l (?l\<lparr>l_results := (l_results ?l)(k \<mapsto> resp)\<rparr>)"
    unfolding outcome_ok_def using led_answer [OF _ n] led_fail [OF _ n] by blast
  moreover have "(ledger_step m)\<^sup>*\<^sup>* l ?l" using snoc by simp
  ultimately have "(ledger_step m)\<^sup>*\<^sup>* l (?l\<lparr>l_results := (l_results ?l)(k \<mapsto> resp)\<rparr>)"
    by (rule rtranclp.rtrancl_into_rtrancl [rotated])
  then show ?case unfolding x e by (simp add: fun_upd_def)
qed (cases l, simp)

section \<open>The ledger of a running system\<close>

text \<open>The numbers of the calls the pool has executed for the client, in the order of the executions.\<close>

definition run_seqs :: "'a net \<Rightarrow> u32 list" where
  "run_seqs s = (case (peer s, thread_pool (nsv s)) of
     (Some r, Some p) \<Rightarrow> map (\<lambda>j. seq_id (fst j)) (filter (\<lambda>j. snd (snd j) = r) (executed p))
   | _ \<Rightarrow> [])"

definition call_no :: "u32 \<Rightarrow> nat" where
  "call_no sq = unat (sq - 1)"

definition net_ledger :: "'a net \<Rightarrow> ledger" where
  "net_ledger s = \<lparr>l_calls = issued s, l_runs = map call_no (run_seqs s), l_results = map_of (resolved (client (ncl s)))\<rparr>"

lemma call_no_seq_of: "k < 2 ^ 32 \<Longrightarrow> call_no (seq_of k) = k"
  by (simp add: call_no_def seq_of_def unat_of_nat take_bit_eq_mod)

lemma run_seqs_ran: "sv_inv m p L (nsv s) \<Longrightarrow> run_seqs s = ran (peer s) L"
  using sv_invD(1,6) [of m p L "nsv s"] by (auto simp: run_seqs_def ran_def split: option.split)

lemma once_distinct: "once (mset xs) \<longleftrightarrow> distinct xs"
  unfolding distinct_count_atmost_1 once_def
  by (metis One_nat_def count_greater_eq_one_iff le_antisym le_numeral_extra(4) not_in_iff set_mset_mset zero_le)

lemma distinct_submset: "mset xs \<subseteq># mset ys \<Longrightarrow> distinct ys \<Longrightarrow> distinct xs"
  by (metis distinct_append ex_mset mset_append mset_eq_imp_distinct_iff subset_mset.add_diff_inverse)

lemma three_parts: "a + b + c = (d :: 'x multiset) \<Longrightarrow> a \<subseteq># d"
  by (auto simp: add.assoc)

lemma ran_once:
  assumes "net_inv_with m p L fu fd s"
  shows "distinct (ran (peer s) L)" "set (ran (peer s) L) \<subseteq> seq_of ` {..<length (issued s)}"
proof -
  note i = net_inv_withD [OF assms]
  note v = sv_invD [OF i(2)]
  have sub: "mset (ran (peer s) L) \<subseteq># delivered_seqs (peer s) p"
  proof (cases "peer s")
    case (Some r)
    have "mset (executed p) \<subseteq># mset (accepted p)" using v(2) by (simp add: pool_inv_def)
    then have "filter_mset (\<lambda>j. snd (snd j) = r) (mset (executed p)) \<subseteq># filter_mset (\<lambda>j. snd (snd j) = r) (mset (accepted p))"
      by (rule multiset_filter_mono)
    from image_mset_subseteq_mono [OF this, of "\<lambda>j. seq_id (fst j)"]
    show ?thesis using Some v(6) by (simp add: ran_def delivered_seqs_def jobs_of_def)
  qed (simp add: ran_def)
  also have "\<dots> \<subseteq># pipeline s p fu" by (simp add: pipeline_def)
  finally have "mset (ran (peer s) L) \<subseteq># pipeline s p fu" .
  then have "once (mset (ran (peer s) L))" "set (ran (peer s) L) \<subseteq> set_mset (pipeline s p fu)"
    using once_subset i(6) set_mset_mono by fastforce+
  then show "distinct (ran (peer s) L)" "set (ran (peer s) L) \<subseteq> seq_of ` {..<length (issued s)}"
    using all_known [OF assms] by (force simp: once_distinct)+
qed

lemma net_calls_bound: "net_inv_with m p L fu fd s \<Longrightarrow> length (issued s) \<le> 2 ^ 32"
  using net_inv_withD(1,7) client_okD(3) by fastforce

lemma ran_calls:
  assumes "net_inv_with m p L fu fd s"
  shows "distinct (map call_no (ran (peer s) L))" "set (map call_no (ran (peer s) L)) \<subseteq> {..<length (issued s)}"
    "\<And>k. k < length (issued s) \<Longrightarrow> seq_of k \<in> set (ran (peer s) L) \<Longrightarrow> k \<in> set (map call_no (ran (peer s) L))"
proof -
  have n: "length (issued s) \<le> 2 ^ 32" using assms by (rule net_calls_bound)
  have c: "call_no (seq_of k) = k" if "k < length (issued s)" for k using call_no_seq_of that n by simp
  have "inj_on call_no (seq_of ` {..<length (issued s)})" by (rule inj_onI) (auto simp: c)
  then show "distinct (map call_no (ran (peer s) L))"
    using ran_once [OF assms] by (auto simp: distinct_map intro: inj_on_subset)
  show "set (map call_no (ran (peer s) L)) \<subseteq> {..<length (issued s)}" using ran_once(2) [OF assms] c by force
  show "k \<in> set (map call_no (ran (peer s) L))" if "k < length (issued s)" "seq_of k \<in> set (ran (peer s) L)" for k
    using that c by force
qed

lemma net_outcomes:
  assumes "net_inv_with m p L fu fd s"
  shows "distinct (map fst (resolved (client (ncl s))))"
    "\<forall>(k, resp) \<in> set (resolved (client (ncl s))). outcome_ok m (issued s) (map call_no (ran (peer s) L)) k resp"
proof -
  note i = net_inv_withD [OF assms]
  note c = client_okD [OF i(1)]
  let ?n = "calls (client (ncl s))" and ?rs = "resolved (client (ncl s))"
  have n: "length (issued s) = ?n" "?n \<le> 2 ^ 32" using c(3) i(7) by simp_all
  have "mset (map fst ?rs) + mset (map snd (pending (client (ncl s)))) + mset (draft_ids (ncl s)) = mset [0..<?n]"
    using c(1) by (simp add: promise_inv_def Let_def)
  then have sub: "mset (map fst ?rs) \<subseteq># mset [0..<?n]"
    by (rule three_parts)
  then show "distinct (map fst ?rs)" by (rule distinct_submset) simp
  have lt: "k < ?n" if "(k, resp) \<in> set ?rs" for k resp
    using sub that
    by (metis atLeastLessThan_iff fst_conv image_eqI mset_subset_eqD set_map set_mset_mset set_upt)
  have "outcome_ok m (issued s) (map call_no (ran (peer s) L)) k resp" if k: "(k, resp) \<in> set ?rs" for k resp
  proof -
    consider "(seq_of k, resp) \<in> set (received (ncl s))" | e where "resp = closed_response e"
      using c(1) k by (auto simp: promise_inv_def Let_def)
    then show ?thesis
    proof cases
      case 1
      then have a: "answers m (issued s) (seq_of k) resp" "seq_of k \<in> set (ran (peer s) L)"
        using i(5,8) by (auto simp: down_ok_def ran_ok_def)
      then obtain j where j: "j < length (issued s)" "seq_of k = seq_of j" "can_answer m j (issued s ! j) resp"
        by (auto simp: answers_def can_answer_def)
      then have "j = k" using seq_of_inject [of j k] lt [OF k] n by auto
      then show ?thesis using j a(2) ran_calls(3) [OF assms] by (simp add: outcome_ok_def)
    qed (use lt [OF k] n in \<open>auto simp: outcome_ok_def\<close>)
  qed
  then show "\<forall>(k, resp) \<in> set ?rs. outcome_ok m (issued s) (map call_no (ran (peer s) L)) k resp" by auto
qed


section \<open>The system refines its ledger\<close>

text \<open>The services are the environment of the server: they leave its members alone and their results fit a frame.\<close>

definition net_init :: "'a manager \<Rightarrow> nat \<Rightarrow> nat \<Rightarrow> 'a net \<Rightarrow> bool" where
  "net_init m n hw s \<longleftrightarrow> services_keep m \<and> answers_fit m \<and> net_start n hw s"

definition net_good :: "'a manager \<Rightarrow> 'a net \<Rightarrow> bool" where
  "net_good m s \<longleftrightarrow> services_keep m \<and> answers_fit m \<and> net_inv m s"

lemma net_goodE:
  assumes "net_good m s"
  obtains p L fu fd where "net_inv_with m p L fu fd s"
  using assms by (auto simp: net_good_def net_inv_def)

lemma net_good_ledger:
  assumes "net_good m s"
  shows "ledger_ok m (net_ledger s)" "distinct (map fst (resolved (client (ncl s))))"
    "\<forall>(k, resp) \<in> set (resolved (client (ncl s))). outcome_ok m (issued s) (map call_no (run_seqs s)) k resp"
proof -
  obtain p L fu fd where i: "net_inv_with m p L fu fd s" using assms by (rule net_goodE)
  have r: "run_seqs s = ran (peer s) L" using net_inv_withD(2) [OF i] by (rule run_seqs_ran)
  note o = net_outcomes [OF i]
  show "distinct (map fst (resolved (client (ncl s))))"
    "\<forall>(k, resp) \<in> set (resolved (client (ncl s))). outcome_ok m (issued s) (map call_no (run_seqs s)) k resp"
    using o r by simp_all
  show "ledger_ok m (net_ledger s)"
    using ran_calls(1,2) [OF i] o(2) r by (auto simp: ledger_ok_def net_ledger_def dest!: map_of_SomeD)
qed

lemma resolved_eq:
  "resolved (resolve sq resp c) = resolved c @ (case map_of (pending c) sq of None \<Rightarrow> [] | Some k \<Rightarrow> [(k, resp)])"
  "resolved (reject_all_pending e c) = resolved c @ map (\<lambda>(sq, k). (k, closed_response e)) (pending c)"
  by (simp_all add: resolve_def reject_all_pending_def split: option.split)

lemma cl_step_extends: "cl_step s t \<Longrightarrow> prefix (resolved (client s)) (resolved (client t))"
proof (induction rule: cl_step.induct)
  case (cl_written s ec)
  then show ?case
    by (auto simp: client_write_handler_def client_do_write_def resolved_eq Let_def split: option.split ec.split list.split)
qed (auto simp: connect_def resolve_handler_def connect_handler_def start_read_loop_def client_read_header_def resolved_eq
    client_header_handler_def client_body_handler_def close_socket_def stop_io_def fetch_seq_def add_pending_def push_item_def
    enter_client_write_def client_do_write_def Let_def split: ec.split res.split list.split if_splits)

lemma link_step_extends:
  assumes "link_step m s t"
  shows "prefix (issued s) (issued t)" "prefix (resolved (client (ncl s))) (resolved (client (ncl t)))"
    "peer s = None \<or> peer t = peer s"
proof -
  have "ncl t = ncl s \<or> cl_step (ncl s) (ncl t)"
    using assms
  proof (induction rule: link_step.induct)
    case (l_fetch s k sq c req)
    then show ?case by (simp add: cl_fetch)
  next
    case (l_client s t)
    then show ?case by (simp add: cl_local_step)
  next
    case (l_read_body s h buf)
    then show ?case by (simp add: cl_body)
  qed (simp_all add: with_client_def cl_connected cl_written cl_header)
  then show "prefix (resolved (client (ncl s))) (resolved (client (ncl t)))" using cl_step_extends by auto
  show "prefix (issued s) (issued t)" "peer s = None \<or> peer t = peer s"
    using assms by (induction rule: link_step.induct) auto
qed

lemma net_step_extends:
  assumes "net_step m s t"
  shows "prefix (issued s) (issued t)" "prefix (resolved (client (ncl s))) (resolved (client (ncl t)))"
    "peer s = None \<or> peer t = peer s"
  using assms by (cases; auto dest: link_step_extends)+

lemma net_simulates:
  assumes "net_next m s t" and "net_good m s"
  shows "net_good m t" "(ledger_step m)\<^sup>*\<^sup>* (net_ledger s) (net_ledger t)"
proof -
  obtain p L fu fd where i: "net_inv_with m p L fu fd s" using assms(2) by (rule net_goodE)
  have "services_keep m" "answers_fit m" using assms(2) by (simp_all add: net_good_def)
  with net_inv_step [OF assms(1) i] obtain p' L' fu' fd' where j: "net_inv_with m p' (L @ L') fu' fd' t"
    by (auto simp: net_inv_from_def)
  then show good: "net_good m t" using assms(2) by (auto simp: net_good_def net_inv_def)
  have "net_step m s t" using assms(1) by (simp add: net_next_def)
  note e = net_step_extends [OF this]
  have "prefix (run_seqs s) (run_seqs t)"
    using e(3) run_seqs_ran [OF net_inv_withD(2) [OF i]] run_seqs_ran [OF net_inv_withD(2) [OF j]] by (auto simp: ran_def split: option.split)
  then obtain qs rs ks where x: "issued t = issued s @ qs" "resolved (client (ncl t)) = resolved (client (ncl s)) @ rs"
      "map call_no (run_seqs t) = map call_no (run_seqs s) @ ks"
    using e(1,2) by (auto simp: prefix_def)
  note o = net_good_ledger [OF good, unfolded ledger_ok_def net_ledger_def x ledger.simps]
  let ?l1 = "\<lparr>l_calls = issued s @ qs, l_runs = map call_no (run_seqs s), l_results = map_of (resolved (client (ncl s)))\<rparr>"
  let ?l2 = "\<lparr>l_calls = issued s @ qs, l_runs = map call_no (run_seqs s) @ ks, l_results = map_of (resolved (client (ncl s)))\<rparr>"
  have "(ledger_step m)\<^sup>*\<^sup>* (net_ledger s) ?l1" using path_calls [of m "net_ledger s" qs] by (simp add: net_ledger_def)
  also have "(ledger_step m)\<^sup>*\<^sup>* ?l1 ?l2" using path_runs [of ?l1 ks m] o(1) by simp
  also have "(ledger_step m)\<^sup>*\<^sup>* ?l2 (net_ledger t)"
    using path_results [of "resolved (client (ncl s))" rs m ?l2] o(2,3) unfolding net_ledger_def x by simp
  finally show "(ledger_step m)\<^sup>*\<^sup>* (net_ledger s) (net_ledger t)" .
qed

interpretation led: simulation "net_init m n hw" "net_next m" "net_good m" ledger_init "ledger_step m" net_ledger
  for m :: "'a manager" and n hw
proof unfold_locales
  show "net_good m s" if "net_init m n hw s" for s
    using that net_inv_start by (auto simp: net_init_def net_good_def)
  show "ledger_init (net_ledger s)" if "net_init m n hw s" for s
    using that by (simp add: net_init_def net_start_def ledger_init_def net_ledger_def run_seqs_def client_init_def new_client_def)
qed (auto dest: net_simulates)


section \<open>A ping through the whole system\<close>

lemma request_layout_read: "request_fits r \<Longrightarrow> deserialize_request (request_layout r) = Ret r"
  using req.roundtrip [of r] by (simp add: serialize_request_eq)

lemma ping_answers:
  "process_request (ping_manager cnt) (fst (request_frame k ping_request)) (request_layout ping_request) w = (Ret pong_response, w)"
  using ping_body_read
  by (simp add: process_request_def process_request_via_def dispatch_def ping_body_def request_frame_def request_header_def
      ping_request_def PingService_def ping_handle_def pong_response_def empty_response_def)

lemma ping_fits: "call_fits ping_request"
  by (simp add: call_fits_def request_fits_def ping_request_def)

lemma to_string_short: "n < 10 ^ Suc d \<Longrightarrow> length (to_string n) \<le> Suc d"
proof (induction d arbitrary: n)
  case (Suc d)
  then have "n div 10 < 10 ^ Suc d" by (simp add: div_less_iff_less_mult)
  from Suc.IH [OF this] show ?case by (subst to_string.simps) simp
qed (subst to_string.simps, simp)

text \<open>Whatever the number of connections, a 64-bit \<^verbatim>\<open>size_t\<close>, the service's answers to any call fit.\<close>

lemma ping_answers_fit:
  assumes "\<And>w. cnt w < 2 ^ 64"
  shows "answers_fit (ping_manager cnt)"
  unfolding answers_fit_def
proof (intro allI impI)
  fix k req resp
  assume fits: "call_fits req" and ans: "is_answer (ping_manager cnt) (fst (request_frame k req)) (snd (request_frame k req)) resp"
  from ans obtain w w' where p: "process_request (ping_manager cnt) (fst (request_frame k req)) (request_layout req) w = (Ret resp, w')"
    by (auto simp: is_answer_def request_frame_def)
  have d: "deserialize_request (request_layout req) = Ret req" using fits request_layout_read by (simp add: call_fits_def)
  have "cnt w < 10 ^ Suc 19" using assms [of w] by simp
  then have s: "length (to_string (cnt w)) \<le> 20" using to_string_short [of "cnt w" 19] by simp
  have n: "length (service_name req) + length (method_name req) + 19 < 65536" using fits by (simp add: call_fits_def)
  have "length (error_msg resp) < 65536 \<and> length (result resp) < 100"
    using p d s n
    by (auto simp: process_request_def process_request_via_def dispatch_def request_frame_def request_header_def PingService_def
        ping_handle_def empty_response_def error_response_def split: if_splits)
  then show "response_fits resp \<and> length (response_layout resp) < 2 ^ 32" by (simp add: response_fits_def)
qed


abbreviation net_mgr :: "unit manager" where
  "net_mgr \<equiv> ping_manager (\<lambda>s. connection_count s mod 2 ^ 64)"

text \<open>The server with its pool and the client's connection, and the system around them.\<close>

definition sv_at :: "Connection \<Rightarrow> job ThreadPool \<Rightarrow> RpcServer" where
  "sv_at c p = with_conn c (srv1\<lparr>thread_pool := Some p\<rparr>)"

definition net_at :: "client_sys \<Rightarrow> RpcServer \<Rightarrow> string \<Rightarrow> string \<Rightarrow> RpcRequest list \<Rightarrow> unit net" where
  "net_at cs sv u d iss = \<lparr>ncl = cs, linked = True, peer = Some 0, up = u, up_broken = False, down = d,
     down_broken = False, issued = iss, nsv = sv\<rparr>"

definition net0 :: "unit net" where
  "net0 = \<lparr>ncl = client_init, linked = False, peer = None, up = [], up_broken = False, down = [],
     down_broken = False, issued = [], nsv = srv0\<rparr>"

lemma sv_at_simps [simp]:
  "store (cycle (sv_at c p)) 0 = Some c" "thread_pool (sv_at c p) = Some p"
  "(sv_at c p)\<lparr>thread_pool := Some q\<rparr> = sv_at c q"
  by (simp_all add: sv_at_def with_conn_def)

lemma serve_sv_at:
  assumes "f c = (c', es)" and "es = [] \<or> es = [OnMessage h b] \<and> enqueue (h, b, 0) p = Ret p'"
  shows "serve net_mgr 0 f (sv_at c p) = Some (sv_at c' (if es = [] then p else p'))"
  using assms by (auto simp: serve_def run_handler_def sv_at_def with_conn_def server_on_message_def)

lemma own_run_step:
  assumes "own_run m s t" and "link_step m t u" and "calls (client (ncl u)) \<le> 2 ^ 32"
  shows "own_run m s u"
  using assms(2,3) by (intro rtranclp.rtrancl_into_rtrancl [OF assms(1)]) (simp add: own_next_def own_link)

lemma own_run_worker:
  assumes "own_run m s t" and "server_worker m i (nsv t) = Some sv" and "calls (client (ncl t)) \<le> 2 ^ 32"
  shows "own_run m s (t\<lparr>nsv := sv\<rparr>)"
  using assms(2,3) by (intro rtranclp.rtrancl_into_rtrancl [OF assms(1)]) (simp add: own_next_def own_worker)

lemma net0_start: "net_start 1 0 net0"
proof -
  have "sv_start 1 0 srv0"
    unfolding sv_start_def
    by (rule exI [of _ "rpc_server0\<lparr>thread_pool := Some (new_pool 1 0)\<rparr>"]) (simp add: srv0_simps)
  then show ?thesis by (simp add: net_start_def net0_def)
qed

lemma net_connected: "own_run net_mgr net0 (net_at (client_init\<lparr>client := online\<rparr>) (sv_at conn1 (new_pool 1 0)) [] [] [])"
proof -
  let ?c1 = "new_client\<lparr>connect_op := Resolving, io_thread := True\<rparr>"
  have "link_step net_mgr net0 (net0\<lparr>ncl := client_init\<lparr>client := ?c1\<rparr>\<rparr>)"
    using loc_connect [of client_init ?c1] by (intro l_client) (simp add: net0_def client_init_def connect_def new_client_def)
  with rtranclp.rtrancl_refl have "own_run net_mgr net0 (net0\<lparr>ncl := client_init\<lparr>client := ?c1\<rparr>\<rparr>)"
    by (rule own_run_step) (simp add: new_client_def)
  moreover have "link_step net_mgr (net0\<lparr>ncl := client_init\<lparr>client := ?c1\<rparr>\<rparr>)
      (net0\<lparr>ncl := client_init\<lparr>client := resolve_handler Success ?c1\<rparr>\<rparr>)"
    using l_client [of "net0\<lparr>ncl := client_init\<lparr>client := ?c1\<rparr>\<rparr>" _ net_mgr] loc_resolved [of "client_init\<lparr>client := ?c1\<rparr>" Success]
    by (simp add: new_client_def)
  ultimately have "own_run net_mgr net0 (net0\<lparr>ncl := client_init\<lparr>client := resolve_handler Success ?c1\<rparr>\<rparr>)" (is "own_run _ _ ?n2")
    by (rule own_run_step) (simp add: new_client_def resolve_handler_def)
  moreover have "link_step net_mgr ?n2 (?n2\<lparr>ncl := with_client (connect_handler Success) (ncl ?n2), linked := True\<rparr>)"
    by (rule l_link) (simp_all add: new_client_def resolve_handler_def net0_def)
  ultimately have "own_run net_mgr net0 (?n2\<lparr>ncl := with_client (connect_handler Success) (ncl ?n2), linked := True\<rparr>)"
      (is "own_run _ _ ?n3")
    by (rule own_run_step) (simp add: with_client_def new_client_def resolve_handler_def connect_handler_def start_read_loop_def
      client_read_header_def)
  moreover have "link_step net_mgr ?n3 (?n3\<lparr>nsv := (nsv ?n3)\<lparr>cycle := accept_handler Success (cycle (nsv ?n3))\<rparr>,
      peer := Some (fresh (cycle (nsv ?n3)))\<rparr>)" (is "link_step _ _ ?n4")
    by (rule l_accept) (simp_all add: net0_def srv0_simps)
  ultimately have "own_run net_mgr net0 ?n4"
    by (rule own_run_step) (simp add: with_client_def new_client_def resolve_handler_def connect_handler_def start_read_loop_def
      client_read_header_def)
  moreover have "fresh (cycle srv0) = 0" by (simp add: srv0_simps)
  then have "nsv ?n4 = srv1" "peer ?n4 = Some 0" by (simp_all add: net0_def srv1_def)
  moreover have "srv1 = sv_at conn1 (new_pool 1 0)"
    using srv1_reach(2,3) by (simp add: sv_at_def with_conn_def fun_upd_idem)
  ultimately show ?thesis
    by (simp add: net_at_def net0_def online_def with_client_def resolve_handler_def connect_handler_def start_read_loop_def
        client_read_header_def new_client_def)
qed

lemma net_at_simps [simp]:
  "ncl (net_at cs sv u d iss) = cs" "nsv (net_at cs sv u d iss) = sv" "linked (net_at cs sv u d iss)"
  "peer (net_at cs sv u d iss) = Some 0" "up (net_at cs sv u d iss) = u" "\<not> up_broken (net_at cs sv u d iss)"
  "down (net_at cs sv u d iss) = d" "\<not> down_broken (net_at cs sv u d iss)" "issued (net_at cs sv u d iss) = iss"
  "(net_at cs sv u d iss)\<lparr>ncl := cs'\<rparr> = net_at cs' sv u d iss" "(net_at cs sv u d iss)\<lparr>nsv := sv'\<rparr> = net_at cs sv' u d iss"
  "(net_at cs sv u d iss)\<lparr>up := u'\<rparr> = net_at cs sv u' d iss" "(net_at cs sv u d iss)\<lparr>down := d'\<rparr> = net_at cs sv u d' iss"
  "(net_at cs sv u d iss)\<lparr>issued := iss'\<rparr> = net_at cs sv u d iss'"
  by (simp_all add: net_at_def)

abbreviation ping_item :: WriteItem where
  "ping_item \<equiv> request_item 1 ping_request"

abbreviation ping_head :: RpcHeader where
  "ping_head \<equiv> fst (request_frame 0 ping_request)"

definition caller :: "RpcClient \<Rightarrow> client_sys" where
  "caller c = \<lparr>client = c, drafts = [], ready = [], handed = [ping_item], received = []\<rparr>"

lemma caller_simps [simp]: "client (caller c) = c" "(caller c)\<lparr>client := c'\<rparr> = caller c'" "with_client f (caller c) = caller (f c)"
  "received (caller c) = []"
  by (simp_all add: caller_def with_client_def)

lemma net_called: "own_run net_mgr net0 (net_at (caller one_call) (sv_at conn1 (new_pool 1 0)) [] [] [ping_request])"
proof -
  let ?sv = "sv_at conn1 (new_pool 1 0)"
  let ?c1 = "online\<lparr>next_seq_id := 2, calls := 1\<rparr>" and ?c2 = "add_pending 1 0 (online\<lparr>next_seq_id := 2, calls := 1\<rparr>)"
  let ?s1 = "client_init\<lparr>client := ?c1, drafts := [(1, 0, ping_request)]\<rparr>"
  let ?s2 = "client_init\<lparr>client := ?c2, ready := [ping_item]\<rparr>"
  have "fetch_seq online = (0, 1, ?c1)" by (simp add: fetch_seq_def online_def new_client_def)
  then have "link_step net_mgr (net_at (client_init\<lparr>client := online\<rparr>) ?sv [] [] []) (net_at ?s1 ?sv [] [] [ping_request])"
    using l_fetch [of "net_at (client_init\<lparr>client := online\<rparr>) ?sv [] [] []" 0 1 ?c1 ping_request net_mgr] ping_fits
    by (simp add: client_init_def)
  with net_connected have "own_run net_mgr net0 (net_at ?s1 ?sv [] [] [ping_request])"
    by (rule own_run_step) simp
  moreover have "cl_local ?s1 ?s2"
    using loc_register [of ?s1 "[]" 1 0 ping_request "[]" ping_item]
    by (simp add: build_item_eq request_item_def client_init_def)
  then have "link_step net_mgr (net_at ?s1 ?sv [] [] [ping_request]) (net_at ?s2 ?sv [] [] [ping_request])"
    using l_client [of "net_at ?s1 ?sv [] [] [ping_request]" ?s2 net_mgr] by simp
  ultimately have "own_run net_mgr net0 (net_at ?s2 ?sv [] [] [ping_request])"
    by (rule own_run_step) (simp add: add_pending_def)
  moreover have "cl_local ?s2 (caller (push_item ping_item ?c2))"
    using loc_push [of ?s2 "[]" ping_item "[]"] by (simp add: client_init_def caller_def)
  then have "link_step net_mgr (net_at ?s2 ?sv [] [] [ping_request]) (net_at (caller (push_item ping_item ?c2)) ?sv [] [] [ping_request])"
    using l_client [of "net_at ?s2 ?sv [] [] [ping_request]" _ net_mgr] by simp
  ultimately have "own_run net_mgr net0 (net_at (caller (push_item ping_item ?c2)) ?sv [] [] [ping_request])"
    by (rule own_run_step) (simp add: add_pending_def push_item_def Let_def)
  moreover have "cl_local (caller (push_item ping_item ?c2)) (caller one_call)"
    using loc_start [of "caller (push_item ping_item ?c2)"] by (simp add: one_call_eval ping_request_def)
  then have "link_step net_mgr (net_at (caller (push_item ping_item ?c2)) ?sv [] [] [ping_request]) (net_at (caller one_call) ?sv [] [] [ping_request])"
    using l_client [of "net_at (caller (push_item ping_item ?c2)) ?sv [] [] [ping_request]" _ net_mgr] by simp
  ultimately show ?thesis by (rule own_run_step) (simp add: one_call_fields)
qed

lemma net_sent: "own_run net_mgr net0 (net_at (caller (client_write_handler Success one_call)) (sv_at conn1 (new_pool 1 0))
    (header_layout ping_head @ ping_body) [] [ping_request])"
proof -
  have "frame ping_item = header_layout ping_head @ ping_body"
    by (simp add: request_item_def request_frame_def ping_body_def seq_of_def)
  then have "link_step net_mgr (net_at (caller one_call) (sv_at conn1 (new_pool 1 0)) [] [] [ping_request])
      (net_at (caller (client_write_handler Success one_call)) (sv_at conn1 (new_pool 1 0)) (header_layout ping_head @ ping_body) [] [ping_request])"
    using l_written [of "net_at (caller one_call) (sv_at conn1 (new_pool 1 0)) [] [] [ping_request]" ping_item net_mgr] one_call_fields
    by (simp add: with_client_def)
  with net_called show ?thesis
    by (rule own_run_step) (simp add: client_write_handler_def client_do_write_def one_call_fields Let_def split: option.split)
qed


text \<open>The server's connection and pool on the way of the request.\<close>

definition connB :: Connection where
  "connB = fst (header_handler Success (header_layout ping_head) conn1)"

definition connC :: Connection where
  "connC = fst (body_handler ping_head Success ping_body connB)"

definition poolB :: "job ThreadPool" where
  "poolB = (new_pool 1 0)\<lparr>tasks := [(ping_head, ping_body, 0)], pending_count := 1, accepted := [(ping_head, ping_body, 0)]\<rparr>"

definition poolC :: "job worker \<Rightarrow> int \<Rightarrow> job list \<Rightarrow> job ThreadPool" where
  "poolC w a ex = poolB\<lparr>tasks := [], workers := [w], active_tasks := a, executed := ex\<rparr>"

definition pong_head :: RpcHeader where
  "pong_head = response_header ping_head pong_response (response_layout pong_response)"

definition connD :: Connection where
  "connD = enter_do_write (enqueue_frame (header_layout pong_head @ response_layout pong_response) connC)"

lemma connB_eq: "header_handler Success (header_layout ping_head) conn1 = (connB, [])"
  and connB_fields: "read_op connB = ReadBody ping_head" "on_message connB" "\<not> closed connB" "writing connB = False" "write_queue connB = []"
    "write_op connB = None"
proof -
  have dh: "deserialize_header (header_layout ping_head) = Ret ping_head"
    using deserialize_header_layout [of ping_head "[]"] by simp
  have mg: "magic ping_head = MAGIC" by (simp add: request_frame_def request_header_def)
  show "header_handler Success (header_layout ping_head) conn1 = (connB, [])"
    "read_op connB = ReadBody ping_head" "on_message connB" "\<not> closed connB" "writing connB = False" "write_queue connB = []"
    "write_op connB = None"
    by (simp_all add: connB_def header_handler_def dh mg Let_def do_read_body_def conn1_def start_read_def do_read_header_def new_connection_def)
qed

lemma connC_eq: "body_handler ping_head Success ping_body connB = (connC, [OnMessage ping_head ping_body])"
  and connC_fields: "\<not> closed connC" "writing connC = False" "write_queue connC = []" "write_op connC = None"
  using connB_fields by (simp_all add: connC_def body_handler_def do_read_header_def Let_def)

lemma connD_eq: "send pong_head (response_layout pong_response) connC = Ret connD"
  and connD_op: "write_op connD = Some (header_layout pong_head @ response_layout pong_response)"
  using connC_fields by (simp_all add: send_def frame_of_eq connD_def enqueue_frame_def enter_do_write_def do_write_def Let_def)

lemma one_thread: "thread_count (Suc 0) 0 = Suc 0"
  by (simp add: thread_count_def)

lemma pool_enqueued: "enqueue (ping_head, ping_body, 0) (new_pool 1 0) = Ret poolB"
  by (simp add: enqueue_def poolB_def new_pool_def)

lemma pool_worked:
  "server_worker net_mgr 0 (sv_at connC poolB) = Some (sv_at connC (poolC (Popped (ping_head, ping_body, 0)) 0 []))"
  "server_worker net_mgr 0 (sv_at connC (poolC (Popped (ping_head, ping_body, 0)) 0 [])) =
     Some (sv_at connC (poolC (Entered (ping_head, ping_body, 0)) 1 []))"
  "server_worker net_mgr 0 (sv_at connC (poolC (Entered (ping_head, ping_body, 0)) 1 [])) =
     Some (sv_at connD (poolC Returned 1 [(ping_head, ping_body, 0)]))"
proof -
  show "server_worker net_mgr 0 (sv_at connC poolB) = Some (sv_at connC (poolC (Popped (ping_head, ping_body, 0)) 0 []))"
    "server_worker net_mgr 0 (sv_at connC (poolC (Popped (ping_head, ping_body, 0)) 0 [])) =
     Some (sv_at connC (poolC (Entered (ping_head, ping_body, 0)) 1 []))"
    by (simp_all add: server_worker_def worker_loop_def poolC_def poolB_def new_pool_def one_thread set_worker_def)
  have w: "worker_loop 0 (poolC (Entered (ping_head, ping_body, 0)) 1 []) = Some (poolC Returned 1 [(ping_head, ping_body, 0)])"
    by (simp add: worker_loop_def poolC_def poolB_def set_worker_def)
  let ?s = "sv_at connC (poolC Returned 1 [(ping_head, ping_body, 0)])"
  have "send_response ping_head pong_response 0 ?s = Ret (sv_at connD (poolC Returned 1 [(ping_head, ping_body, 0)]))"
    using connD_eq by (simp add: send_response_def serialize_response_eq pong_head_def sv_at_def with_conn_def)
  then have "snd (process_job net_mgr (ping_head, ping_body, 0) ?s) = sv_at connD (poolC Returned 1 [(ping_head, ping_body, 0)])"
    by (simp add: process_job_def ping_body_def ping_answers)
  then show "server_worker net_mgr 0 (sv_at connC (poolC (Entered (ping_head, ping_body, 0)) 1 [])) =
     Some (sv_at connD (poolC Returned 1 [(ping_head, ping_body, 0)]))"
    using w by (simp add: server_worker_def) (simp add: poolC_def)
qed

text \<open>The server reads the request, a worker runs it, and the frame with the answer leaves.\<close>

lemma net_served:
  assumes "own_run net_mgr net0 (net_at cs (sv_at conn1 (new_pool 1 0)) (header_layout ping_head @ ping_body) [] [ping_request])"
    and c: "calls (client cs) \<le> 2 ^ 32"
  shows "\<exists>sv. own_run net_mgr net0 (net_at cs sv [] (header_layout pong_head @ response_layout pong_response) [ping_request])"
proof -
  let ?nt = "\<lambda>sv u d. net_at cs sv u d [ping_request]"
  have le: "calls (client (ncl (?nt sv u d))) \<le> 2 ^ 32" for sv u d using c by simp
  have n: "unat (body_size ping_head) = length ping_body"
    by (simp add: request_frame_def request_header_def ping_body_def) (simp add: ping_request_def)
  have "link_step net_mgr (?nt (sv_at conn1 (new_pool 1 0)) (header_layout ping_head @ ping_body) []) (?nt (sv_at connB (new_pool 1 0)) ping_body [])"
    using l_serve_header [of "?nt (sv_at conn1 (new_pool 1 0)) (header_layout ping_head @ ping_body) []" 0 conn1 net_mgr]
      serve_sv_at [where f = "header_handler Success (header_layout ping_head)" and p = "new_pool 1 0", OF connB_eq]
    by (simp add: conn1_def start_read_def do_read_header_def)
  with assms(1) have "own_run net_mgr net0 (?nt (sv_at connB (new_pool 1 0)) ping_body [])" using le by (rule own_run_step)
  moreover have "link_step net_mgr (?nt (sv_at connB (new_pool 1 0)) ping_body []) (?nt (sv_at connC poolB) [] [])"
    using l_serve_body [of "?nt (sv_at connB (new_pool 1 0)) ping_body []" 0 connB ping_head net_mgr] connB_fields(1) n
      serve_sv_at [where f = "body_handler ping_head Success ping_body" and p = "new_pool 1 0" and p' = poolB, OF connC_eq] pool_enqueued
    by simp
  ultimately have "own_run net_mgr net0 (?nt (sv_at connC poolB) [] [])" using le by (rule own_run_step)
  then have "own_run net_mgr net0 (?nt (sv_at connC (poolC (Popped (ping_head, ping_body, 0)) 0 [])) [] [])"
    using own_run_worker [of net_mgr net0 "?nt (sv_at connC poolB) [] []" 0] pool_worked(1) le by simp
  then have "own_run net_mgr net0 (?nt (sv_at connC (poolC (Entered (ping_head, ping_body, 0)) 1 [])) [] [])"
    using own_run_worker [of net_mgr net0 "?nt (sv_at connC (poolC (Popped (ping_head, ping_body, 0)) 0 [])) [] []" 0] pool_worked(2) le by simp
  then have r: "own_run net_mgr net0 (?nt (sv_at connD (poolC Returned 1 [(ping_head, ping_body, 0)])) [] [])"
    using own_run_worker [of net_mgr net0 "?nt (sv_at connC (poolC (Entered (ping_head, ping_body, 0)) 1 [])) [] []" 0] pool_worked(3) le by simp
  obtain c' where w: "write_handler Success connD = (c', [])" by (simp add: write_handler_def)
  have "link_step net_mgr (?nt (sv_at connD (poolC Returned 1 [(ping_head, ping_body, 0)])) [] [])
      (?nt (sv_at c' (poolC Returned 1 [(ping_head, ping_body, 0)])) [] (header_layout pong_head @ response_layout pong_response))"
    using l_serve_write [of "?nt (sv_at connD (poolC Returned 1 [(ping_head, ping_body, 0)])) [] []" 0 connD _ net_mgr] connD_op
      serve_sv_at [where f = "write_handler Success", OF w]
    by simp
  from own_run_step [OF r this le] show ?thesis by blast
qed


lemma net_answered:
  "\<exists>t. own_run net_mgr net0 t \<and> issued t = [ping_request] \<and> resolved (client (ncl t)) = [(0, pong_response)]"
proof -
  let ?c0 = "client_write_handler Success one_call"
  have f: "client_read ?c0 = ReadHeader" "\<not> client_stopped ?c0" "pending ?c0 = [(1, 0)]" "resolved ?c0 = []" "calls ?c0 = 1"
    using one_call_fields by (simp_all add: client_write_handler_def client_do_write_def Let_def)
  obtain sv where r: "own_run net_mgr net0 (net_at (caller ?c0) sv [] (header_layout pong_head @ response_layout pong_response) [ping_request])"
    using net_served [OF net_sent] f(5) by auto
  let ?c1 = "?c0\<lparr>client_read := ReadBody pong_head\<rparr>"
  have d: "client_header_handler Success (header_layout pong_head) ?c0 = ?c1"
    using deserialize_header_layout [of pong_head "[]"]
    by (simp add: client_header_handler_def pong_head_def response_header_def Let_def)
  have "link_step net_mgr (net_at (caller ?c0) sv [] (header_layout pong_head @ response_layout pong_response) [ping_request])
      (net_at (caller ?c1) sv [] (response_layout pong_response) [ping_request])"
    using l_read_header [of "net_at (caller ?c0) sv [] (header_layout pong_head @ response_layout pong_response) [ping_request]" net_mgr] f(1,2) d
    by simp
  with r have r: "own_run net_mgr net0 (net_at (caller ?c1) sv [] (response_layout pong_response) [ping_request])"
    by (rule own_run_step) (simp add: f(5))
  have n: "unat (body_size pong_head) = length (response_layout pong_response)"
    by (simp add: pong_head_def response_header_def) (simp add: pong_response_def)
  have des: "deserialize_response (response_layout pong_response) = Ret pong_response"
    using deserialize_response_layout [of pong_response "[]"] by (simp add: response_fits_def pong_response_def)
  have sq: "seq_id pong_head = 1" by (simp add: pong_head_def response_header_def request_frame_def request_header_def seq_of_def)
  let ?c2 = "client_body_handler pong_head Success (response_layout pong_response) ?c1"
  have c2: "resolved ?c2 = [(0, pong_response)]" "calls ?c2 = 1"
    using f des sq by (simp_all add: client_body_handler_def client_read_header_def resolve_def)
  let ?t = "net_at ((caller ?c1)\<lparr>client := ?c2, received := response_in pong_head Success (response_layout pong_response)\<rparr>) sv [] [] [ping_request]"
  have "link_step net_mgr (net_at (caller ?c1) sv [] (response_layout pong_response) [ping_request]) ?t"
    using l_read_body [of "net_at (caller ?c1) sv [] (response_layout pong_response) [ping_request]" pong_head "response_layout pong_response" net_mgr] f(2) n
    by simp
  with r have "own_run net_mgr net0 ?t" by (rule own_run_step) (simp add: c2)
  then show ?thesis using c2(1) by (intro exI [of _ ?t]) simp
qed

lemma net_mgr_ok: "services_keep net_mgr" "answers_fit net_mgr"
  using services_ok_keep [OF ping_services_ok] ping_answers_fit [of "\<lambda>s. connection_count s mod 2 ^ 64"] by simp_all

section \<open>What callers may rely on\<close>

text \<open>
  Client, network and server together refine the ledger of calls. Whatever the threads of the client do, whatever order operations
  complete in, whichever reads and writes fail, and whatever else the server is busy with, what happens to
  the calls is a run of the abstract system: each is run at most once, and ends at most once, with an answer its request can be given
  after it was run or with the error response for a lost connection. The counter of the calls has not come round.
\<close>

theorem network_refines_ledger:
  assumes "services_keep m" and "answers_fit m" and "net_start n hw s" and "net_run m s t"
  shows "ledger_init (net_ledger s) \<and> (ledger_step m)\<^sup>*\<^sup>* (net_ledger s) (net_ledger t)"
  using led.reach_abs [of m n hw s t] assms by (simp add: net_init_def)

theorem network_refines_ledger_witness:
  "\<exists>l. (ledger_step net_mgr)\<^sup>*\<^sup>* (net_ledger net0) l \<and> l_calls l = [ping_request] \<and> l_results l = [0 \<mapsto> pong_response]"
proof -
  obtain t where t: "net_run net_mgr net0 t" "issued t = [ping_request]" "resolved (client (ncl t)) = [(0, pong_response)]"
    using net_answered own_run_net by blast
  show ?thesis
    using network_refines_ledger [OF net_mgr_ok net0_start t(1)] t(2,3)
    by (intro exI [of _ "net_ledger t"]) (simp add: net_ledger_def)
qed

lemma net_good_answered:
  assumes "net_good m t"
  shows "distinct (run_seqs t) \<and> distinct (map fst (resolved (client (ncl t)))) \<and>
    list_all (\<lambda>(k, resp). k < length (issued t) \<and>
        (seq_of k \<in> set (run_seqs t) \<and> can_answer m k (issued t ! k) resp \<or> (\<exists>e. resp = closed_response e)))
      (resolved (client (ncl t)))"
proof -
  obtain p L fu fd where i: "net_inv_with m p L fu fd t" using assms by (rule net_goodE)
  have "distinct (run_seqs t)" using ran_once(1) [OF i] run_seqs_ran [OF net_inv_withD(2) [OF i]] by simp
  moreover have "seq_of k \<in> set (run_seqs t)" if "k \<in> set (map call_no (run_seqs t))" for k
    using that ran_once(2) [OF i] run_seqs_ran [OF net_inv_withD(2) [OF i]] net_calls_bound [OF i] call_no_seq_of by fastforce
  ultimately show ?thesis
    using net_good_ledger(2,3) [OF assms] by (auto simp: list_all_iff outcome_ok_def)
qed

text \<open>
  End to end: every promise the client fulfils belongs to one of its calls, and it is fulfilled once; its value is the error response for a
  lost connection, or a response the server's \<^verbatim>\<open>process_request\<close> gives to exactly this call's request, and
  then the pool has executed that request. No request of a call is executed twice.
\<close>

theorem calls_answered_end_to_end:
  assumes "services_keep m" and "answers_fit m" and "net_start n hw s" and "net_run m s t"
  shows "distinct (run_seqs t) \<and> distinct (map fst (resolved (client (ncl t)))) \<and>
    list_all (\<lambda>(k, resp). k < length (issued t) \<and>
        (seq_of k \<in> set (run_seqs t) \<and> can_answer m k (issued t ! k) resp \<or> (\<exists>e. resp = closed_response e)))
      (resolved (client (ncl t)))"
  using led.reach_invar [of m n hw s t] assms by (intro net_good_answered) (simp add: net_init_def)

theorem calls_answered_end_to_end_witness:
  "\<exists>t. net_run net_mgr net0 t \<and> resolved (client (ncl t)) = [(0, pong_response)] \<and> seq_of 0 \<in> set (run_seqs t)"
proof -
  obtain t where t: "net_run net_mgr net0 t" "resolved (client (ncl t)) = [(0, pong_response)]"
    using net_answered own_run_net by blast
  have "pong_response \<noteq> closed_response e" for e
    by (simp add: pong_response_def closed_response_def error_response_def empty_response_def)
  then show ?thesis
    using calls_answered_end_to_end [OF net_mgr_ok net0_start t(1)] t by auto
qed

end
