(* ===== verification/Net_Progress.thy ===== *)
theory Net_Progress
  imports Call_Ledger
begin

text \<open>
  The system does not get stuck and loses nothing while its connection lives: from every reachable state in which both reading loops run, no
  write has failed and the pool accepts work, every outstanding call can still be answered. The proof is a schedule: some step brings a
  request or an answer closer to its goal as long as a call is open.
\<close>

section \<open>A living connection\<close>

definition conn_alive :: "Connection \<Rightarrow> bool" where
  "conn_alive c \<longleftrightarrow> \<not> closed c \<and> read_op c \<noteq> NoRead"

definition server_alive :: "nat option \<Rightarrow> 'a RpcServer_scheme \<Rightarrow> bool" where
  "server_alive pr sv \<longleftrightarrow> (case thread_pool sv of None \<Rightarrow> False | Some p \<Rightarrow> \<not> stopped p) \<and>
     (case pr of None \<Rightarrow> accept_pending (cycle sv) \<and> mc_running (cycle sv)
      | Some r \<Rightarrow> (case store (cycle sv) r of None \<Rightarrow> False | Some c \<Rightarrow> conn_alive c))"

definition client_alive :: "RpcClient \<Rightarrow> bool" where
  "client_alive c \<longleftrightarrow> \<not> client_stopped c \<and> client_read c \<noteq> NoRead"

definition alive :: "'a net \<Rightarrow> bool" where
  "alive s \<longleftrightarrow> linked s \<and> \<not> up_broken s \<and> \<not> down_broken s \<and> client_alive (client (ncl s)) \<and> server_alive (peer s) (nsv s)"

definition all_answered :: "'a net \<Rightarrow> bool" where
  "all_answered s \<longleftrightarrow> drafts (ncl s) = [] \<and> pending (client (ncl s)) = []"

section \<open>How far there is to go\<close>

definition upstream :: "client_sys \<Rightarrow> nat" where
  "upstream cs = sum_list (map (\<lambda>(sq, k, req). length (frame (request_item sq req)) + 5) (drafts cs)) +
     sum_list (map (\<lambda>it. length (frame it) + 4) (ready cs)) + sum_list (map (\<lambda>it. length (frame it) + 2) (client_queue (client cs))) +
     client_starts (client cs) + (case client_write (client cs) of None \<Rightarrow> 0 | Some it \<Rightarrow> length (frame it) + 1)"

definition requests_left :: "'a net \<Rightarrow> nat" where
  "requests_left s = upstream (ncl s) + (if peer s = None then 1 else 0) + length (up s) +
     (case thread_pool (nsv s) of None \<Rightarrow> 0 | Some p \<Rightarrow> work_left p)"

definition unsent :: "Connection \<Rightarrow> nat" where
  "unsent c = sum_list (map length ((case write_op c of None \<Rightarrow> [] | Some d \<Rightarrow> [d]) @ write_queue c))"

definition answers_left :: "'a net \<Rightarrow> nat" where
  "answers_left s = length (down s) +
     (case peer s of None \<Rightarrow> 0 | Some r \<Rightarrow> (case store (cycle (nsv s)) r of None \<Rightarrow> 0 | Some c \<Rightarrow> 2 * unsent c))"

definition closer :: "('a net \<times> 'a net) set" where
  "closer = measures [requests_left, answers_left]"

lemma wf_closer: "wf closer"
  by (simp add: closer_def)

text \<open>What a step of the schedule keeps; the promises it fulfils get genuine answers.\<close>

definition genuine :: "'a manager \<Rightarrow> 'a net \<Rightarrow> 'a net \<Rightarrow> bool" where
  "genuine m s t \<longleftrightarrow> issued t = issued s \<and> (\<exists>new. resolved (client (ncl t)) = resolved (client (ncl s)) @ new \<and>
     list_all (\<lambda>(k, resp). k < length (issued s) \<and> can_answer m k (issued s ! k) resp) new)"

lemma genuine_refl: "issued t = issued s \<Longrightarrow> resolved (client (ncl t)) = resolved (client (ncl s)) \<Longrightarrow> genuine m s t"
  by (auto simp: genuine_def)

lemma genuine_trans: "genuine m s t \<Longrightarrow> genuine m t u \<Longrightarrow> genuine m s u"
  by (auto simp: genuine_def)

definition advance :: "'a manager \<Rightarrow> 'a net \<Rightarrow> 'a net \<Rightarrow> bool" where
  "advance m s t \<longleftrightarrow> own_next m s t \<and> alive t \<and> genuine m s t \<and> (t, s) \<in> closer"

lemma advanceI:
  assumes "own_step m s t" and "calls (client (ncl t)) \<le> 2 ^ 32" and "alive t" and "issued t = issued s"
    and "resolved (client (ncl t)) = resolved (client (ncl s))"
    and "requests_left t < requests_left s \<or> requests_left t = requests_left s \<and> answers_left t < answers_left s"
  shows "advance m s t"
  using assms genuine_refl by (auto simp: advance_def own_next_def closer_def)

section \<open>The client\<close>

text \<open>A step of the client alone that makes its way shorter.\<close>

lemma client_advance:
  assumes "alive s" and "cl_local (ncl s) t" and "calls (client (ncl s)) \<le> 2 ^ 32"
    and "calls (client t) = calls (client (ncl s))" "resolved (client t) = resolved (client (ncl s))"
    "client_read (client t) = client_read (client (ncl s))" "client_stopped (client t) = client_stopped (client (ncl s))"
    and "upstream t < upstream (ncl s)"
  shows "advance m s (s\<lparr>ncl := t\<rparr>)"
  using assms by (intro advanceI own_link l_client) (auto simp: alive_def client_alive_def requests_left_def)

lemma draft_advances:
  assumes "alive s" and "calls (client (ncl s)) \<le> 2 ^ 32" and "drafts (ncl s) \<noteq> []"
  shows "\<exists>t. advance m s t"
proof -
  obtain sq k req ys where d: "drafts (ncl s) = [] @ (sq, k, req) # ys" using assms(3) by (cases "drafts (ncl s)") auto
  have b: "build_item sq req = Ret (request_item sq req)" by (simp add: build_item_eq request_item_def)
  show ?thesis
    by (rule exI, rule client_advance [OF assms(1) loc_register [OF d b] assms(2)]) (simp_all add: d add_pending_def upstream_def)
qed

lemma ready_advances:
  assumes "alive s" and "calls (client (ncl s)) \<le> 2 ^ 32" and "ready (ncl s) \<noteq> []"
  shows "\<exists>t. advance m s t"
proof -
  obtain it ys where r: "ready (ncl s) = [] @ it # ys" using assms(3) by (cases "ready (ncl s)") auto
  show ?thesis
    by (rule exI, rule client_advance [OF assms(1) loc_push [OF r] assms(2)]) (simp_all add: r push_item_def upstream_def Let_def)
qed

lemma start_advances:
  assumes "alive s" and "calls (client (ncl s)) \<le> 2 ^ 32" and "0 < client_starts (client (ncl s))" and "queue_inv (ncl s)"
  shows "\<exists>t. advance m s t"
proof -
  have w: "client_write (client (ncl s)) = None"
    using clw.inv_starter_idle [of "client (ncl s)"] assms(3,4) by (simp add: queue_inv_def)
  show ?thesis
    by (rule exI, rule client_advance [OF assms(1) loc_start [OF assms(3)] assms(2)])
      (use assms(3) w in \<open>simp_all add: enter_client_write_def client_do_write_def upstream_def split: list.split\<close>)
qed

lemma write_advances:
  assumes "alive s" and "calls (client (ncl s)) \<le> 2 ^ 32" and "client_write (client (ncl s)) = Some item"
  shows "\<exists>t. advance m s t"
proof -
  let ?t = "s\<lparr>ncl := with_client (client_write_handler Success) (ncl s), up := up s @ frame item\<rparr>"
  have "link_step m s ?t" using assms by (intro l_written) (auto simp: alive_def client_alive_def)
  then have "advance m s ?t"
    using assms
    by (intro advanceI own_link)
      (auto simp: alive_def client_alive_def with_client_def client_write_handler_def client_do_write_def requests_left_def
        upstream_def Let_def split: list.splits)
  then show ?thesis ..
qed


section \<open>The server\<close>

lemma alive_server:
  assumes "alive s" and "peer s = Some r" and "sv_inv m p L (nsv s)"
  obtains c where "store (cycle (nsv s)) r = Some c" "conn_alive c" "thread_pool (nsv s) = Some p" "\<not> stopped p"
  using assms sv_invD(1) [OF assms(3)] by (auto simp: alive_def server_alive_def split: option.splits)

lemma accept_advances:
  assumes "alive s" and "calls (client (ncl s)) \<le> 2 ^ 32" and "peer s = None"
  shows "\<exists>t. advance m s t"
proof -
  let ?t = "s\<lparr>nsv := (nsv s)\<lparr>cycle := accept_handler Success (cycle (nsv s))\<rparr>, peer := Some (fresh (cycle (nsv s)))\<rparr>"
  have "link_step m s ?t" using assms by (intro l_accept) (auto simp: alive_def server_alive_def)
  then have "advance m s ?t"
    using assms
    by (intro advanceI own_link)
      (auto simp: alive_def server_alive_def conn_alive_def accept_handler_store start_read_def do_read_header_def new_connection_def
        requests_left_def)
  then show ?thesis ..
qed

text \<open>While the pool accepts work, a handler of a connection ends normally, and every message it delivers is a task more.\<close>

lemma deliver_alive:
  assumes "thread_pool sv = Some p" and "\<not> stopped p"
  shows "\<exists>sv' p'. deliver m r ms sv = Some sv' \<and> cycle sv' = cycle sv \<and> thread_pool sv' = Some p' \<and> \<not> stopped p' \<and>
    work_left p' = work_left p + 7 * length ms"
  using assms
proof (induction ms arbitrary: sv p)
  case (Cons x ms)
  obtain h b where x: "x = (h, b)" by force
  let ?q = "p\<lparr>tasks := tasks p @ [(h, b, r)], pending_count := pending_count p + 1, accepted := accepted p @ [(h, b, r)]\<rparr>"
  have "server_on_message m h b r sv = (Ret (), sv\<lparr>thread_pool := Some ?q\<rparr>)"
    using Cons.prems by (simp add: server_on_message_def enqueue_def)
  moreover have "work_left ?q = work_left p + 7" by (simp add: work_left_def)
  ultimately show ?case using Cons.IH [of "sv\<lparr>thread_pool := Some ?q\<rparr>" ?q] Cons.prems(2) x by auto
qed simp

lemma serve_alive:
  assumes "thread_pool sv = Some p" and "\<not> stopped p" and c: "store (cycle sv) r = Some c"
  obtains sv' p' where "serve m r f sv = Some sv'" "thread_pool sv' = Some p'" "\<not> stopped p'"
    "store (cycle sv') r = Some (fst (f c))" "work_left p' = work_left p + 7 * length (concat (map message_of (snd (f c))))"
proof -
  note e = run_handler_effect [OF c, of f]
  let ?sv = "sv\<lparr>cycle := fst (run_handler r f (cycle sv))\<rparr>"
  obtain sv' p' where d: "deliver m r (concat (map message_of (snd (f c)))) ?sv = Some sv'" "cycle sv' = cycle ?sv" "thread_pool sv' = Some p'"
      "\<not> stopped p'" "work_left p' = work_left p + 7 * length (concat (map message_of (snd (f c))))"
    using deliver_alive [of ?sv p m r "concat (map message_of (snd (f c)))"] assms(1,2) by auto
  then have "serve m r f sv = Some sv'" by (simp add: serve_def case_prod_beta e(3))
  then show thesis using that d e(1) by simp
qed

text \<open>A handler of the client's connection that brings a request or an answer on its way.\<close>

lemma serve_advance:
  assumes "alive s" and "calls (client (ncl s)) \<le> 2 ^ 32" and r: "peer s = Some r" and inv: "sv_inv m p L (nsv s)"
    and c: "store (cycle (nsv s)) r = Some c" and al: "conn_alive (fst (f c))"
    and step: "\<And>sv. serve m r f (nsv s) = Some sv \<Longrightarrow> link_step m s (s\<lparr>nsv := sv, up := a, down := d\<rparr>)"
    and less: "length a + 7 * length (concat (map message_of (snd (f c)))) < length (up s) \<or>
      length a + 7 * length (concat (map message_of (snd (f c)))) = length (up s) \<and>
      length d + 2 * unsent (fst (f c)) < length (down s) + 2 * unsent c"
  shows "\<exists>t. advance m s t"
proof -
  have p: "thread_pool (nsv s) = Some p" "\<not> stopped p" using alive_server [OF assms(1) r inv] by blast+
  obtain sv p' where sv: "serve m r f (nsv s) = Some sv" "thread_pool sv = Some p'" "\<not> stopped p'"
      "store (cycle sv) r = Some (fst (f c))" "work_left p' = work_left p + 7 * length (concat (map message_of (snd (f c))))"
    using serve_alive [OF p c] by blast
  have "advance m s (s\<lparr>nsv := sv, up := a, down := d\<rparr>)"
    using step [OF sv(1)] assms(1,2) r c al sv less p
    by (intro advanceI own_link) (auto simp: alive_def server_alive_def requests_left_def answers_left_def)
  then show ?thesis ..
qed



text \<open>A frame in the stream of the living connection is read.\<close>

lemma request_frame_read_advances:
  assumes al: "alive s" and inv: "net_inv_with m p L fu fd s" and r: "peer s = Some r" and "fu \<noteq> []"
  shows "\<exists>t. advance m s t"
proof -
  note i = net_inv_withD [OF inv]
  obtain c where c: "store (cycle (nsv s)) r = Some c" "conn_alive c" using alive_server [OF al r i(2)] by blast
  have b: "\<not> up_broken s" using al by (simp add: alive_def)
  note k = conn_of_peer(1) [OF inv r c(1)]
  have om: "on_message c" using trackedD(2) [OF i(9) r c(1)] .
  show ?thesis
  proof (cases "read_op c")
    case NoRead
    then show ?thesis using c(2) by (simp add: conn_alive_def)
  next
    case ReadHeader
    then have rd: "reading ReadHeader False (up s) fu" using k b by simp
    then have n: "20 \<le> length (up s)" using \<open>fu \<noteq> []\<close> by (cases fu) (auto simp: flows_def frame_bytes_def)
    from reading_header [OF rd n] obtain h where h: "take 20 (up s) = header_layout h" "magic h = MAGIC" by metis
    let ?f = "header_handler Success (take 20 (up s))"
    have f: "?f c = (do_read_body h (c\<lparr>read_op := NoRead, header_buf := take 20 (up s)\<rparr>), [])"
      using h deserialize_header_layout [of h "[]"] by (simp add: header_handler_def)
    show ?thesis
    proof (rule serve_advance [where f = ?f and a = "drop 20 (up s)" and d = "down s", OF al i(7) r i(2) c(1)])
      show "link_step m s (s\<lparr>nsv := sv, up := drop 20 (up s), down := down s\<rparr>)" if "serve m r ?f (nsv s) = Some sv" for sv
        using l_serve_header [OF r c(1) ReadHeader n that] by simp
    qed (use c(2) n in \<open>auto simp: f conn_alive_def do_read_body_def Let_def\<close>)
  next
    case (ReadBody h)
    then have rd: "reading (ReadBody h) False (up s) fu" using k b by simp
    then obtain body fu' where fu: "fu = (h, body) # fu'" "up s = body @ concat (map frame_bytes fu')" "frame_ok (h, body)"
      by (auto simp: flows_def split: list.splits)
    let ?n = "unat (body_size h)" and ?f = "body_handler h Success (take (unat (body_size h)) (up s))"
    have n: "?n \<le> length (up s)" "?n = length body" using fu by (simp_all add: frame_ok_def)
    have "asked (issued s) (h, body)" using i(4) fu(1) by (simp add: up_ok_def)
    then have long: "12 \<le> length body" by (auto simp: asked_def request_frame_def)
    show ?thesis
    proof (rule serve_advance [where f = ?f and a = "drop ?n (up s)" and d = "down s", OF al i(7) r i(2) c(1)])
      show "link_step m s (s\<lparr>nsv := sv, up := drop ?n (up s), down := down s\<rparr>)" if "serve m r ?f (nsv s) = Some sv" for sv
        using l_serve_body [OF r c(1) ReadBody n(1) that] by simp
    qed (use c(2) n long om fu(2) in \<open>simp_all add: conn_alive_def body_handler_def do_read_header_def Let_def\<close>)
  qed
qed

section \<open>The pool\<close>

lemma pool_idle:
  assumes "pool_inv p" and "workers p \<noteq> []" and "\<not> stopped p" and "\<And>i. worker_loop i p = None"
  shows "mset (executed p) = mset (accepted p)"
proof -
  have w: "w = Waiting" if "w \<in> set (workers p)" for w
  proof -
    from that obtain i where i: "i < length (workers p)" "workers p ! i = w" by (auto simp: in_set_conv_nth)
    have "w \<noteq> Exited" using that assms(1,3) by (auto simp: pool_inv_def)
    then show ?thesis using assms(4) [of i] i by (cases w) (auto simp: worker_loop_def)
  qed
  then have "worker_loop 0 p = None" "workers p ! 0 = Waiting" using assms(2,4) by simp_all
  then have "tasks p = []" using assms(2,3) by (auto simp: worker_loop_def split: if_splits list.splits)
  moreover have "sum_list (map in_hand ws) = {#}" if "\<And>w. w \<in> set ws \<Longrightarrow> w = Waiting" for ws
    using that by (induction ws) force+
  from this [OF w] have "sum_list (map in_hand (workers p)) = {#}" .
  ultimately show ?thesis using assms(1) by (simp add: pool_inv_def)
qed

lemma server_alive_worker:
  assumes keep: "services_keep m" and inv: "sv_inv m p L sv" and w: "server_worker m i sv = Some sv'" and al: "server_alive q sv"
  shows "server_alive q sv'"
proof -
  obtain p' L' where p': "sv_inv m p' (L @ L') sv'" "worker_loop i p = Some p'" "same_io (store (cycle sv)) (store (cycle sv'))"
    using sv_inv_worker [OF keep inv w] by blast
  obtain st where st: "cycle sv' = (cycle sv)\<lparr>store := st\<rparr>" using w keep by (rule server_worker_cycle)
  have "\<exists>c'. store (cycle sv') r = Some c' \<and> conn_alive c'" if q: "q = Some r" for r
  proof -
    obtain c where c: "store (cycle sv) r = Some c" "conn_alive c" using al q by (auto simp: server_alive_def split: option.splits)
    then show ?thesis
      using p'(3) [unfolded same_io_def, rule_format, of r] server_worker_closed [OF keep w c(1)] by (auto simp: conn_alive_def)
  qed
  then show ?thesis
    using al sv_invD(1) [OF inv] sv_invD(1) [OF p'(1)] worker_loop_frame [OF p'(2)] st
    by (cases q) (auto simp: server_alive_def split: option.splits)
qed

lemma worker_advances:
  assumes al: "alive s" and keep: "services_keep m" and inv: "net_inv_with m p L fu fd s" and w: "worker_loop i p = Some p1"
  shows "\<exists>t. advance m s t"
proof -
  note i = net_inv_withD [OF inv]
  note p = sv_invD(1) [OF i(2)]
  obtain sv where sv: "server_worker m i (nsv s) = Some sv"
    using w p by (cases "workers p ! i") (auto simp: server_worker_def Let_def)
  obtain p' L' where p': "sv_inv m p' (L @ L') sv" "worker_loop i p = Some p'"
    using sv_inv_worker [OF keep i(2) sv] by blast
  have "server_alive (peer s) sv" using al server_alive_worker [OF keep i(2) sv] by (simp add: alive_def)
  then have "advance m s (s\<lparr>nsv := sv\<rparr>)"
    using al p sv_invD(1) [OF p'(1)] work_left_decreases [OF p'(2)] i(7)
    by (intro advanceI own_worker [OF sv]) (auto simp: alive_def requests_left_def)
  then show ?thesis ..
qed


section \<open>The answers\<close>

lemma answer_written_advances:
  assumes al: "alive s" and fit: "answers_fit m" and inv: "net_inv_with m p L fu fd s" and r: "peer s = Some r"
    and c: "store (cycle (nsv s)) r = Some c" and op: "write_op c = Some d"
  shows "\<exists>t. advance m s t"
proof -
  note i = net_inv_withD [OF inv]
  have ca: "conn_alive c" using alive_server [OF al r i(2)] c by (metis option.inject)
  have "d \<in> set (cw.handed_over c)" using op by (simp add: cw.handed_over_def)
  then obtain f where "d = frame_bytes f"
    using peer_frame [OF i(2) c _ _ fit client_okD(4) [OF i(1)]] i(4) r by metis
  then have "20 \<le> length d" by (cases f) (simp add: frame_bytes_def)
  then have n: "0 < length d" by linarith
  have b: "\<not> down_broken s" using al by (simp add: alive_def)
  let ?f = "write_handler Success"
  have f: "closed (fst (?f c)) = closed c" "unsent (fst (?f c)) + length d = unsent c"
    using op by (auto simp: write_handler_def do_write_def unsent_def Let_def split: list.splits)
  have less: "length d + 2 * unsent (fst (?f c)) < 2 * unsent c" using f(2) n by linarith
  show ?thesis
  proof (rule serve_advance [where f = ?f and a = "up s" and d = "down s @ d", OF al i(7) r i(2) c])
    show "conn_alive (fst (?f c))" using ca f(1) write_handler_untouched(1) [of Success c] by (simp add: conn_alive_def)
    show "link_step m s (s\<lparr>nsv := sv, up := up s, down := down s @ d\<rparr>)" if "serve m r ?f (nsv s) = Some sv" for sv
      using l_serve_write [OF r c op b that] by simp
    show "length (up s) + 7 * length (concat (map message_of (snd (?f c)))) < length (up s) \<or>
        length (up s) + 7 * length (concat (map message_of (snd (?f c)))) = length (up s) \<and>
        length (down s @ d) + 2 * unsent (fst (?f c)) < length (down s) + 2 * unsent c"
      unfolding write_handler_untouched(2) using less by simp
  qed
qed

text \<open>A response that the client reads is a genuine answer to the call it fulfils.\<close>

lemma response_genuine:
  assumes inv: "net_inv_with m p L fu fd s" and "answers m (issued s) sq resp" and "issued t = issued s"
    and "resolved (client (ncl t)) = resolved (resolve sq resp (client (ncl s)))"
  shows "genuine m s t"
proof (cases "map_of (pending (client (ncl s))) sq")
  case None
  then show ?thesis using assms(3,4) by (intro genuine_refl) (simp_all add: resolved_eq)
next
  case (Some k)
  note c = client_okD [OF net_inv_withD(1) [OF inv]]
  have kp: "(sq, k) \<in> set (pending (client (ncl s)))" using Some by (rule map_of_SomeD)
  then have sq: "sq = seq_of k" using c(1) by (auto simp: promise_inv_def Let_def)
  have "mset (map fst (resolved (client (ncl s)))) + mset (map snd (pending (client (ncl s)))) + mset (draft_ids (ncl s)) =
      mset [0..<calls (client (ncl s))]"
    using c(1) by (simp add: promise_inv_def Let_def)
  from arg_cong [OF this, of set_mset] have "snd ` set (pending (client (ncl s))) \<subseteq> {0..<calls (client (ncl s))}" by auto
  then have k: "k < length (issued s)" using c(3) kp by force
  obtain j where j: "j < length (issued s)" "sq = seq_of j" "can_answer m j (issued s ! j) resp"
    using assms(2) by (auto simp: answers_def can_answer_def)
  have "j < 2 ^ 32" "k < 2 ^ 32" using j(1) k net_calls_bound [OF inv] by linarith+
  then have "j = k" using seq_of_inject [of j k] j(2) sq by metis
  then have "list_all (\<lambda>(k, resp). k < length (issued s) \<and> can_answer m k (issued s ! k) resp) [(k, resp)]" using j(3) k by simp
  moreover have "resolved (client (ncl t)) = resolved (client (ncl s)) @ [(k, resp)]" unfolding assms(4) by (simp add: resolved_eq Some)
  ultimately show ?thesis unfolding genuine_def using assms(3) by blast
qed

lemma answers_left_read: "answers_left (s\<lparr>ncl := t, down := d\<rparr>) + length (down s) = answers_left s + length d"
  by (simp add: answers_left_def split: option.split)

lemma requests_left_read: "upstream t = upstream (ncl s) \<Longrightarrow> requests_left (s\<lparr>ncl := t, down := d\<rparr>) = requests_left s"
  by (simp add: requests_left_def)

lemma answer_header_advances:
  assumes al: "alive s" and inv: "net_inv_with m p L fu fd s" and "fd \<noteq> []" and op: "client_read (client (ncl s)) = ReadHeader"
  shows "\<exists>t. advance m s t"
proof -
  note i = net_inv_withD [OF inv]
  have a: "\<not> down_broken s" "\<not> client_stopped (client (ncl s))" using al by (simp_all add: alive_def client_alive_def)
  have rd: "reading ReadHeader False (down s) fd" using i(3) a(1) op by (simp add: link_ok_def)
  then have n: "20 \<le> length (down s)" using \<open>fd \<noteq> []\<close> by (cases fd) (auto simp: flows_def frame_bytes_def)
  from reading_header [OF rd n] obtain h where h: "take 20 (down s) = header_layout h" "magic h = MAGIC" by metis
  let ?t = "s\<lparr>ncl := with_client (client_header_handler Success (take 20 (down s))) (ncl s), down := drop 20 (down s)\<rparr>"
  have f: "client_header_handler Success (take 20 (down s)) (client (ncl s)) = (client (ncl s))\<lparr>client_read := ReadBody h\<rparr>"
    using h deserialize_header_layout [of h "[]"] by (simp add: client_header_handler_def)
  have "upstream (ncl ?t) = upstream (ncl s)" by (simp add: with_client_def f upstream_def)
  then have "requests_left ?t = requests_left s" "answers_left ?t < answers_left s"
    using n answers_left_read [where s = s and t = "ncl ?t" and d = "drop 20 (down s)"] by (simp_all add: requests_left_read)
  then have "advance m s ?t"
    using al i(7) by (intro advanceI own_link l_read_header op a(2) n) (simp_all add: with_client_def f alive_def client_alive_def)
  then show ?thesis ..
qed

lemma answer_body_advances:
  assumes al: "alive s" and inv: "net_inv_with m p L fu fd s" and op: "client_read (client (ncl s)) = ReadBody h"
  shows "\<exists>t. advance m s t"
proof -
  note i = net_inv_withD [OF inv]
  have a: "\<not> down_broken s" "\<not> client_stopped (client (ncl s))" using al by (simp_all add: alive_def client_alive_def)
  obtain body fd' where fd: "fd = (h, body) # fd'" "down s = body @ concat (map frame_bytes fd')" "frame_ok (h, body)"
    using i(3) a(1) op by (auto simp: link_ok_def flows_def split: list.splits)
  let ?n = "unat (body_size h)"
  have n: "?n \<le> length (down s)" "take ?n (down s) = body" "?n = length body" using fd by (simp_all add: frame_ok_def)
  obtain resp where resp: "body = response_layout resp" "response_fits resp" "answers m (issued s) (seq_id h) resp"
    using i(5) fd(1) by (auto simp: down_ok_def answer_ok_def)
  have des: "deserialize_response body = Ret resp" using deserialize_response_layout [OF resp(2), of "[]"] resp(1) by simp
  let ?t = "s\<lparr>ncl := (ncl s)\<lparr>client := client_body_handler h Success body (client (ncl s)),
      received := received (ncl s) @ response_in h Success body\<rparr>, down := drop ?n (down s)\<rparr>"
  have st: "link_step m s ?t" using l_read_body [OF op a(2) n(1) n(2) [symmetric]] .
  have f: "client_body_handler h Success body (client (ncl s)) =
      client_read_header (resolve (seq_id h) resp ((client (ncl s))\<lparr>client_read := NoRead\<rparr>))"
    using des by (simp add: client_body_handler_def)
  have "resolved (client (ncl ?t)) = resolved (resolve (seq_id h) resp (client (ncl s)))"
    by (simp add: f client_read_header_def resolve_def split: option.split)
  then have "genuine m s ?t" by (intro response_genuine [OF inv resp(3)]) simp_all
  moreover have "client_stopped (resolve sq resp c) = client_stopped c" for sq c by (simp add: resolve_def split: option.split)
  then have "alive ?t" using al by (simp add: alive_def client_alive_def f client_read_header_def)
  moreover have "upstream (ncl ?t) = upstream (ncl s)" by (simp add: upstream_def f client_read_header_def)
  moreover from this have "requests_left ?t = requests_left s" by (simp add: requests_left_read)
  moreover have "0 < ?n" using n(3) resp(1) by simp
  then have "answers_left ?t < answers_left s"
    using n(1) answers_left_read [where s = s and t = "ncl ?t" and d = "drop ?n (down s)"] by simp
  moreover have "calls (client (ncl ?t)) \<le> 2 ^ 32" using i(7) by (simp add: f client_read_header_def)
  ultimately have "advance m s ?t" using own_link [OF st] by (simp add: advance_def own_next_def closer_def)
  then show ?thesis ..
qed

lemma answer_read_advances:
  assumes "alive s" and "net_inv_with m p L fu fd s" and "fd \<noteq> []"
  shows "\<exists>t. advance m s t"
  using assms answer_header_advances [OF assms] answer_body_advances [OF assms(1,2)]
  by (cases "client_read (client (ncl s))") (auto simp: alive_def client_alive_def)

section \<open>The schedule\<close>

lemma queue_drained:
  assumes "queue_inv cs" and "client_write (client cs) = None" and "client_starts (client cs) = 0"
  shows "client_queue (client cs) = []"
  using assms by (auto simp: queue_inv_def clw.writer_inv_def split: if_splits)

text \<open>A request of a waiting call that the pool has executed left a frame with the connection.\<close>

lemma executed_answered:
  assumes ok: "services_ok m" and inv: "net_inv_with m p L [] fd s" and r: "peer s = Some r" and c: "store (cycle (nsv s)) r = Some c"
    and "\<not> closed c" and idle: "mset (executed p) = mset (accepted p)" and empty: "on_the_way (ncl s) = {#}"
    and x: "x \<in> awaited (ncl s)"
  shows "\<exists>d \<in> set (cw.handed_over c). frame_seq d = x"
proof -
  note i = net_inv_withD [OF inv]
  note v = sv_invD [OF i(2)]
  have "x \<in># delivered_seqs (peer s) p"
    using trackedD(1) [OF i(9) x] empty by (simp add: pipeline_def frame_seqs_def)
  then obtain j where j: "j \<in> set (accepted p)" "snd (snd j) = r" "x = seq_id (fst j)"
    using r by (auto simp: delivered_seqs_def jobs_of_def)
  then have "j \<in> fst ` set L" using mset_eq_setD [OF idle] v(6) by (metis set_map)
  then obtain a where a: "(j, a) \<in> set L" by force
  then obtain resp where resp: "a = Some resp" using services_ok_answers [OF ok v(7)] by blast
  obtain h body where h: "j = (h, body, r)" using j(2) by (metis prod.collapse)
  have "answer_frame j resp \<in># frames_for r L" using a resp h by (auto simp: in_frames_for)
  then have "answer_frame j resp \<in> set (cw.handed_over c)"
    using v(8) [OF c] assms(5) by (metis conn_holds_def set_mset_mset)
  then show ?thesis using j(3) h by force
qed

lemma net_advances:
  assumes al: "alive s" and ok: "services_ok m" and fit: "answers_fit m" and inv: "net_inv_with m p L fu fd s"
    and "\<not> all_answered s"
  shows "\<exists>t. advance m s t"
proof -
  note i = net_inv_withD [OF inv]
  note keep = services_ok_keep [OF ok]
  have q: "queue_inv (ncl s)" using client_okD(2) [OF i(1)] .
  consider "drafts (ncl s) \<noteq> []" | "ready (ncl s) \<noteq> []" | it where "client_write (client (ncl s)) = Some it"
    | "0 < client_starts (client (ncl s))" | "peer s = None"
    | r where "peer s = Some r" "fu \<noteq> []" | j p1 where "worker_loop j p = Some p1"
    | r where "peer s = Some r" "fu = []" "\<And>j. worker_loop j p = None" "drafts (ncl s) = []" "items (ncl s) = []"
    using queue_drained [OF q] by (cases "client_write (client (ncl s))"; cases "peer s") (auto simp: items_def, fastforce)
  then show ?thesis
  proof cases
    case (8 r)
    obtain c where c: "store (cycle (nsv s)) r = Some c" "conn_alive c" "\<not> stopped p" using alive_server [OF al 8(1) i(2)] by blast
    note v = sv_invD [OF i(2)]
    have "mset (executed p) = mset (accepted p)" using pool_idle [OF v(2,3) c(3)] 8(3) by blast
    moreover have "on_the_way (ncl s) = {#}" using 8(4,5) by (simp add: on_the_way_def)
    moreover obtain x where x: "x \<in> awaited (ncl s)"
      using assms(5) 8(4) by (cases "pending (client (ncl s))") (auto simp: all_answered_def awaited_def)
    ultimately obtain d where d: "d \<in> set (cw.handed_over c)" "frame_seq d = x"
      using executed_answered [OF ok, of p L fd s r c x] inv 8(1,2) c by (auto simp: conn_alive_def)
    show ?thesis
    proof (cases "write_op c")
      case (Some e)
      then show ?thesis using answer_written_advances [OF al fit inv 8(1) c(1)] by blast
    next
      case None
      then have "write_queue c = []" using v(8) [OF c(1)] c(2) by (auto simp: conn_holds_def tidy_def conn_alive_def)
      then have "d \<in> set (wire c)" using d(1) None by (simp add: cw.handed_over_def)
      then have "x \<in> seqs fd" using trackedD(3) [OF i(9) 8(1) c(1)] d(2) x by blast
      then have "fd \<noteq> []" by (auto simp: seqs_def)
      then show ?thesis by (rule answer_read_advances [OF al inv])
    qed
  qed (rule draft_advances [OF al i(7)] ready_advances [OF al i(7)] write_advances [OF al i(7)] start_advances [OF al i(7) _ q]
      accept_advances [OF al i(7)] request_frame_read_advances [OF al inv] worker_advances [OF al keep inv], assumption+)+
qed

lemma net_completes:
  assumes ok: "services_ok m" and fit: "answers_fit m" and "net_inv m s" and "alive s"
  shows "\<exists>u. own_run m s u \<and> net_inv m u \<and> alive u \<and> genuine m s u \<and> all_answered u"
  using assms(3,4)
proof (induction s rule: wf_induct_rule [OF wf_closer])
  case (1 s)
  obtain p L fu fd where inv: "net_inv_with m p L fu fd s" using 1(2) by (auto simp: net_inv_def)
  show ?case
  proof (cases "all_answered s")
    case True
    then show ?thesis using 1(2,3) genuine_refl [of s s m] by blast
  next
    case False
    then obtain t where t: "own_next m s t" "alive t" "genuine m s t" "(t, s) \<in> closer"
      using net_advances [OF 1(3) ok fit inv] by (auto simp: advance_def)
    have "net_inv m t"
      using net_inv_step [OF own_next_net [OF t(1)] inv services_ok_keep [OF ok] fit] by (auto simp: net_inv_from_def net_inv_def)
    then obtain u where "own_run m t u" "net_inv m u" "alive u" "genuine m t u" "all_answered u" using 1(1) [OF t(4)] t(2) by blast
    then show ?thesis using t(1,3) genuine_trans [of m s t u] by (meson converse_rtranclp_into_rtranclp)
  qed
qed

lemma all_answered_resolved:
  assumes "net_inv m s" and "all_answered s"
  shows "mset (map fst (resolved (client (ncl s)))) = mset [0..<length (issued s)]"
proof -
  obtain p L fu fd where inv: "net_inv_with m p L fu fd s" using assms(1) by (auto simp: net_inv_def)
  note c = client_okD [OF net_inv_withD(1) [OF inv]]
  show ?thesis using c(1,3) assms(2) by (simp add: promise_inv_def Let_def all_answered_def draft_ids_def)
qed

lemma genuine_answers:
  assumes "net_inv m u" and "genuine m s u" and "all_answered u"
  shows "issued u = issued s \<and> mset (map fst (resolved (client (ncl u)))) = mset [0..<length (issued s)] \<and>
    (\<exists>new. resolved (client (ncl u)) = resolved (client (ncl s)) @ new \<and> list_all (\<lambda>(k, resp). can_answer m k (issued s ! k) resp) new)"
proof -
  from assms(2) obtain new where new: "issued u = issued s" "resolved (client (ncl u)) = resolved (client (ncl s)) @ new"
      "list_all (\<lambda>(k, resp). k < length (issued s) \<and> can_answer m k (issued s ! k) resp) new"
    by (auto simp: genuine_def)
  have "list_all (\<lambda>(k, resp). can_answer m k (issued s ! k) resp) new" using new(3) by (auto simp: list_all_iff)
  then show ?thesis using new all_answered_resolved [OF assms(1,3)] by (metis new(1))
qed

section \<open>Every call can be answered\<close>

text \<open>
  No call is stuck. In every state that client, network and server can reach together, in any interleaving, and in which the
  connection lives (both sides read, no write has failed, the pool accepts work), there is a continuation without
  further calls in which every promise is fulfilled, each exactly once; those that were open get a response that
  \<^verbatim>\<open>process_request\<close> gives to their own request, none the error for a lost connection.
\<close>

theorem open_calls_can_be_answered:
  assumes "services_ok m" and "answers_fit m" and "net_start n hw s" and "net_run m s t" and "alive t"
  shows "\<exists>u new. net_run m t u \<and> issued u = issued t \<and> mset (map fst (resolved (client (ncl u)))) = mset [0..<length (issued t)] \<and>
    resolved (client (ncl u)) = resolved (client (ncl t)) @ new \<and>
    list_all (\<lambda>(k, resp). can_answer m k (issued t ! k) resp) new"
proof -
  have "net_good m t"
    using led.reach_invar [of m n hw s t] assms(2-4) services_ok_keep [OF assms(1)] by (simp add: net_init_def)
  then have "net_inv m t" by (simp add: net_good_def)
  then obtain u where u: "net_run m t u" "net_inv m u" "genuine m t u" "all_answered u"
    using net_completes [OF assms(1,2) _ assms(5)] own_run_net by blast
  then show ?thesis using genuine_answers [OF u(2-4)] by blast
qed

lemma ping_pong_only:
  assumes "can_answer (ping_manager cnt) k ping_request resp"
  shows "resp = pong_response"
proof -
  obtain w w' where "process_request (ping_manager cnt) (fst (request_frame k ping_request)) (request_layout ping_request) w = (Ret resp, w')"
    using assms by (auto simp: can_answer_def is_answer_def request_frame_def)
  then show ?thesis by (simp add: ping_answers)
qed

text \<open>A ping whose frame has been written but not read: there is a run to its answer, and the answer is the pong.\<close>

definition ping_sent :: "unit net" where
  "ping_sent = net_at (caller (client_write_handler Success one_call)) (sv_at conn1 (new_pool 1 0))
     (header_layout ping_head @ ping_body) [] [ping_request]"

lemma ping_sent_run: "own_run net_mgr net0 ping_sent"
  unfolding ping_sent_def by (rule net_sent)

lemma ping_sent_open: "alive ping_sent" "resolved (client (ncl ping_sent)) = []" "issued ping_sent = [ping_request]"
proof -
  have f: "client_read (client_write_handler Success one_call) = ReadHeader" "\<not> client_stopped (client_write_handler Success one_call)"
      "resolved (client_write_handler Success one_call) = []"
    using one_call_fields by (simp_all add: client_write_handler_def client_do_write_def Let_def)
  then show "alive ping_sent"
    by (simp add: ping_sent_def alive_def client_alive_def server_alive_def conn_alive_def)
      (simp add: new_pool_def conn1_def start_read_def do_read_header_def new_connection_def)
  show "resolved (client (ncl ping_sent)) = []" "issued ping_sent = [ping_request]" using f(3) by (simp_all add: ping_sent_def)
qed

lemma one_pong:
  assumes "mset (map fst new) = mset [0..<length [ping_request]]" and "list_all (\<lambda>(k, resp). can_answer net_mgr k ([ping_request] ! k) resp) new"
  shows "new = [(0, pong_response)]"
proof -
  obtain resp where "new = [(0, resp)]" using assms(1) by (cases new) auto
  then show ?thesis using assms(2) ping_pong_only [of _ 0 resp] by simp
qed

theorem open_calls_can_be_answered_witness:
  "\<exists>u. net_run net_mgr net0 ping_sent \<and> resolved (client (ncl ping_sent)) = [] \<and> net_run net_mgr ping_sent u \<and>
     resolved (client (ncl u)) = [(0, pong_response)]"
proof -
  obtain u new where u: "net_run net_mgr ping_sent u" "mset (map fst (resolved (client (ncl u)))) = mset [0..<length [ping_request]]"
      "resolved (client (ncl u)) = new" "list_all (\<lambda>(k, resp). can_answer net_mgr k ([ping_request] ! k) resp) new"
    using open_calls_can_be_answered [OF ping_services_ok net_mgr_ok(2) net0_start own_run_net [OF ping_sent_run] ping_sent_open(1)]
    unfolding ping_sent_open(2,3) append_Nil by blast
  then show ?thesis using one_pong [of new] own_run_net [OF ping_sent_run] ping_sent_open(2) by blast
qed

end
