(* ===== verification/Many_Clients.thy ===== *)
theory Many_Clients
  imports Net_Progress
begin

text \<open>
  Any number of clients and one server. Each client has its threads, its calls and its TCP connection, as in \<^verbatim>\<open>Rpc_Network\<close>; they share the
  server's accept loop, its thread pool and its services. What one client sees of the whole is a run of \<^verbatim>\<open>Rpc_Network\<close>, in which the
  connections of the others are connections on which anything may arrive; so what holds there holds here of every client at once.
\<close>

section \<open>The system\<close>

record 'a fleet =
  fsv :: "'a RpcServer_scheme"
  sides :: "side list"

text \<open>The whole as one client sees it.\<close>

definition seen :: "'a RpcServer_scheme \<Rightarrow> side \<Rightarrow> 'a net" where
  "seen sv d = side.extend d (net.fields sv)"

abbreviation view :: "'a fleet \<Rightarrow> nat \<Rightarrow> 'a net" where
  "view F i \<equiv> seen (fsv F) (sides F ! i)"

abbreviation peers :: "'a fleet \<Rightarrow> nat option set" where
  "peers F \<equiv> peer ` set (sides F)"

text \<open>
  A step of one client, its connection included, or a step of the server: of its workers, its accept loop, its shutdown, a failure of any of its
  connections, or bytes on a connection that belongs to none of the clients.
\<close>

inductive fleet_step :: "'a manager \<Rightarrow> 'a fleet \<Rightarrow> 'a fleet \<Rightarrow> bool" for m where
  fl_link: "i < length (sides F) \<Longrightarrow> link_step m (view F i) t \<Longrightarrow>
    fleet_step m F (F\<lparr>fsv := nsv t, sides := (sides F)[i := side.truncate t]\<rparr>)"
| fl_server: "sv_step m (\<lambda>r. Some r \<notin> peers F) (fsv F) sv \<Longrightarrow> fleet_step m F (F\<lparr>fsv := sv\<rparr>)"

definition few_calls :: "side \<Rightarrow> bool" where
  "few_calls d \<longleftrightarrow> calls (client (ncl d)) \<le> 2 ^ 32"

definition fleet_next :: "'a manager \<Rightarrow> 'a fleet \<Rightarrow> 'a fleet \<Rightarrow> bool" where
  "fleet_next m F G \<longleftrightarrow> fleet_step m F G \<and> list_all few_calls (sides G)"

abbreviation fleet_run :: "'a manager \<Rightarrow> 'a fleet \<Rightarrow> 'a fleet \<Rightarrow> bool" where
  "fleet_run m \<equiv> rtranclp (fleet_next m)"

definition fresh_side :: side where
  "fresh_side = \<lparr>ncl = client_init, linked = False, peer = None, up = [], up_broken = False, down = [], down_broken = False, issued = []\<rparr>"

definition fleet_start :: "nat \<Rightarrow> nat \<Rightarrow> 'a fleet \<Rightarrow> bool" where
  "fleet_start n hw F \<longleftrightarrow> sv_start n hw (fsv F) \<and> list_all (\<lambda>d. d = fresh_side) (sides F)"

section \<open>What one client sees\<close>

lemma seen_simps [simp]:
  "ncl (seen sv d) = ncl d" "linked (seen sv d) = linked d" "peer (seen sv d) = peer d" "up (seen sv d) = up d"
  "up_broken (seen sv d) = up_broken d" "down (seen sv d) = down d" "down_broken (seen sv d) = down_broken d"
  "issued (seen sv d) = issued d" "nsv (seen sv d) = sv" "(seen sv d)\<lparr>nsv := sv'\<rparr> = seen sv' d" "side.truncate (seen sv d) = d"
  by (simp_all add: seen_def side.defs net.defs)

lemma seen_truncate [simp]: "seen (nsv t) (side.truncate t) = t"
  by (simp add: seen_def side.defs net.defs)

lemma truncate_simps [simp]:
  "ncl (side.truncate t) = ncl t" "linked (side.truncate t) = linked t" "peer (side.truncate t) = peer t" "up (side.truncate t) = up t"
  "up_broken (side.truncate t) = up_broken t" "down (side.truncate t) = down t" "down_broken (side.truncate t) = down_broken t"
  "issued (side.truncate t) = issued t"
  by (simp_all add: side.defs)

lemma sv_step_mono:
  assumes "sv_step m io s s'" and "\<And>r. io r \<Longrightarrow> io' r"
  shows "sv_step m io' s s'"
  using assms by (induction rule: sv_step.induct) (auto intro: sv_step.intros)

lemma link_step_server:
  "link_step m s t \<Longrightarrow> nsv t = nsv s \<or> sv_step m (\<lambda>r. peer s = Some r) (nsv s) (nsv t)"
  by (induction rule: link_step.induct) (auto intro: sv_step.intros)

lemma link_step_peer:
  "link_step m s t \<Longrightarrow> peer t = peer s \<or> peer s = None \<and> peer t = Some (fresh (cycle (nsv s)))"
  by (induction rule: link_step.induct) auto

text \<open>Two clients never share a connection.\<close>

definition own_peers :: "side list \<Rightarrow> bool" where
  "own_peers ds \<longleftrightarrow> (\<forall>i < length ds. \<forall>j < length ds. \<forall>r. peer (ds ! i) = Some r \<longrightarrow> peer (ds ! j) = Some r \<longrightarrow> i = j)"

definition fleet_good :: "'a manager \<Rightarrow> 'a fleet \<Rightarrow> bool" where
  "fleet_good m F \<longleftrightarrow> own_peers (sides F) \<and> (\<forall>i < length (sides F). net_good m (view F i))"

lemma other_peer: "own_peers ds \<Longrightarrow> i < length ds \<Longrightarrow> j < length ds \<Longrightarrow> i \<noteq> j \<Longrightarrow> peer (ds ! j) = Some r \<Longrightarrow> peer (ds ! i) \<noteq> Some r"
  by (auto simp: own_peers_def)

lemma fleet_step_length: "fleet_step m F G \<Longrightarrow> length (sides G) = length (sides F)"
  by (induction rule: fleet_step.induct) auto

lemma fleet_run_length: "fleet_run m F G \<Longrightarrow> length (sides G) = length (sides F)"
  by (induction rule: rtranclp_induct) (auto simp: fleet_next_def fleet_step_length)

lemma fleet_step_seen:
  assumes "fleet_step m F G" and "own_peers (sides F)" and "i < length (sides F)"
  shows "view G i = view F i \<or> net_step m (view F i) (view G i)"
  using assms
proof (induction rule: fleet_step.induct)
  case (fl_link j F t)
  show ?case
  proof (cases "i = j")
    case True
    then show ?thesis using fl_link by (auto intro: on_link)
  next
    case False
    have "sv_step m (\<lambda>r. peer (view F i) \<noteq> Some r) (fsv F) (nsv t)" if "nsv t \<noteq> fsv F"
    proof -
      have "sv_step m (\<lambda>r. peer (sides F ! j) = Some r) (fsv F) (nsv t)" using link_step_server [OF fl_link.hyps(2)] that by simp
      then show ?thesis using other_peer [OF fl_link.prems fl_link.hyps(1) False] by (elim sv_step_mono) simp
    qed
    then show ?thesis using False n_server [of m "view F i" "nsv t"] by (cases "nsv t = fsv F") simp_all
  qed
next
  case (fl_server F sv)
  have "sv_step m (\<lambda>r. peer (view F i) \<noteq> Some r) (fsv F) sv"
    using fl_server.hyps by (rule sv_step_mono) (use nth_mem [OF fl_server.prems(2)] in force)
  then show ?case using n_server [of m "view F i" sv] by simp
qed

lemma fleet_next_seen:
  assumes "fleet_next m F G" and "own_peers (sides F)" and "i < length (sides F)"
  shows "view G i = view F i \<or> net_next m (view F i) (view G i)"
proof -
  have g: "fleet_step m F G" "list_all few_calls (sides G)" using assms(1) by (simp_all add: fleet_next_def)
  then have "few_calls (sides G ! i)" using assms(3) fleet_step_length by (metis list_all_length)
  then show ?thesis using fleet_step_seen [OF g(1) assms(2,3)] by (auto simp: net_next_def few_calls_def)
qed

lemma good_peer: "net_good m s \<Longrightarrow> peer s = Some r \<Longrightarrow> r < fresh (cycle (nsv s))"
  by (elim net_goodE) (auto simp: net_inv_with_def link_ok_def)

lemma own_peers_update:
  assumes "own_peers ds" and "\<And>i r. i < length ds \<Longrightarrow> i \<noteq> j \<Longrightarrow> peer d = Some r \<Longrightarrow> peer (ds ! i) \<noteq> Some r"
  shows "own_peers (ds[j := d])"
  unfolding own_peers_def
proof (intro allI impI)
  fix i k r
  assume "i < length (ds[j := d])" "k < length (ds[j := d])" "peer (ds[j := d] ! i) = Some r" "peer (ds[j := d] ! k) = Some r"
  then show "i = k"
    using assms(2) [of i r] assms(2) [of k r] other_peer [OF assms(1), of i k r]
    by (cases "i = j"; cases "k = j") (auto simp: nth_list_update)
qed

lemma own_peers_step:
  assumes "fleet_step m F G" and "fleet_good m F"
  shows "own_peers (sides G)"
  using assms
proof (induction rule: fleet_step.induct)
  case (fl_link j F t)
  then have o: "own_peers (sides F)" by (simp add: fleet_good_def)
  have f: "peer (sides F ! i) \<noteq> Some (fresh (cycle (fsv F)))" if "i < length (sides F)" for i
    using fl_link.prems that good_peer [of m "view F i"] by (auto simp: fleet_good_def)
  have "peer t = peer (sides F ! j) \<or> peer t = Some (fresh (cycle (fsv F)))"
    using link_step_peer [OF fl_link.hyps(2)] by auto
  then show ?case using f other_peer [OF o _ fl_link.hyps(1)] by (auto intro!: own_peers_update [OF o])
qed (simp add: fleet_good_def)

lemma fleet_good_step:
  assumes "fleet_next m F G" and "fleet_good m F"
  shows "fleet_good m G"
proof -
  have g: "own_peers (sides F)" "\<And>i. i < length (sides F) \<Longrightarrow> net_good m (view F i)" "fleet_step m F G"
    using assms by (auto simp: fleet_good_def fleet_next_def)
  have "net_good m (view G i)" if "i < length (sides G)" for i
  proof -
    have i: "i < length (sides F)" using that fleet_step_length [OF g(3)] by simp
    show ?thesis using fleet_next_seen [OF assms(1) g(1) i] g(2) [OF i] net_simulates(1) by metis
  qed
  then show ?thesis using own_peers_step [OF g(3) assms(2)] by (simp add: fleet_good_def)
qed

section \<open>The ledgers of all clients\<close>

text \<open>A step of one component of a list of independent systems.\<close>

definition one_of :: "('c \<Rightarrow> 'c \<Rightarrow> bool) \<Rightarrow> 'c list \<Rightarrow> 'c list \<Rightarrow> bool" where
  "one_of step xs ys \<longleftrightarrow> (\<exists>i < length xs. \<exists>y. step (xs ! i) y \<and> ys = xs[i := y])"

lemma one_of_cons: "one_of step xs ys \<Longrightarrow> one_of step (x # xs) (x # ys)"
  unfolding one_of_def by (metis Suc_less_eq length_Cons list_update_code(3) nth_Cons_Suc)

lemma one_of_head: "step x y \<Longrightarrow> one_of step (x # xs) (y # xs)"
  unfolding one_of_def by (rule exI [of _ 0]) auto

lemma one_of_run: "list_all2 (rtranclp step) xs ys \<Longrightarrow> rtranclp (one_of step) xs ys"
proof (induction rule: list_all2_induct)
  case (Cons x xs y ys)
  have "rtranclp (one_of step) (x # xs) (y # xs)"
    using Cons.hyps(1) by (induction rule: rtranclp_induct) (auto intro: rtranclp.rtrancl_into_rtrancl one_of_head)
  also have "rtranclp (one_of step) (y # xs) (y # ys)"
    using Cons.IH by (induction rule: rtranclp_induct) (auto intro: rtranclp.rtrancl_into_rtrancl one_of_cons)
  finally show ?case .
qed simp

definition fleet_ledgers :: "'a fleet \<Rightarrow> ledger list" where
  "fleet_ledgers F = map (\<lambda>d. net_ledger (seen (fsv F) d)) (sides F)"

definition fleet_init :: "'a manager \<Rightarrow> nat \<Rightarrow> nat \<Rightarrow> 'a fleet \<Rightarrow> bool" where
  "fleet_init m n hw F \<longleftrightarrow> services_keep m \<and> answers_fit m \<and> fleet_start n hw F"

lemma fleet_init_seen: "fleet_init m n hw F \<Longrightarrow> i < length (sides F) \<Longrightarrow> net_init m n hw (view F i)"
  by (simp add: fleet_init_def fleet_start_def net_init_def net_start_def list_all_length fresh_side_def)

lemma fleet_good_init:
  assumes "fleet_init m n hw F"
  shows "fleet_good m F"
proof -
  have "peer (sides F ! i) = None" if "i < length (sides F)" for i
    using fleet_init_seen [OF assms that] by (simp add: net_init_def net_start_def)
  then show ?thesis
    using fleet_init_seen [OF assms] led.init_invar [of m n hw] by (auto simp: fleet_good_def own_peers_def)
qed

lemma fleet_simulates:
  assumes "fleet_next m F G" and "fleet_good m F"
  shows "(one_of (ledger_step m))\<^sup>*\<^sup>* (fleet_ledgers F) (fleet_ledgers G)"
proof (rule one_of_run, rule list_all2_all_nthI)
  have len: "length (sides G) = length (sides F)" using assms(1) fleet_step_length by (auto simp: fleet_next_def)
  then show "length (fleet_ledgers F) = length (fleet_ledgers G)" by (simp add: fleet_ledgers_def)
  fix i
  assume "i < length (fleet_ledgers F)"
  then have i: "i < length (sides F)" by (simp add: fleet_ledgers_def)
  have g: "own_peers (sides F)" "net_good m (view F i)" using assms(2) i by (simp_all add: fleet_good_def)
  have "(ledger_step m)\<^sup>*\<^sup>* (net_ledger (view F i)) (net_ledger (view G i))"
    using fleet_next_seen [OF assms(1) g(1) i] net_simulates(2) [OF _ g(2)] by auto
  then show "(ledger_step m)\<^sup>*\<^sup>* (fleet_ledgers F ! i) (fleet_ledgers G ! i)" using i len by (simp add: fleet_ledgers_def)
qed

interpretation fled: simulation "fleet_init m n hw" "fleet_next m" "fleet_good m" "list_all ledger_init" "one_of (ledger_step m)" fleet_ledgers
  for m :: "'a manager" and n hw
proof unfold_locales
  show "list_all ledger_init (fleet_ledgers F)" if "fleet_init m n hw F" for F
    using fleet_init_seen [OF that] led.init_abs [of m n hw] by (auto simp: fleet_ledgers_def list_all_length)
qed (auto dest: fleet_good_init fleet_good_step fleet_simulates)


section \<open>Every client can be served\<close>

definition put :: "nat \<Rightarrow> 'a net \<Rightarrow> 'a fleet \<Rightarrow> 'a fleet" where
  "put i t F = F\<lparr>fsv := nsv t, sides := (sides F)[i := side.truncate t]\<rparr>"

lemma put_simps [simp]:
  "fsv (put i t F) = nsv t" "sides (put i t F) = (sides F)[i := side.truncate t]" "put i u (put i t F) = put i u F"
  "put i (view F i) F = F"
  by (simp_all add: put_def)

lemma fleet_good_few: "fleet_good m F \<Longrightarrow> list_all few_calls (sides F)"
  by (auto simp: fleet_good_def list_all_length few_calls_def elim!: net_goodE dest!: net_inv_withD(7))

lemma own_next_fleet:
  assumes "own_next m (view F i) t" and "i < length (sides F)" and "list_all few_calls (sides F)"
  shows "fleet_next m F (put i t F)"
proof -
  have o: "own_step m (view F i) t" "few_calls (side.truncate t)" using assms(1) by (simp_all add: own_next_def few_calls_def)
  from o(1) have "fleet_step m F (put i t F)"
  proof cases
    case own_link
    then show ?thesis unfolding put_def by (rule fl_link [OF assms(2)])
  next
    case (own_worker k sv)
    then have "fleet_step m F (F\<lparr>fsv := sv\<rparr>)" by (intro fl_server sv_step.sv_worker) simp
    then show ?thesis using own_worker(1) by (simp add: put_def)
  qed
  moreover have "list_all few_calls (sides (put i t F))"
    using o(2) assms(2,3) by (simp add: list_all_length nth_list_update)
  ultimately show ?thesis by (simp add: fleet_next_def)
qed

text \<open>The others do not suffer.\<close>

lemma foldl_close_cb_accept [simp]:
  "accept_pending (foldl close_cb mc es) = accept_pending mc \<and> mc_running (foldl close_cb mc es) = mc_running mc"
proof (induction es arbitrary: mc)
  case (Cons e es)
  then show ?case by (cases e) auto
qed simp

lemma server_alive_serve:
  assumes al: "server_alive q sv" and c: "store (cycle sv) r = Some c" and sv: "serve m r f sv = Some sv'" and "q \<noteq> Some r"
  shows "server_alive q sv'"
proof -
  obtain p where p: "thread_pool sv = Some p" "\<not> stopped p" using al by (auto simp: server_alive_def split: option.splits)
  let ?mc = "fst (run_handler r f (cycle sv))"
  note e = run_handler_effect [OF c, of f]
  have "accept_pending ?mc = accept_pending (cycle sv)" "mc_running ?mc = mc_running (cycle sv)"
    using c by (simp_all add: run_handler_def case_prod_beta)
  moreover obtain p' where "cycle sv' = ?mc" "thread_pool sv' = Some p'" "\<not> stopped p'"
    using deliver_alive [of "sv\<lparr>cycle := ?mc\<rparr>" p m r "snd (run_handler r f (cycle sv))"] p sv by (auto simp: serve_def case_prod_beta)
  ultimately show ?thesis using al e(1) assms(4) by (auto simp: server_alive_def split: option.splits)
qed

lemma server_alive_accept:
  assumes "server_alive q sv" and "q \<noteq> Some (fresh (cycle sv))"
  shows "server_alive q (sv\<lparr>cycle := accept_handler Success (cycle sv)\<rparr>)"
proof -
  have "accept_pending (accept_handler Success mc) = mc_running mc" "mc_running (accept_handler Success mc) = mc_running mc" for mc
    by (simp_all add: accept_handler_def cm_add_def do_accept_def Let_def)
  then show ?thesis using assms by (auto simp: server_alive_def accept_handler_store split: option.splits)
qed

lemma link_step_alive:
  assumes "link_step m s t" and "server_alive q (nsv s)" and "\<And>r. q = Some r \<Longrightarrow> peer s \<noteq> Some r \<and> r < fresh (cycle (nsv s))"
  shows "server_alive q (nsv t)"
  using assms
proof (induction rule: link_step.induct)
  case (l_accept s)
  then show ?case using server_alive_accept [of q "nsv s"] by force
qed (auto intro: server_alive_serve)

lemma own_step_alive:
  assumes "own_step m s t" and "services_keep m" and "net_good m s" and "server_alive q (nsv s)"
    and "\<And>r. q = Some r \<Longrightarrow> peer s \<noteq> Some r \<and> r < fresh (cycle (nsv s))"
  shows "server_alive q (nsv t)"
  using assms(1)
proof cases
  case own_link
  then show ?thesis using assms(4,5) by (rule link_step_alive)
next
  case (own_worker i sv)
  obtain p L fu fd where "net_inv_with m p L fu fd s" using assms(3) by (rule net_goodE)
  from net_inv_withD(2) [OF this] show ?thesis using own_worker server_alive_worker [OF assms(2) _ own_worker(2) assms(4)] by simp
qed

lemma own_run_fleet:
  assumes "own_run m s t" and "s = view F i" and i: "i < length (sides F)" and good: "fleet_good m F" and keep: "services_keep m"
  shows "fleet_run m F (put i t F) \<and> fleet_good m (put i t F) \<and>
    (\<forall>j < length (sides F). j \<noteq> i \<longrightarrow> alive (view F j) \<longrightarrow> alive (view (put i t F) j))"
  using assms(1)
proof (induction rule: rtranclp_induct)
  case base
  then show ?case using good assms(2) by simp
next
  case (step t u)
  let ?F = "put i t F"
  have g: "fleet_good m ?F" "view ?F i = t" using step.IH i by simp_all
  have n: "fleet_next m ?F (put i u F)" using own_next_fleet [of m ?F i u] step.hyps(2) g i fleet_good_few [OF g(1)] by simp
  have "alive (view (put i u F) j)" if j: "j < length (sides F)" "j \<noteq> i" "alive (view F j)" for j
  proof -
    have a: "alive (view ?F j)" using step.IH j by blast
    have p: "peer t \<noteq> Some r \<and> r < fresh (cycle (nsv t))" if "peer (sides F ! j) = Some r" for r
    proof -
      have "net_good m (view ?F j)" "own_peers (sides ?F)" using g(1) j(1) by (simp_all add: fleet_good_def)
      then show ?thesis using good_peer [of m "view ?F j" r] other_peer [of "sides ?F" i j r] i j that by simp
    qed
    have "net_good m t" using g i by (auto simp: fleet_good_def)
    moreover have "own_step m t u" using step.hyps(2) by (simp add: own_next_def)
    ultimately have "server_alive (peer (sides F ! j)) (nsv u)"
      using own_step_alive [OF _ keep _ _ p] a j(2) by (simp add: alive_def)
    then show ?thesis using a j(2) by (simp add: alive_def)
  qed
  then show ?case using step.IH n fleet_good_step [OF n g(1)] by (auto intro: rtranclp.rtrancl_into_rtrancl)
qed

text \<open>What is reached for one client: its calls are answered, or, when its connection is dead, it is left alone.\<close>

definition settled :: "'a manager \<Rightarrow> 'a fleet \<Rightarrow> 'a fleet \<Rightarrow> nat \<Rightarrow> bool" where
  "settled m G H i \<longleftrightarrow> (if alive (view G i) then genuine m (view G i) (view H i) \<and> all_answered (view H i) else sides H ! i = sides G ! i)"

lemma settled_cong: "sides H' ! i = sides H ! i \<Longrightarrow> settled m G H' i = settled m G H i"
  by (simp add: settled_def genuine_def all_answered_def)

lemma fleet_completes:
  assumes ok: "services_ok m" and fit: "answers_fit m" and good: "fleet_good m G"
  shows "k \<le> length (sides G) \<Longrightarrow> \<exists>H. fleet_run m G H \<and> fleet_good m H \<and> (\<forall>i < k. settled m G H i) \<and>
    (\<forall>i < length (sides G). (alive (view G i) \<longrightarrow> alive (view H i)) \<and> (k \<le> i \<longrightarrow> sides H ! i = sides G ! i))"
proof (induction k)
  case 0
  then show ?case using good by auto
next
  case (Suc k)
  then obtain H where H: "fleet_run m G H" "fleet_good m H" "\<And>i. i < k \<Longrightarrow> settled m G H i"
      "\<And>i. i < length (sides G) \<Longrightarrow> alive (view G i) \<Longrightarrow> alive (view H i)"
      "\<And>i. i < length (sides G) \<Longrightarrow> k \<le> i \<Longrightarrow> sides H ! i = sides G ! i" by auto
  have k: "k < length (sides G)" "length (sides H) = length (sides G)" using Suc.prems fleet_run_length [OF H(1)] by simp_all
  show ?case
  proof (cases "alive (view G k)")
    case True
    have "net_inv m (view H k)" using H(2) k by (simp add: fleet_good_def net_good_def)
    then obtain u where u: "own_run m (view H k) u" "alive u" "genuine m (view H k) u" "all_answered u"
      using net_completes [OF ok fit _ H(4) [OF k(1) True]] by blast
    let ?H = "put k u H"
    have r: "fleet_run m H ?H" "fleet_good m ?H" "\<And>j. j < length (sides H) \<Longrightarrow> j \<noteq> k \<Longrightarrow> alive (view H j) \<Longrightarrow> alive (view ?H j)"
      using own_run_fleet [OF u(1) refl _ H(2) services_ok_keep [OF ok]] k by auto
    have "genuine m (view G k) u" using u(3) H(5) [OF k(1)] by (simp add: genuine_def)
    then have "settled m G ?H i" if "i < Suc k" for i
      using that H(3) [of i] settled_cong [of ?H i H m G] u(4) k True by (cases "i = k") (simp_all add: settled_def)
    moreover have "alive (view ?H i)" if "i < length (sides G)" "alive (view G i)" for i
      using that H(4) r(3) [of i] u(2) k by (cases "i = k") simp_all
    ultimately show ?thesis using rtranclp_trans [OF H(1) r(1)] r(2) H(5) by (intro exI [of _ ?H]) auto
  next
    case False
    then have "settled m G H i" if "i < Suc k" for i
      using that H(3) [of i] H(5) [OF k(1)] by (cases "i = k") (simp_all add: settled_def)
    then show ?thesis using H by (intro exI [of _ H]) auto
  qed
qed


section \<open>What the callers of all clients may rely on\<close>

text \<open>
  C1: any number of clients and their server together refine a ledger of calls per client, and the ledgers are independent of each other.
  Whatever the threads of the clients do, whatever order operations complete in, whichever reads and writes fail, and whatever else the
  server is busy with, what happens to the calls of each client is a run of its own abstract ledger: each is run at most once, and ends at most
  once, with an answer its request can be given after it was run or with the error response for a lost connection. No client
  has made more than \<open>2 ^ 32\<close> calls.
\<close>

theorem clients_refine_ledgers:
  assumes "services_keep m" and "answers_fit m" and "fleet_start n hw F" and "fleet_run m F G"
  shows "list_all ledger_init (fleet_ledgers F) \<and> (one_of (ledger_step m))\<^sup>*\<^sup>* (fleet_ledgers F) (fleet_ledgers G)"
  using fled.reach_abs [of m n hw F G] assms by (simp add: fleet_init_def)

text \<open>A server with two clients, of which the first pings.\<close>

definition two_clients :: "unit fleet" where
  "two_clients = \<lparr>fsv = srv0, sides = [fresh_side, fresh_side]\<rparr>"

lemma seen_fresh: "seen srv0 fresh_side = net0"
  by (simp add: seen_def side.defs net.defs fresh_side_def net0_def)

lemma two_clients_views: "view two_clients 0 = net0" "length (sides two_clients) = 2" "sides two_clients ! 1 = fresh_side"
  by (simp_all add: two_clients_def seen_fresh)

lemma two_clients_start: "fleet_start 1 0 two_clients"
  using net0_start by (simp add: fleet_start_def two_clients_def net0_def net_start_def)

lemma two_clients_good: "fleet_good net_mgr two_clients"
  using fleet_good_init [of net_mgr 1 0 two_clients] net_mgr_ok two_clients_start by (simp add: fleet_init_def)

lemma first_runs: "own_run net_mgr net0 t \<Longrightarrow> fleet_run net_mgr two_clients (put 0 t two_clients)"
  using own_run_fleet [of net_mgr net0 t two_clients 0] two_clients_views two_clients_good net_mgr_ok by simp

theorem clients_refine_ledgers_witness:
  "\<exists>l l'. (one_of (ledger_step net_mgr))\<^sup>*\<^sup>* (fleet_ledgers two_clients) [l, l'] \<and> l_calls l = [ping_request] \<and>
     l_results l = [0 \<mapsto> pong_response] \<and> l_calls l' = [] \<and> l_results l' = Map.empty"
proof -
  obtain t where t: "own_run net_mgr net0 t" "issued t = [ping_request]" "resolved (client (ncl t)) = [(0, pong_response)]"
    using net_answered by blast
  let ?G = "put 0 t two_clients"
  have l: "fleet_ledgers ?G = [net_ledger t, net_ledger (seen (nsv t) (fresh_side))]"
    by (simp add: fleet_ledgers_def two_clients_def)
  show ?thesis
    using clients_refine_ledgers [OF net_mgr_ok two_clients_start first_runs [OF t(1)]] t(2,3) unfolding l
    by (intro exI [of _ "net_ledger t"] exI [of _ "net_ledger (seen (nsv t) (fresh_side))"]) (simp add: net_ledger_def fresh_side_def client_init_def new_client_def)
qed

text \<open>
  C2: end to end, for every client of the server. Every promise a client fulfils belongs to one of its own calls, and it is fulfilled once; its value is
  the error response for a lost connection, or a response the server's \<^verbatim>\<open>process_request\<close> gives to exactly this call's
  request, and then the pool has executed that request for this client. No request of a call is executed twice.
\<close>

theorem every_client_answered_end_to_end:
  assumes "services_keep m" and "answers_fit m" and "fleet_start n hw F" and "fleet_run m F G" and "i < length (sides F)"
  defines "t \<equiv> view G i"
  shows "distinct (run_seqs t) \<and> distinct (map fst (resolved (client (ncl t)))) \<and>
    list_all (\<lambda>(k, resp). k < length (issued t) \<and>
        (seq_of k \<in> set (run_seqs t) \<and> can_answer m k (issued t ! k) resp \<or> (\<exists>e. resp = closed_response e)))
      (resolved (client (ncl t)))"
proof -
  have "fleet_good m G" using fled.reach_invar [of m n hw F G] assms(1-4) by (simp add: fleet_init_def)
  then have "net_good m t" using assms(5) fleet_run_length [OF assms(4)] by (simp add: fleet_good_def t_def)
  then show ?thesis by (rule net_good_answered)
qed

theorem every_client_answered_end_to_end_witness:
  "\<exists>G. fleet_run net_mgr two_clients G \<and> resolved (client (ncl (view G 0))) = [(0, pong_response)] \<and> seq_of 0 \<in> set (run_seqs (view G 0))"
proof -
  obtain t where t: "own_run net_mgr net0 t" "resolved (client (ncl t)) = [(0, pong_response)]" using net_answered by blast
  have g: "view (put 0 t two_clients) 0 = t" using two_clients_views(2) by simp
  have "pong_response \<noteq> closed_response e" for e
    by (simp add: pong_response_def closed_response_def error_response_def empty_response_def)
  then have "seq_of 0 \<in> set (run_seqs t)"
    using every_client_answered_end_to_end [OF net_mgr_ok two_clients_start first_runs [OF t(1)], of 0] two_clients_views(2) t(2)
    unfolding g by auto
  then show ?thesis using first_runs [OF t(1)] t(2) g by (intro exI [of _ "put 0 t two_clients"]) (simp only: g simp_thms)
qed




end
