(* ===== verification/Load_Config.thy ===== *)
theory Load_Config
  imports Std_Containers
begin

text \<open>
  \<^verbatim>\<open>src/load_config/load_config.h\<close> and \<^verbatim>\<open>.cpp\<close>: the configuration of the server. The JSON library is not part of
  the program: its parser is a parameter, and \<open>json\<close> is its value type, with the documented behaviour of the members
  the code uses (\<^verbatim>\<open>contains\<close>, \<^verbatim>\<open>operator[]\<close> and \<^verbatim>\<open>value\<close>). A floating-point number is kept by what a cast to an integer
  makes of it, its value truncated towards zero, since nothing else of it is used. The file system is a function from paths to
  contents.
\<close>

section \<open>JSON values\<close>

datatype json = JNull | JBool bool | JInt int | JFloat int | JString string | JArray "json list"
  | JObject "(string \<times> json) list"

definition contains :: "json \<Rightarrow> string \<Rightarrow> bool" where
  "contains j key = (case j of JObject kvs \<Rightarrow> map_of kvs key \<noteq> None | _ \<Rightarrow> False)"

definition json_at :: "json \<Rightarrow> string \<Rightarrow> json" where
  "json_at j key = (case j of JObject kvs \<Rightarrow> (case map_of kvs key of Some v \<Rightarrow> v | None \<Rightarrow> JNull) | _ \<Rightarrow> JNull)"

abbreviation type_error :: exn where
  "type_error \<equiv> StdException ''type_error''"

text \<open>
  Conversions: a string and a boolean must have that type; any number and also a boolean converts to an integer type, by a
  cast, which keeps the low bits of an integer and is undefined for a floating-point number out of range.
\<close>

fun to_str :: "json \<Rightarrow> string res" where
  "to_str (JString s) = Ret s"
| "to_str _ = Throw type_error"

fun to_bool :: "json \<Rightarrow> bool res" where
  "to_bool (JBool b) = Ret b"
| "to_bool _ = Throw type_error"

fun to_u16 :: "json \<Rightarrow> u16 res" where
  "to_u16 (JInt n) = Ret (word_of_int n)"
| "to_u16 (JBool b) = Ret (if b then 1 else 0)"
| "to_u16 (JFloat n) = (if 0 \<le> n \<and> n < 65536 then Ret (word_of_int n) else UB)"
| "to_u16 _ = Throw type_error"

fun to_i32 :: "json \<Rightarrow> i32 res" where
  "to_i32 (JInt n) = Ret (word_of_int n)"
| "to_i32 (JBool b) = Ret (if b then 1 else 0)"
| "to_i32 (JFloat n) = (if - (2 ^ 31) \<le> n \<and> n < 2 ^ 31 then Ret (word_of_int n) else UB)"
| "to_i32 _ = Throw type_error"

text \<open>\<^verbatim>\<open>j.value(key, def)\<close>.\<close>

definition json_value :: "(json \<Rightarrow> 'a res) \<Rightarrow> json \<Rightarrow> string \<Rightarrow> 'a \<Rightarrow> 'a res" where
  "json_value conv j key def =
     (case j of
        JObject kvs \<Rightarrow> (case map_of kvs key of Some v \<Rightarrow> conv v | None \<Rightarrow> Ret def)
      | _ \<Rightarrow> Throw type_error)"

section \<open>Configurations\<close>

record ServerConfig =
  srv_host :: string
  srv_port :: u16
  thread_pool_size :: i32
  max_connections :: i32
  socket_timeout_ms :: i32

record ZkConfig =
  zk_host :: string
  zk_port :: u16
  session_timeout_ms :: i32
  root_path :: string
  zk_services_path :: string

record LogConfig =
  log_dir :: string
  log_file :: string
  log_level :: string
  max_file_size_mb :: i32
  max_files :: i32

record SerializerConfig =
  ser_type :: string

record CompressConfig =
  comp_enable :: bool
  threshold :: i32
  comp_level :: i32

record EncryptConfig =
  enc_enable :: bool
  public_key_path :: string
  private_key_path :: string

record BalancerConfig =
  bal_strategy :: string

record Config =
  cfg_server :: ServerConfig
  cfg_zk :: ZkConfig
  cfg_log :: LogConfig
  cfg_serializer :: SerializerConfig
  cfg_compress :: CompressConfig
  cfg_encrypt :: EncryptConfig
  cfg_balancer :: BalancerConfig

definition server0 :: ServerConfig where
  "server0 = \<lparr>srv_host = ''0.0.0.0'', srv_port = 8080, thread_pool_size = 8, max_connections = 10000,
     socket_timeout_ms = 5000\<rparr>"

definition zk0 :: ZkConfig where
  "zk0 = \<lparr>zk_host = ''127.0.0.1'', zk_port = 2181, session_timeout_ms = 4000, root_path = ''/rpc'',
     zk_services_path = ''/rpc/services''\<rparr>"

definition log0 :: LogConfig where
  "log0 = \<lparr>log_dir = ''logs'', log_file = ''rpc.log'', log_level = ''info'', max_file_size_mb = 10, max_files = 5\<rparr>"

definition serializer0 :: SerializerConfig where
  "serializer0 = \<lparr>ser_type = ''protobuf''\<rparr>"

definition compress0 :: CompressConfig where
  "compress0 = \<lparr>comp_enable = True, threshold = 256, comp_level = 3\<rparr>"

definition encrypt0 :: EncryptConfig where
  "encrypt0 = \<lparr>enc_enable = False, public_key_path = [], private_key_path = []\<rparr>"

definition balancer0 :: BalancerConfig where
  "balancer0 = \<lparr>bal_strategy = ''round_robin''\<rparr>"

definition config0 :: Config where
  "config0 = \<lparr>cfg_server = server0, cfg_zk = zk0, cfg_log = log0, cfg_serializer = serializer0,
     cfg_compress = compress0, cfg_encrypt = encrypt0, cfg_balancer = balancer0\<rparr>"

section \<open>Parsing\<close>

definition parse_server :: "json \<Rightarrow> ServerConfig res" where
  "parse_server j =
     bindR (json_value to_str j ''host'' (srv_host server0)) (\<lambda>h.
     bindR (json_value to_u16 j ''port'' (srv_port server0)) (\<lambda>p.
     bindR (json_value to_i32 j ''thread_pool_size'' (thread_pool_size server0)) (\<lambda>t.
     bindR (json_value to_i32 j ''max_connections'' (max_connections server0)) (\<lambda>m.
     bindR (json_value to_i32 j ''socket_timeout_ms'' (socket_timeout_ms server0)) (\<lambda>s.
     Ret \<lparr>srv_host = h, srv_port = p, thread_pool_size = t, max_connections = m, socket_timeout_ms = s\<rparr>)))))"

definition parse_zk :: "json \<Rightarrow> ZkConfig res" where
  "parse_zk j =
     bindR (json_value to_str j ''host'' (zk_host zk0)) (\<lambda>h.
     bindR (json_value to_u16 j ''port'' (zk_port zk0)) (\<lambda>p.
     bindR (json_value to_i32 j ''session_timeout_ms'' (session_timeout_ms zk0)) (\<lambda>t.
     bindR (json_value to_str j ''root_path'' (root_path zk0)) (\<lambda>r.
     bindR (json_value to_str j ''services_path'' (zk_services_path zk0)) (\<lambda>s.
     Ret \<lparr>zk_host = h, zk_port = p, session_timeout_ms = t, root_path = r, zk_services_path = s\<rparr>)))))"

definition parse_log :: "json \<Rightarrow> LogConfig res" where
  "parse_log j =
     bindR (json_value to_str j ''dir'' (log_dir log0)) (\<lambda>d.
     bindR (json_value to_str j ''file'' (log_file log0)) (\<lambda>f.
     bindR (json_value to_str j ''level'' (log_level log0)) (\<lambda>l.
     bindR (json_value to_i32 j ''max_file_size_mb'' (max_file_size_mb log0)) (\<lambda>m.
     bindR (json_value to_i32 j ''max_files'' (max_files log0)) (\<lambda>n.
     Ret \<lparr>log_dir = d, log_file = f, log_level = l, max_file_size_mb = m, max_files = n\<rparr>)))))"

definition parse_serializer :: "json \<Rightarrow> SerializerConfig res" where
  "parse_serializer j = bindR (json_value to_str j ''type'' (ser_type serializer0)) (\<lambda>t. Ret \<lparr>ser_type = t\<rparr>)"

definition parse_compress :: "json \<Rightarrow> CompressConfig res" where
  "parse_compress j =
     bindR (json_value to_bool j ''enable'' (comp_enable compress0)) (\<lambda>e.
     bindR (json_value to_i32 j ''threshold'' (threshold compress0)) (\<lambda>t.
     bindR (json_value to_i32 j ''level'' (comp_level compress0)) (\<lambda>l.
     Ret \<lparr>comp_enable = e, threshold = t, comp_level = l\<rparr>)))"

definition parse_encrypt :: "json \<Rightarrow> EncryptConfig res" where
  "parse_encrypt j =
     bindR (json_value to_bool j ''enable'' (enc_enable encrypt0)) (\<lambda>e.
     bindR (json_value to_str j ''public_key_path'' (public_key_path encrypt0)) (\<lambda>p.
     bindR (json_value to_str j ''private_key_path'' (private_key_path encrypt0)) (\<lambda>q.
     Ret \<lparr>enc_enable = e, public_key_path = p, private_key_path = q\<rparr>)))"

definition parse_balancer :: "json \<Rightarrow> BalancerConfig res" where
  "parse_balancer j =
     bindR (json_value to_str j ''strategy'' (bal_strategy balancer0)) (\<lambda>s. Ret \<lparr>bal_strategy = s\<rparr>)"

text \<open>One \<^verbatim>\<open>if (j.contains(...))\<close> of \<^verbatim>\<open>load_config\<close>.\<close>

definition section_of :: "(json \<Rightarrow> 'a res) \<Rightarrow> json \<Rightarrow> string \<Rightarrow> 'a \<Rightarrow> 'a res" where
  "section_of parse j key def = (if contains j key then parse (json_at j key) else Ret def)"

definition config_of :: "json \<Rightarrow> Config res" where
  "config_of j =
     bindR (section_of parse_server j ''server'' (cfg_server config0)) (\<lambda>s.
     bindR (section_of parse_zk j ''zk'' (cfg_zk config0)) (\<lambda>z.
     bindR (section_of parse_log j ''log'' (cfg_log config0)) (\<lambda>l.
     bindR (section_of parse_serializer j ''serializer'' (cfg_serializer config0)) (\<lambda>r.
     bindR (section_of parse_compress j ''compress'' (cfg_compress config0)) (\<lambda>c.
     bindR (section_of parse_encrypt j ''encrypt'' (cfg_encrypt config0)) (\<lambda>e.
     bindR (section_of parse_balancer j ''balancer'' (cfg_balancer config0)) (\<lambda>b.
     Ret \<lparr>cfg_server = s, cfg_zk = z, cfg_log = l, cfg_serializer = r, cfg_compress = c, cfg_encrypt = e,
          cfg_balancer = b\<rparr>)))))))"

text \<open>\<open>parse\<close> is \<^verbatim>\<open>json::parse\<close>, \<^const>\<open>None\<close> its \<^verbatim>\<open>parse_error\<close>, the only exception that is caught.\<close>

definition load_config :: "(string \<Rightarrow> json option) \<Rightarrow> (string \<Rightarrow> string option) \<Rightarrow> string \<Rightarrow> Config res" where
  "load_config parse fs filepath =
     (case fs filepath of
        None \<Rightarrow> Ret config0
      | Some text' \<Rightarrow> (case parse text' of None \<Rightarrow> Ret config0 | Some j \<Rightarrow> config_of j))"

section \<open>Writing a configuration down\<close>

definition json_of_config :: "Config \<Rightarrow> json" where
  "json_of_config c = JObject [
     (''server'', JObject [(''host'', JString (srv_host (cfg_server c))), (''port'', JInt (uint (srv_port (cfg_server c)))),
        (''thread_pool_size'', JInt (sint (thread_pool_size (cfg_server c)))),
        (''max_connections'', JInt (sint (max_connections (cfg_server c)))),
        (''socket_timeout_ms'', JInt (sint (socket_timeout_ms (cfg_server c))))]),
     (''zk'', JObject [(''host'', JString (zk_host (cfg_zk c))), (''port'', JInt (uint (zk_port (cfg_zk c)))),
        (''session_timeout_ms'', JInt (sint (session_timeout_ms (cfg_zk c)))),
        (''root_path'', JString (root_path (cfg_zk c))), (''services_path'', JString (zk_services_path (cfg_zk c)))]),
     (''log'', JObject [(''dir'', JString (log_dir (cfg_log c))), (''file'', JString (log_file (cfg_log c))),
        (''level'', JString (log_level (cfg_log c))), (''max_file_size_mb'', JInt (sint (max_file_size_mb (cfg_log c)))),
        (''max_files'', JInt (sint (max_files (cfg_log c))))]),
     (''serializer'', JObject [(''type'', JString (ser_type (cfg_serializer c)))]),
     (''compress'', JObject [(''enable'', JBool (comp_enable (cfg_compress c))),
        (''threshold'', JInt (sint (threshold (cfg_compress c)))), (''level'', JInt (sint (comp_level (cfg_compress c))))]),
     (''encrypt'', JObject [(''enable'', JBool (enc_enable (cfg_encrypt c))),
        (''public_key_path'', JString (public_key_path (cfg_encrypt c))),
        (''private_key_path'', JString (private_key_path (cfg_encrypt c)))]),
     (''balancer'', JObject [(''strategy'', JString (bal_strategy (cfg_balancer c)))])]"

lemmas parse_defs = parse_server_def parse_zk_def parse_log_def parse_serializer_def parse_compress_def
  parse_encrypt_def parse_balancer_def json_value_def

lemma config_of_json_of: "config_of (json_of_config c) = Ret c"
  by (simp add: config_of_def section_of_def contains_def json_at_def json_of_config_def parse_defs)

section \<open>Properties\<close>



text \<open>
  A well-formed file with a value of the wrong type is not replaced by defaults: the loader throws an exception
  that nothing in the program catches. A port that does not fit 16 bits is silently reduced modulo 65536.
\<close>

theorem config_type_errors_escape:
  "load_config (\<lambda>t. Some (JObject [(''server'', JObject [(''port'', JString ''8080'')])])) (\<lambda>f. Some t) f = Throw type_error \<and>
   load_config (\<lambda>t. Some (JObject [(''server'', JInt 1)])) (\<lambda>f. Some t) f = Throw type_error \<and>
   (\<exists>c. load_config (\<lambda>t. Some (JObject [(''server'', JObject [(''port'', JInt n)])])) (\<lambda>f. Some t) f = Ret c \<and>
      uint (srv_port (cfg_server c)) = n mod 65536)"
  by (simp add: load_config_def config_of_def section_of_def contains_def json_at_def parse_defs server0_def
      config0_def uint_word_of_int)

end
