(* ===== verification/Log_Init.thy ===== *)
theory Log_Init
  imports Std_Containers
begin

text \<open>
  \<^verbatim>\<open>src/load_config/log_init.h\<close> and \<^verbatim>\<open>.cpp\<close>: the process-wide logger. The file system and \<^verbatim>\<open>spdlog\<close> are parameters: whether a
  directory can be made and a log file opened, the names registered so far, and the levels, which are only compared. A message is written by a sink when
  both the logger's and the sink's level admit it. \<^verbatim>\<open>std::call_once\<close> uses its flag up only when the function returns.
\<close>

section \<open>Model\<close>

record 'l log_env =
  make_dirs :: "string \<Rightarrow> bool"
  open_log :: "string \<Rightarrow> bool"
  lvl_info :: 'l
  lvl_err :: 'l

record 'l Logger =
  lg_level :: 'l
  console_level :: 'l
  file_level :: 'l
  file_path :: string
  file_max_size :: nat
  file_max_files :: nat
  flush_level :: 'l

record 'l log_state =
  g_logger :: "'l Logger option"
  g_init_flag :: bool
  registry :: "string list"

definition log_state0 :: "'l log_state" where
  "log_state0 = \<lparr>g_logger = None, g_init_flag = False, registry = []\<rparr>"

definition make_logger :: "'l log_env \<Rightarrow> string \<Rightarrow> string \<Rightarrow> 'l \<Rightarrow> 'l Logger" where
  "make_logger env dir file level =
     \<lparr>lg_level = level, console_level = level, file_level = level, file_path = dir @ ''/'' @ file,
      file_max_size = 1024 * 1024 * 10, file_max_files = 5, flush_level = lvl_err env\<rparr>"

definition init_logger ::
    "'l log_env \<Rightarrow> string \<Rightarrow> string \<Rightarrow> 'l \<Rightarrow> 'l log_state \<Rightarrow> unit res \<times> 'l log_state" where
  "init_logger env dir file level st =
     (if g_init_flag st then (Ret (), st)
      else if \<not> make_dirs env dir then (Throw (RuntimeError ''create_directories''), st)
      else if \<not> open_log env (dir @ ''/'' @ file) then (Throw (StdException ''rotating_file_sink''), st)
      else
        let st = st\<lparr>g_logger := Some (make_logger env dir file level)\<rparr> in
        if ''rpc'' \<in> set (registry st) then (Throw (StdException ''register_logger''), st)
        else (Ret (), st\<lparr>registry := ''rpc'' # registry st, g_init_flag := True\<rparr>))"

definition get_logger :: "'l log_env \<Rightarrow> 'l log_state \<Rightarrow> 'l Logger option res \<times> 'l log_state" where
  "get_logger env st =
     (if g_logger st = None then
        let (r, st) = init_logger env ''logs'' ''rpc.log'' (lvl_info env) st
        in (bindR r (\<lambda>_. Ret (g_logger st)), st)
      else (Ret (g_logger st), st))"

text \<open>Calling a member of the logger through an empty pointer is undefined.\<close>

definition set_log_level :: "'l log_env \<Rightarrow> 'l \<Rightarrow> 'l log_state \<Rightarrow> unit res \<times> 'l log_state" where
  "set_log_level env level st =
     (case get_logger env st of
        (Ret (Some l), st) \<Rightarrow> (Ret (), st\<lparr>g_logger := Some (l\<lparr>lg_level := level\<rparr>)\<rparr>)
      | (Ret None, st) \<Rightarrow> (UB, st)
      | (Throw e, st) \<Rightarrow> (Throw e, st)
      | (UB, st) \<Rightarrow> (UB, st))"

text \<open>
  The macros: \<^verbatim>\<open>RPC_INFO(...)\<close> and the others log at level \<open>m\<close>; the result says whether the console and the file got the
  message. The macros \<^verbatim>\<open>RPC_LOG_TRACE_ENABLED\<close> and \<^verbatim>\<open>RPC_LOG_DEBUG_ENABLED\<close> ask the logger only.
\<close>

definition rpc_log :: "'l::linorder log_env \<Rightarrow> 'l \<Rightarrow> 'l log_state \<Rightarrow> (bool \<times> bool) res \<times> 'l log_state" where
  "rpc_log env m st =
     (case get_logger env st of
        (Ret (Some l), st) \<Rightarrow>
          (Ret (lg_level l \<le> m \<and> console_level l \<le> m, lg_level l \<le> m \<and> file_level l \<le> m), st)
      | (Ret None, st) \<Rightarrow> (UB, st)
      | (Throw e, st) \<Rightarrow> (Throw e, st)
      | (UB, st) \<Rightarrow> (UB, st))"

definition log_enabled :: "'l::linorder log_env \<Rightarrow> 'l \<Rightarrow> 'l log_state \<Rightarrow> bool res \<times> 'l log_state" where
  "log_enabled env m st =
     (case get_logger env st of
        (Ret (Some l), st) \<Rightarrow> (Ret (lg_level l \<le> m), st)
      | (Ret None, st) \<Rightarrow> (UB, st)
      | (Throw e, st) \<Rightarrow> (Throw e, st)
      | (UB, st) \<Rightarrow> (UB, st))"

section \<open>Histories\<close>

datatype 'l log_op = Init string string 'l | SetLevel 'l | Log 'l

fun log_run :: "'l::linorder log_env \<Rightarrow> 'l log_op list \<Rightarrow> 'l log_state \<Rightarrow> 'l log_state" where
  "log_run env [] st = st"
| "log_run env (Init d f l # ops) st = log_run env ops (snd (init_logger env d f l st))"
| "log_run env (SetLevel l # ops) st = log_run env ops (snd (set_log_level env l st))"
| "log_run env (Log m # ops) st = log_run env ops (snd (rpc_log env m st))"

fun last_level :: "'l \<Rightarrow> 'l log_op list \<Rightarrow> 'l" where
  "last_level l [] = l"
| "last_level l (SetLevel l' # ops) = last_level l' ops"
| "last_level l (op # ops) = last_level l ops"

text \<open>The logger once it exists: only its own level ever changes.\<close>

lemma log_run_initialised:
  assumes "g_logger st = Some l" and "g_init_flag st"
  shows "g_init_flag (log_run env ops st) \<and>
    g_logger (log_run env ops st) = Some (l\<lparr>lg_level := last_level (lg_level l) ops\<rparr>)"
  using assms
proof (induction ops arbitrary: st l)
  case (Cons op ops)
  then show ?case
  proof (cases op)
    case (SetLevel v)
    have "set_log_level env v st = (Ret (), st\<lparr>g_logger := Some (l\<lparr>lg_level := v\<rparr>)\<rparr>)"
      using Cons.prems by (simp add: set_log_level_def get_logger_def)
    then show ?thesis
      using Cons.IH [of "st\<lparr>g_logger := Some (l\<lparr>lg_level := v\<rparr>)\<rparr>" "l\<lparr>lg_level := v\<rparr>"] Cons.prems SetLevel by simp
  qed (auto simp: init_logger_def rpc_log_def get_logger_def)
qed simp

text \<open>No call dereferences an empty logger: when \<^verbatim>\<open>g_logger\<close> is missing, the call makes one or throws.\<close>

lemma get_logger_some:
  assumes "g_init_flag st \<Longrightarrow> g_logger st \<noteq> None"
  shows "fst (get_logger env st) \<noteq> Ret None \<and> fst (get_logger env st) \<noteq> UB \<and>
    (g_init_flag (snd (get_logger env st)) \<longrightarrow> g_logger (snd (get_logger env st)) \<noteq> None)"
  using assms by (auto simp: get_logger_def init_logger_def Let_def)

lemma log_run_flag:
  assumes "g_init_flag st \<Longrightarrow> g_logger st \<noteq> None"
  shows "g_init_flag (log_run env ops st) \<Longrightarrow> g_logger (log_run env ops st) \<noteq> None"
  using assms
proof (induction env ops st rule: log_run.induct)
  case (2 env d f l ops st)
  then show ?case by (auto simp: init_logger_def Let_def split: if_splits)
next
  case (3 env l ops st)
  then show ?case using get_logger_some [of st env]
    by (auto simp: set_log_level_def split: prod.splits res.splits option.splits)
next
  case (4 env m ops st)
  then show ?case using get_logger_some [of st env]
    by (auto simp: rpc_log_def split: prod.splits res.splits option.splits)
qed simp

section \<open>Properties\<close>

text \<open>
  C40: whatever initialisations, level changes and messages follow the first initialisation, the log file and the sinks stay those of the
  first one, and a message is written exactly when its level reaches both the level of that initialisation and the level set last: lowering the level at run time below the initial
  one has no effect, although the macros report the level as enabled.
\<close>

theorem logger_effective_level:
  assumes "make_dirs env dir" and "open_log env (dir @ ''/'' @ file)"
  shows "let st = log_run env (Init dir file l0 # ops) log_state0; l = last_level l0 ops in
    map_option file_path (g_logger st) = Some (dir @ ''/'' @ file) \<and>
    fst (rpc_log env m st) = Ret (max l0 l \<le> m, max l0 l \<le> m) \<and> fst (log_enabled env m st) = Ret (l \<le> m)"
proof -
  let ?l = "make_logger env dir file l0" and ?st = "log_run env (Init dir file l0 # ops) log_state0"
  have i: "g_logger (snd (init_logger env dir file l0 log_state0)) = Some ?l"
    "g_init_flag (snd (init_logger env dir file l0 log_state0))"
    using assms(1,2) by (simp_all add: init_logger_def log_state0_def Let_def)
  have lv: "lg_level ?l = l0" by (simp add: make_logger_def)
  have g: "g_logger ?st = Some (?l\<lparr>lg_level := last_level l0 ops\<rparr>)"
    using log_run_initialised [OF i, of env ops] by (simp add: lv)
  have "map_option file_path (g_logger ?st) = Some (dir @ ''/'' @ file)"
    by (simp add: g make_logger_def del: log_run.simps)
  moreover have "fst (rpc_log env m ?st) = Ret (max l0 (last_level l0 ops) \<le> m, max l0 (last_level l0 ops) \<le> m)"
    by (auto simp: rpc_log_def get_logger_def g make_logger_def simp del: log_run.simps)
  moreover have "fst (log_enabled env m ?st) = Ret (last_level l0 ops \<le> m)"
    by (simp add: log_enabled_def get_logger_def g make_logger_def del: log_run.simps)
  ultimately show ?thesis by (simp add: Let_def del: log_run.simps)
qed

definition demo_log_env :: "nat log_env" where
  "demo_log_env = \<lparr>make_dirs = (\<lambda>d. True), open_log = (\<lambda>p. True), lvl_info = 2, lvl_err = 4\<rparr>"

theorem logger_effective_level_witness:
  "let st = log_run demo_log_env [Init ''logs'' ''rpc.log'' 2, SetLevel 1, Init ''other'' ''x.log'' 0] log_state0
   in map_option file_path (g_logger st) = Some ''logs/rpc.log'' \<and>
      fst (rpc_log demo_log_env 1 st) = Ret (False, False) \<and> fst (log_enabled demo_log_env 1 st) = Ret True"
proof -
  have e: "make_dirs demo_log_env ''logs''" "open_log demo_log_env (''logs'' @ ''/'' @ ''rpc.log'')"
    by (simp_all add: demo_log_env_def)
  note t = logger_effective_level [OF e, of 2 "[SetLevel 1, Init ''other'' ''x.log'' 0]"]
  show ?thesis using t [of 1] unfolding Let_def by simp
qed

text \<open>
  No sequence of calls on a fresh process reaches the logger through an empty pointer: every message is
  logged or filtered, or the call throws.
\<close>

theorem logger_never_null: "fst (rpc_log env m (log_run env ops log_state0)) \<noteq> UB"
proof -
  let ?st = "log_run env ops log_state0"
  have "g_init_flag ?st \<Longrightarrow> g_logger ?st \<noteq> None"
    by (rule log_run_flag) (simp_all add: log_state0_def)
  from get_logger_some [OF this, of env] show ?thesis
    by (auto simp: rpc_log_def split: prod.splits res.splits option.splits)
qed

end
