(* ===== verification/Command_Line.thy ===== *)
theory Command_Line
  imports Std_Containers
begin

text \<open>
  What the command lines of \<^verbatim>\<open>src/server_main.cpp\<close> and \<^verbatim>\<open>src/client_main.cpp\<close> share: \<^verbatim>\<open>std::stoi\<close> on an argument and the
  cast of its result to a port. \<^verbatim>\<open>std::stoi\<close> skips white space, accepts one sign, reads the longest run of digits and ignores the
  rest; no digit is \<^verbatim>\<open>std::invalid_argument\<close>, a number outside \<^verbatim>\<open>int\<close> is \<^verbatim>\<open>std::out_of_range\<close>, neither of which is caught.
\<close>

definition is_space :: "char \<Rightarrow> bool" where
  "is_space c \<longleftrightarrow> c \<in> set [CHR 0x20, CHR 0x09, CHR 0x0A, CHR 0x0B, CHR 0x0C, CHR 0x0D]"

definition is_digit :: "char \<Rightarrow> bool" where
  "is_digit c \<longleftrightarrow> 48 \<le> (of_char c :: nat) \<and> (of_char c :: nat) \<le> 57"

definition digits_value :: "string \<Rightarrow> int" where
  "digits_value ds = foldl (\<lambda>n c. 10 * n + (of_char c - 48)) 0 ds"

definition split_sign :: "string \<Rightarrow> bool \<times> string" where
  "split_sign s =
     (case s of [] \<Rightarrow> (False, [])
      | c # cs \<Rightarrow> if c = CHR ''-'' then (True, cs) else if c = CHR ''+'' then (False, cs) else (False, s))"

definition stoi :: "string \<Rightarrow> int res" where
  "stoi s =
     (let (neg, rest) = split_sign (dropWhile is_space s);
          ds = takeWhile is_digit rest;
          v = (if neg then - digits_value ds else digits_value ds)
      in if ds = [] then Throw (StdException ''stoi'')
         else if v < - (2 ^ 31) \<or> 2 ^ 31 \<le> v then Throw (StdException ''stoi'')
         else Ret v)"

definition port_arg :: "string \<Rightarrow> u16 res" where
  "port_arg s = bindR (stoi s) (\<lambda>n. Ret (word_of_int n))"

lemma of_char_digit: "d < 10 \<Longrightarrow> (of_char (char_of (48 + d) :: char) :: nat) = 48 + d" for d :: nat
  by (simp add: of_char_of)

lemma is_digit_char: "d < 10 \<Longrightarrow> is_digit (char_of (48 + d))" for d :: nat
  by (simp add: is_digit_def of_char_digit)

lemma to_string_digits: "list_all is_digit (to_string n)"
proof (induction n rule: to_string.induct)
  case (1 n)
  then show ?case by (subst to_string.simps) (simp add: is_digit_char)
qed

lemma to_string_nonempty [simp]: "to_string n \<noteq> []"
  by (subst to_string.simps) simp

lemma digits_value_snoc: "digits_value (ds @ [c]) = 10 * digits_value ds + (of_char c - 48)"
  by (simp add: digits_value_def)

lemma int_of_char_digit: "d < 10 \<Longrightarrow> (of_char (char_of (48 + d) :: char) :: int) = 48 + int d" for d :: nat
  using of_char_digit [of d] by (metis of_nat_add of_nat_numeral of_nat_of_char)

lemma digits_value_to_string: "digits_value (to_string n) = int n"
proof (induction n rule: to_string.induct)
  case (1 n)
  show ?case
  proof (cases "n < 10")
    case True
    then show ?thesis using digits_value_snoc [of "[]" "char_of (48 + n)"]
      by (subst to_string.simps) (simp add: int_of_char_digit digits_value_def)
  next
    case False
    then show ?thesis using 1
      by (subst to_string.simps) (simp add: digits_value_snoc int_of_char_digit of_nat_mod of_nat_div)
  qed
qed

lemma stoi_to_string:
  assumes "n < 2 ^ 31"
  shows "stoi (to_string n) = Ret (int n)"
proof -
  obtain c cs where s: "to_string n = c # cs" using to_string_nonempty by (meson neq_Nil_conv)
  have d: "is_digit x" if "x \<in> set (to_string n)" for x
    using to_string_digits that by (simp add: list_all_iff)
  have "is_digit c" using d s by simp
  then have "\<not> is_space c" "c \<noteq> CHR ''-''" "c \<noteq> CHR ''+''"
    by (auto simp: is_digit_def is_space_def)
  then have "split_sign (dropWhile is_space (to_string n)) = (False, to_string n)"
    by (simp add: split_sign_def s)
  moreover have t: "takeWhile is_digit (to_string n) = to_string n" using d by (simp add: takeWhile_eq_all_conv)
  ultimately show ?thesis using assms by (simp add: stoi_def t digits_value_to_string Let_def del: takeWhile_eq_all_conv)
qed

lemma port_arg_to_string: "port_arg (to_string (unat p)) = Ret p"
proof -
  have "unat p < 2 ^ 16" using unsigned_less [of p] by simp
  then have "unat p < 2 ^ 31" by simp
  then show ?thesis by (simp add: port_arg_def stoi_to_string)
qed

lemma length_to_string: "length (to_string n) \<le> n + 1"
proof (induction n rule: to_string.induct)
  case (1 n)
  then show ?case by (subst to_string.simps) (auto simp: not_less)
qed

end
