(* ===== verification/Server_Main.thy ===== *)
theory Server_Main
  imports Rpc_Server Load_Config Log_Init Command_Line
begin

text \<open>
  \<^verbatim>\<open>src/server_main.cpp\<close>: the command line, the start of the server process from its configuration, and its shutdown. After the start
  the process has two threads that matter here: \<^verbatim>\<open>main\<close>, which polls \<^verbatim>\<open>g_running\<close>, and the server thread inside \<^verbatim>\<open>RpcServer::start\<close>.
  A signal arrives at any time and is handled by what is installed for it then: the default action, the handler \<^verbatim>\<open>main\<close> registered, or
  (except on Windows) the \<^verbatim>\<open>signal_set\<close> of \<^verbatim>\<open>MessageCycle::run\<close>, which replaces that handler while it exists. The requests the server serves meanwhile, modelled in
  \<^verbatim>\<open>Rpc_Server\<close>, touch none of these fields.
\<close>

section \<open>Command line\<close>

record server_args =
  config_path :: string
  override_port :: u16

definition server_args0 :: server_args where
  "server_args0 = \<lparr>config_path = ''src/config/server_config.json'', override_port = 0\<rparr>"

datatype server_cmd = ServerHelp | ServerRun server_args

function server_parse :: "string list \<Rightarrow> server_args \<Rightarrow> server_cmd res" where
  "server_parse [] a = Ret (ServerRun a)"
| "server_parse (arg # rest) a =
     (if arg = ''--config'' \<and> rest \<noteq> [] then server_parse (tl rest) (a\<lparr>config_path := hd rest\<rparr>)
      else if arg = ''--port'' \<and> rest \<noteq> [] then
        bindR (port_arg (hd rest)) (\<lambda>p. server_parse (tl rest) (a\<lparr>override_port := p\<rparr>))
      else if arg = ''--help'' then Ret ServerHelp
      else server_parse rest a)"
  by pat_completeness auto
termination
  by (relation "measure (\<lambda>(args, a). length args)") auto

section \<open>Start\<close>

datatype signal_action = DefaultAction | ClearRunning | AsioStop
datatype main_point = Polling | Leaving | MainDone | Killed
datatype thread_point = ThreadStarting | ThreadRunning | ThreadReturned

record server_proc =
  proc_server :: RpcServer
  g_running :: bool
  sig_action :: signal_action
  main_at :: main_point
  thread_at :: thread_point

text \<open>
  A negative \<^verbatim>\<open>thread_pool_size\<close> becomes a \<^verbatim>\<open>size_t\<close> beyond what \<^verbatim>\<open>workers_.reserve\<close> accepts. \<open>hw\<close> is
  \<^verbatim>\<open>hardware_concurrency()\<close>.
\<close>

definition pool_of_config :: "nat \<Rightarrow> Config \<Rightarrow> job ThreadPool res" where
  "pool_of_config hw cfg =
     (let pool_size = unat (scast (thread_pool_size (cfg_server cfg)) :: u64)
      in if (2 ^ 63 - 1) div 8 < pool_size then Throw (StdException ''vector::reserve'')
         else Ret (new_pool pool_size hw))"

definition override_config :: "server_args \<Rightarrow> Config \<Rightarrow> Config" where
  "override_config a cfg =
     (if 0 < override_port a then cfg\<lparr>cfg_server := (cfg_server cfg)\<lparr>srv_port := override_port a\<rparr>\<rparr> else cfg)"

text \<open>The counter the service is given returns a \<^verbatim>\<open>size_t\<close>.\<close>

definition ping_services :: "RpcServer ServiceManager" where
  "ping_services = register_service service_manager0 (Some (PingService (\<lambda>s. connection_count s mod 2 ^ 64)))"

definition server_boot ::
    "'l log_env \<Rightarrow> (string \<Rightarrow> 'l) \<Rightarrow> nat \<Rightarrow> server_args \<Rightarrow> Config \<Rightarrow> (u16 \<times> server_proc) res" where
  "server_boot env from_str hw a cfg =
     (let cfg = override_config a cfg in
      bindR (fst (init_logger env (log_dir (cfg_log cfg)) (log_file (cfg_log cfg)) (from_str (log_level (cfg_log cfg)))
               log_state0)) (\<lambda>_.
      bindR (pool_of_config hw cfg) (\<lambda>pool.
      Ret (srv_port (cfg_server cfg),
           \<lparr>proc_server = set_thread_pool (Some pool) rpc_server0, g_running = True, sig_action = ClearRunning,
            main_at = Polling, thread_at = ThreadStarting\<rparr>))))"

definition server_main ::
    "(string \<Rightarrow> json option) \<Rightarrow> (string \<Rightarrow> string option) \<Rightarrow> 'l log_env \<Rightarrow> (string \<Rightarrow> 'l) \<Rightarrow> nat \<Rightarrow> string list \<Rightarrow>
     (u16 \<times> server_proc) option res" where
  "server_main parse fs env from_str hw args =
     bindR (server_parse args server_args0) (\<lambda>cmd.
       case cmd of
         ServerHelp \<Rightarrow> Ret None
       | ServerRun a \<Rightarrow>
           bindR (load_config parse fs (config_path a)) (\<lambda>cfg.
           bindR (server_boot env from_str hw a cfg) (\<lambda>p. Ret (Some p))))"

section \<open>Running and shutdown\<close>

text \<open>The thread enters \<^verbatim>\<open>start\<close>; an exception that leaves it ends the process.\<close>

definition thread_start :: "bool \<Rightarrow> ec \<Rightarrow> server_proc \<Rightarrow> server_proc" where
  "thread_start posix bind_ec p =
     (case server_start bind_ec (proc_server p) of
        (Ret _, s) \<Rightarrow>
          p\<lparr>proc_server := s, thread_at := ThreadRunning, sig_action := (if posix then AsioStop else sig_action p)\<rparr>
      | (_, s) \<Rightarrow> p\<lparr>proc_server := s, main_at := Killed\<rparr>)"

definition signal_handler :: "server_proc \<Rightarrow> server_proc" where
  "signal_handler p = p\<lparr>g_running := False\<rparr>"

definition signal_arrives :: "server_proc \<Rightarrow> server_proc" where
  "signal_arrives p =
     (case sig_action p of
        DefaultAction \<Rightarrow> p\<lparr>main_at := Killed\<rparr>
      | ClearRunning \<Rightarrow> signal_handler p
      | AsioStop \<Rightarrow> p\<lparr>proc_server := (proc_server p)\<lparr>cycle := mc_stop (cycle (proc_server p))\<rparr>\<rparr>)"

text \<open>When \<^verbatim>\<open>ios_.run()\<close> returns, the \<^verbatim>\<open>signal_set\<close> is destroyed and the default action restored.\<close>

definition thread_return :: "bool \<Rightarrow> server_proc \<Rightarrow> server_proc" where
  "thread_return posix p = p\<lparr>thread_at := ThreadReturned, sig_action := (if posix then DefaultAction else sig_action p)\<rparr>"

definition main_leave :: "server_proc \<Rightarrow> server_proc" where
  "main_leave p = p\<lparr>main_at := Leaving, proc_server := server_stop (proc_server p)\<rparr>"

inductive proc_step :: "bool \<Rightarrow> ec \<Rightarrow> server_proc \<Rightarrow> server_proc \<Rightarrow> bool" for posix bind_ec where
  proc_start: "main_at p \<noteq> Killed \<Longrightarrow> thread_at p = ThreadStarting \<Longrightarrow> proc_step posix bind_ec p (thread_start posix bind_ec p)"
| proc_signal: "main_at p \<notin> {Killed, MainDone} \<Longrightarrow> proc_step posix bind_ec p (signal_arrives p)"
| proc_return: "main_at p \<noteq> Killed \<Longrightarrow> thread_at p = ThreadRunning \<Longrightarrow> io_stopped (cycle (proc_server p)) \<Longrightarrow>
    proc_step posix bind_ec p (thread_return posix p)"
| proc_leave: "main_at p = Polling \<Longrightarrow> \<not> g_running p \<Longrightarrow> proc_step posix bind_ec p (main_leave p)"
| proc_join: "main_at p = Leaving \<Longrightarrow> thread_at p = ThreadReturned \<Longrightarrow> proc_step posix bind_ec p (p\<lparr>main_at := MainDone\<rparr>)"

inductive_cases proc_stepE: "proc_step posix bind_ec p q"

abbreviation proc_run :: "bool \<Rightarrow> ec \<Rightarrow> server_proc \<Rightarrow> server_proc \<Rightarrow> bool" where
  "proc_run posix bind_ec \<equiv> rtranclp (proc_step posix bind_ec)"

section \<open>Command line and start\<close>

lemma uint_scast: "uint (scast n :: u64) = sint n mod 2 ^ 64" for n :: i32
proof -
  have "uint (word_of_int (sint n) :: u64) = sint n mod 2 ^ LENGTH(64)" by (rule uint_word_of_int)
  then show ?thesis by (simp only: scast_eq len_of_numeral_defs) simp
qed

lemma scast_nonneg:
  fixes n :: i32
  assumes "0 \<le> sint n"
  shows "unat (scast n :: u64) = nat (sint n)" and "nat (sint n) < 2 ^ 31"
proof -
  have b: "sint n < 2 ^ 31" using sint_less [of n] by simp
  have "uint (scast n :: u64) = sint n mod 2 ^ 64" by (rule uint_scast)
  also have "\<dots> = sint n" using assms b by (intro mod_pos_pos_trivial) auto
  finally show "unat (scast n :: u64) = nat (sint n)" by (metis unat_eq_nat_uint)
  show "nat (sint n) < 2 ^ 31" using b assms by simp
qed

lemma pool_of_config_ok:
  assumes "0 \<le> sint (thread_pool_size (cfg_server cfg))"
  shows "pool_of_config hw cfg = Ret (new_pool (nat (sint (thread_pool_size (cfg_server cfg)))) hw)"
  using scast_nonneg [OF assms] by (simp add: pool_of_config_def Let_def)

lemma pool_of_config_negative:
  assumes "sint (thread_pool_size (cfg_server cfg)) < 0"
  shows "pool_of_config hw cfg = Throw (StdException ''vector::reserve'')"
proof -
  let ?n = "thread_pool_size (cfg_server cfg)"
  have b: "- (2 ^ 31) \<le> sint ?n" using sint_ge [of ?n] by simp
  have "uint (scast ?n :: u64) = sint ?n mod 2 ^ 64" by (rule uint_scast)
  also have "\<dots> = sint ?n + 2 ^ 64"
  proof -
    have "(sint ?n + 2 ^ 64) mod 2 ^ 64 = sint ?n + 2 ^ 64"
      using assms b by (intro mod_pos_pos_trivial) auto
    then show ?thesis by simp
  qed
  finally have "unat (scast ?n :: u64) = nat (sint ?n + 2 ^ 64)" by (metis unat_eq_nat_uint)
  then show ?thesis using b by (simp add: pool_of_config_def Let_def)
qed

text \<open>
  Started with a configuration file and a port on its command line, the server process comes up polling, with the pool the configuration asks for, and
  listens on the port given there, or on the configured one when that is 0; a configuration with a negative pool size ends it by an exception.
\<close>

theorem server_main_starts:
  assumes "load_config parse fs path = Ret cfg" and "make_dirs env (log_dir (cfg_log cfg))"
    and "open_log env (log_dir (cfg_log cfg) @ ''/'' @ log_file (cfg_log cfg))"
  shows "server_main parse fs env from_str hw [''--config'', path, ''--port'', to_string (unat port)] =
    (if sint (thread_pool_size (cfg_server cfg)) < 0 then Throw (StdException ''vector::reserve'')
     else Ret (Some (if port = 0 then srv_port (cfg_server cfg) else port,
       \<lparr>proc_server = \<lparr>cycle = message_cycle0,
          thread_pool = Some (new_pool (nat (sint (thread_pool_size (cfg_server cfg)))) hw), running = False\<rparr>,
        g_running = True, sig_action = ClearRunning, main_at = Polling, thread_at = ThreadStarting\<rparr>)))"
proof -
  let ?a = "\<lparr>config_path = path, override_port = port\<rparr>"
  have parse: "server_parse [''--config'', path, ''--port'', to_string (unat port)] server_args0 = Ret (ServerRun ?a)"
    by (simp add: port_arg_to_string server_args0_def)
  have ov: "cfg_log (override_config ?a cfg) = cfg_log cfg"
    "thread_pool_size (cfg_server (override_config ?a cfg)) = thread_pool_size (cfg_server cfg)"
    "srv_port (cfg_server (override_config ?a cfg)) = (if port = 0 then srv_port (cfg_server cfg) else port)"
    by (simp_all add: override_config_def word_neq_0_conv)
  have lg: "fst (init_logger env (log_dir (cfg_log cfg)) (log_file (cfg_log cfg)) l log_state0) = Ret ()" for l
    using assms(2,3) by (simp add: init_logger_def log_state0_def Let_def)
  have boot: "server_boot env from_str hw ?a cfg = bindR (pool_of_config hw (override_config ?a cfg)) (\<lambda>pool.
      Ret (if port = 0 then srv_port (cfg_server cfg) else port,
           \<lparr>proc_server = set_thread_pool (Some pool) rpc_server0, g_running = True, sig_action = ClearRunning,
            main_at = Polling, thread_at = ThreadStarting\<rparr>))"
    by (simp add: server_boot_def Let_def ov lg)
  show ?thesis
  proof (cases "sint (thread_pool_size (cfg_server cfg)) < 0")
    case True
    then show ?thesis using pool_of_config_negative [of "override_config ?a cfg" hw]
      by (simp add: server_main_def parse assms(1) boot ov del: server_parse.simps)
  next
    case False
    then show ?thesis using pool_of_config_ok [of "override_config ?a cfg" hw]
      by (simp add: server_main_def parse assms(1) boot ov set_thread_pool_def rpc_server0_def del: server_parse.simps)
  qed
qed

theorem server_main_starts_witness:
  "\<exists>p. server_main (\<lambda>t. None) (\<lambda>f. None) demo_log_env (\<lambda>s. 2) 4 [''--config'', ''x.json'', ''--port'', to_string (unat (9000 :: u16))] =
     Ret (Some (9000, p)) \<and> thread_pool (proc_server p) = Some (new_pool 8 4)"
proof -
  have l: "load_config (\<lambda>t. None) (\<lambda>f. None) ''x.json'' = Ret config0" by (simp add: load_config_def)
  have e: "make_dirs demo_log_env (log_dir (cfg_log config0))"
    "open_log demo_log_env (log_dir (cfg_log config0) @ ''/'' @ log_file (cfg_log config0))"
    by (simp_all add: demo_log_env_def)
  have s: "sint (thread_pool_size (cfg_server config0)) = 8" by (simp add: config0_def server0_def)
  show ?thesis
    using server_main_starts [OF l e, of "\<lambda>s. 2" 4 9000] by (simp add: s del: unat_numeral)
qed
section \<open>Shutdown\<close>

text \<open>A process as \<^const>\<open>server_boot\<close> leaves it.\<close>

definition just_booted :: "server_proc \<Rightarrow> bool" where
  "just_booted p \<longleftrightarrow> g_running p \<and> sig_action p = ClearRunning \<and> main_at p = Polling \<and> thread_at p = ThreadStarting"

lemma server_boot_just_booted: "server_boot env from_str hw a cfg = Ret (port, p) \<Longrightarrow> just_booted p"
  by (auto simp: server_boot_def just_booted_def Let_def bindR_eq_Ret)

lemma server_start_io_stopped [simp]:
  "io_stopped (cycle (snd (server_start ec s))) = io_stopped (cycle s)"
  by (simp add: server_start_def start_listen_def mc_run_def do_accept_def Let_def split: ec.split)

lemma mc_stop_io_stopped [simp]: "io_stopped (mc_stop mc)"
  by (simp add: mc_stop_def Let_def)

lemmas proc_defs = thread_start_def signal_arrives_def signal_handler_def thread_return_def main_leave_def

text \<open>What holds on a POSIX system once the server thread has entered \<^verbatim>\<open>run\<close> without a signal before.\<close>

definition asio_owns_signals :: "server_proc \<Rightarrow> bool" where
  "asio_owns_signals p \<longleftrightarrow> g_running p \<and> main_at p \<in> {Polling, Killed} \<and>
     (thread_at p = ThreadRunning \<and> sig_action p = AsioStop \<or> thread_at p = ThreadReturned \<and> sig_action p = DefaultAction)"

lemma asio_owns_signals_step: "proc_step True ec p q \<Longrightarrow> asio_owns_signals p \<Longrightarrow> asio_owns_signals q"
  by (erule proc_stepE) (auto simp: asio_owns_signals_def proc_defs)

lemma asio_owns_signals_run: "proc_run True ec p q \<Longrightarrow> asio_owns_signals p \<Longrightarrow> asio_owns_signals q"
  by (induction rule: rtranclp_induct) (auto intro: asio_owns_signals_step)

lemma thread_start_cases:
  "thread_start posix ec p =
     (if ec = Success
      then p\<lparr>proc_server := snd (server_start ec (proc_server p)), thread_at := ThreadRunning,
             sig_action := (if posix then AsioStop else sig_action p)\<rparr>
      else p\<lparr>proc_server := snd (server_start ec (proc_server p)), main_at := Killed\<rparr>)"
  by (cases ec) (simp_all add: thread_start_def server_start_def start_listen_def Let_def)

text \<open>
  C33: on a POSIX system a signal that arrives after the server thread has entered its event loop never reaches \<^verbatim>\<open>main\<close>: whatever
  happens then, \<^verbatim>\<open>g_running\<close> stays true and \<^verbatim>\<open>main\<close> polls on until the process is killed, so its shutdown code never runs.
  The first such signal does stop the event loop.
\<close>

theorem posix_signal_misses_main:
  assumes "just_booted p0"
  shows "(\<forall>q. proc_run True Success (thread_start True Success p0) q \<longrightarrow> g_running q \<and> main_at q \<in> {Polling, Killed}) \<and>
    io_stopped (cycle (proc_server (signal_arrives (thread_start True Success p0))))"
proof -
  have "asio_owns_signals (thread_start True Success p0)"
    using assms by (simp add: just_booted_def asio_owns_signals_def thread_start_cases)
  then have "\<forall>q. proc_run True Success (thread_start True Success p0) q \<longrightarrow> g_running q \<and> main_at q \<in> {Polling, Killed}"
    using asio_owns_signals_run by (auto simp: asio_owns_signals_def)
  moreover have "io_stopped (cycle (proc_server (signal_arrives (thread_start True Success p0))))"
    by (simp add: signal_arrives_def thread_start_cases)
  ultimately show ?thesis by blast
qed

definition proc_inv :: "server_proc \<Rightarrow> bool" where
  "proc_inv p \<longleftrightarrow> sig_action p = ClearRunning \<and> main_at p \<noteq> Killed \<and> (main_at p = Polling \<or> io_stopped (cycle (proc_server p)))
     \<and> (main_at p = MainDone \<longrightarrow> thread_at p = ThreadReturned)"

lemma proc_inv_step: "proc_step False Success p q \<Longrightarrow> proc_inv p \<Longrightarrow> proc_inv q"
  by (erule proc_stepE)
    (auto simp: proc_inv_def thread_start_cases signal_arrives_def signal_handler_def thread_return_def main_leave_def server_stop_def)

lemma proc_inv_run: "proc_run False Success p q \<Longrightarrow> proc_inv p \<Longrightarrow> proc_inv q"
  by (induction rule: rtranclp_induct) (auto intro: proc_inv_step)

lemma leaving_terminates:
  assumes "proc_inv p" and "main_at p = Leaving"
  shows "\<exists>q. proc_run False Success p q \<and> main_at q = MainDone"
proof -
  have running: "\<exists>q. proc_run False Success p q \<and> main_at q = MainDone"
    if "proc_inv p" "main_at p = Leaving" "thread_at p = ThreadRunning" for p
  proof -
    have "proc_step False Success p (thread_return False p)" using that by (intro proc_return) (auto simp: proc_inv_def)
    moreover have "proc_step False Success (thread_return False p) ((thread_return False p)\<lparr>main_at := MainDone\<rparr>)"
      using that by (intro proc_join) (simp_all add: thread_return_def)
    ultimately show ?thesis
      by (intro exI [of _ "(thread_return False p)\<lparr>main_at := MainDone\<rparr>"])
        (auto intro: rtranclp.rtrancl_into_rtrancl)
  qed
  show ?thesis
  proof (cases "thread_at p")
    case ThreadStarting
    let ?p = "thread_start False Success p"
    have s: "proc_step False Success p ?p" using assms ThreadStarting by (intro proc_start) (auto simp: proc_inv_def)
    have "proc_inv ?p" using s assms(1) by (rule proc_inv_step)
    moreover have "main_at ?p = Leaving" "thread_at ?p = ThreadRunning" using assms by (simp_all add: thread_start_cases)
    ultimately show ?thesis using running s by (meson converse_rtranclp_into_rtranclp)
  next
    case ThreadRunning
    then show ?thesis using running assms by blast
  next
    case ThreadReturned
    then show ?thesis using assms(2) proc_join by (intro exI [of _ "p\<lparr>main_at := MainDone\<rparr>"]) auto
  qed
qed


definition demo_proc :: server_proc where
  "demo_proc = \<lparr>proc_server = set_thread_pool (Some (new_pool 8 4)) rpc_server0, g_running = True, sig_action = ClearRunning,
     main_at = Polling, thread_at = ThreadStarting\<rparr>"

lemma demo_proc_booted: "just_booted demo_proc"
  by (simp add: just_booted_def demo_proc_def)

theorem posix_signal_misses_main_witness:
  "g_running (signal_arrives (thread_start True Success demo_proc)) \<and>
   io_stopped (cycle (proc_server (signal_arrives (thread_start True Success demo_proc))))"
proof -
  let ?p = "thread_start True Success demo_proc"
  have "proc_step True Success ?p (signal_arrives ?p)"
    by (rule proc_signal) (simp add: thread_start_cases demo_proc_def)
  then show ?thesis using posix_signal_misses_main [OF demo_proc_booted] by blast
qed


text \<open>
  \<^verbatim>\<open>server_stop\<close> leaves the tasks of the pool alone. In \<^verbatim>\<open>main\<close> the pool is declared before the server and so is destroyed after it:
  the tasks still queued run when the server they refer to no longer exists.
\<close>

lemma stop_keeps_tasks: "thread_pool (server_stop s) = thread_pool s"
  by (simp add: server_stop_def)

end
