(* ===== verification/Deployment.thy ===== *)
theory Deployment
  imports Many_Clients Server_Main
begin

text \<open>
  The server program as it is shipped: booted by \<^verbatim>\<open>main\<close> from its command line and configuration, with \<^verbatim>\<open>PingService\<close> registered, serving any
  number of clients. The general properties of \<^verbatim>\<open>Many_Clients\<close> become a statement on the answers the callers of this program get.
\<close>

section \<open>What the service promises\<close>

text \<open>
  The answers to a call by the names it uses. The text of an error tells the caller which name is unknown; an unknown method is reported as an
  unknown service when the name contains the words the server searches for.
\<close>

definition stats_response :: "nat \<Rightarrow> RpcResponse" where
  "stats_response n = empty_response\<lparr>result := ''{\"status\":\"running\",\"connections\":'' @ to_string n @ ''}''\<rparr>"

definition ping_reply :: "RpcRequest \<Rightarrow> RpcResponse \<Rightarrow> bool" where
  "ping_reply req resp \<longleftrightarrow>
     (let sn = service_name req; mn = method_name req in
      if sn \<noteq> ''PingService'' then resp = error_response SERVICE_NOT_FOUND (''service not found: '' @ sn)
      else if mn = ''Ping'' then resp = pong_response
      else if mn = ''Stats'' then
        \<exists>n < 2 ^ 64. resp = stats_response n
      else resp = error_response
        (if str_contains (sn @ ''.'' @ mn) ''service not found'' then SERVICE_NOT_FOUND else METHOD_NOT_FOUND)
        (''method not found: '' @ sn @ ''.'' @ mn))"

lemma ping_services_manager: "ping_services = ping_manager (\<lambda>s. connection_count s mod 2 ^ 64)"
  by (simp add: ping_services_def ping_manager_def)

lemma ping_services_sound: "services_ok ping_services" "services_keep ping_services" "answers_fit ping_services"
  unfolding ping_services_manager using ping_services_ok net_mgr_ok by blast+

lemmas ping_answer_defs = process_request_def process_request_via_def dispatch_def ping_services_manager PingService_def ping_handle_def
  pong_response_def empty_response_def

lemma ping_services_reply:
  assumes "can_answer ping_services k req resp" and "call_fits req"
  shows "ping_reply req resp"
proof -
  let ?h = "fst (request_frame k req)" and ?b = "request_layout req"
  let ?ms = "\<lambda>sn. map_option svc_methods (get_service ping_services sn)"
  obtain w w' where p: "process_request ping_services ?h ?b w = (Ret resp, w')"
    using assms(1) by (auto simp: can_answer_def is_answer_def request_frame_def)
  have d: "deserialize_request ?b = Ret req" using assms(2) request_layout_read by (simp add: call_fits_def)
  have h: "msg_type ?h = msg_type_code REQUEST" by (simp add: request_frame_def request_header_def)
  consider "service_name req \<noteq> ''PingService''" | "service_name req = ''PingService''" "method_name req \<notin> {''Ping'', ''Stats''}"
    | "service_name req = ''PingService''" "method_name req = ''Ping''" | "service_name req = ''PingService''" "method_name req = ''Stats''" by blast
  then show ?thesis
  proof cases
    case 1
    then have "?ms (service_name req) = None" by (simp add: ping_services_manager)
    from mgr.process_unknown_service [OF h d this, of w] show ?thesis
      using 1 p by (simp add: process_request_def ping_reply_def Let_def)
  next
    case 2
    then have "?ms (service_name req) = Some [''Ping'', ''Stats'']" "method_name req \<notin> set [''Ping'', ''Stats'']"
      by (simp_all add: ping_services_manager PingService_def)
    from mgr.process_unknown_method [OF h d this, of w] show ?thesis
      using 2 p by (simp add: process_request_def ping_reply_def Let_def)
  next
    case 3
    then show ?thesis using p d h by (simp add: ping_answer_defs ping_reply_def)
  next
    case 4
    then have "resp = stats_response (connection_count w mod 2 ^ 64)" using p d h by (auto simp: ping_answer_defs stats_response_def)
    moreover have "connection_count w mod 2 ^ 64 < (2 ^ 64 :: nat)" by simp
    ultimately have "\<exists>n < 2 ^ 64. resp = stats_response n" by blast
    then show ?thesis using 4 by (simp add: ping_reply_def)
  qed
qed

section \<open>The program at work\<close>

lemma server_boot_pool:
  "server_boot env from_str hw a cfg = Ret (port, p) \<Longrightarrow> \<exists>n. proc_server p = set_thread_pool (Some (new_pool n hw)) rpc_server0"
  by (auto simp: server_boot_def pool_of_config_def bindR_eq_Ret Let_def split: if_splits)

lemma server_main_pool:
  assumes "server_main parse fs env from_str hw args = Ret (Some (port, p))"
  shows "\<exists>n. proc_server p = set_thread_pool (Some (new_pool n hw)) rpc_server0"
proof -
  obtain cmd where "(case cmd of ServerHelp \<Rightarrow> Ret None | ServerRun a \<Rightarrow> bindR (load_config parse fs (config_path a)) (\<lambda>cfg.
      bindR (server_boot env from_str hw a cfg) (\<lambda>p. Ret (Some p)))) = Ret (Some (port, p))"
    using assms by (auto simp: server_main_def bindR_eq_Ret)
  then show ?thesis by (cases cmd) (auto simp: bindR_eq_Ret intro: server_boot_pool)
qed

text \<open>The server once its thread listens, and \<open>n\<close> clients that were just created.\<close>

definition deployed :: "server_proc \<Rightarrow> nat \<Rightarrow> unit fleet" where
  "deployed p n = \<lparr>fsv = snd (server_start Success (proc_server p)), sides = replicate n fresh_side\<rparr>"

lemma deployed_init:
  assumes "server_main parse fs env from_str hw args = Ret (Some (port, p))"
  obtains k where "fleet_init ping_services k hw (deployed p n)"
proof -
  obtain k where k: "proc_server p = set_thread_pool (Some (new_pool k hw)) rpc_server0" using server_main_pool [OF assms] by blast
  have "fst (server_start Success (proc_server p)) = Ret ()" by (simp add: server_start_def start_listen_def Let_def)
  then have "sv_start k hw (fsv (deployed p n))"
    unfolding sv_start_def deployed_def
    by (intro exI [of _ "proc_server p"]) (simp add: k set_thread_pool_def rpc_server0_def prod_eq_iff)
  then show thesis
    using that [of k] ping_services_sound by (simp add: fleet_init_def fleet_start_def) (simp add: deployed_def list_all_iff)
qed


text \<open>The program with a pool of one thread, as a configuration file asks, and two clients of which the first has pinged.\<close>

definition small_config :: json where
  "small_config = JObject [(''server'', JObject [(''thread_pool_size'', JInt 1)])]"

abbreviation small_main :: "(u16 \<times> server_proc) option res" where
  "small_main \<equiv> server_main (\<lambda>t. Some small_config) (\<lambda>f. Some ''{...}'') demo_log_env (\<lambda>s. 2) 0 []"

lemma small_main_boots: "\<exists>port p. small_main = Ret (Some (port, p)) \<and> deployed p 2 = two_clients"
proof -
  have "config_of small_config = Ret (config0\<lparr>cfg_server := server0\<lparr>thread_pool_size := 1\<rparr>\<rparr>)"
    by (simp add: config_of_def small_config_def section_of_def contains_def json_at_def parse_server_def json_value_def config0_def server0_def)
  then have c: "load_config (\<lambda>t. Some small_config) (\<lambda>f. Some ''{...}'') f = Ret (config0\<lparr>cfg_server := server0\<lparr>thread_pool_size := 1\<rparr>\<rparr>)" for f
    by (simp add: load_config_def)
  have p: "pool_of_config 0 (config0\<lparr>cfg_server := server0\<lparr>thread_pool_size := 1\<rparr>\<rparr>) = Ret (new_pool 1 0)"
    using pool_of_config_ok [of "config0\<lparr>cfg_server := server0\<lparr>thread_pool_size := 1\<rparr>\<rparr>" 0] by simp
  have "server_args0\<lparr>override_port := 0\<rparr> = server_args0" by (simp add: server_args0_def)
  then have o: "override_config server_args0 cfg = cfg" for cfg by (simp add: override_config_def server_args0_def)
  have "\<exists>port p. small_main = Ret (Some (port, p)) \<and> proc_server p = set_thread_pool (Some (new_pool 1 0)) rpc_server0"
    by (simp add: server_main_def c server_boot_def o p init_logger_def demo_log_env_def log_state0_def)
  then show ?thesis by (auto simp: deployed_def two_clients_def srv0_def set_thread_pool_def numeral_2_eq_2)
qed


end
