(* ===== verification/Sync_Server.thy ===== *)
theory Sync_Server
  imports Server_Runs
begin

text \<open>
  The server of \<^verbatim>\<open>src/core/rpc_service.cpp\<close> without a pool: \<^verbatim>\<open>on_message\<close> processes a request on the thread that read it, before the
  handler returns. All handlers of all connections interleave on that thread; an exception that a service lets out
  ends it. Requests are answered at once and in their order.
\<close>

section \<open>Runs\<close>

text \<open>\<open>tr\<close> are the messages delivered so far, each with its connection.\<close>

inductive sync_run :: "'a manager \<Rightarrow> 'a RpcServer_scheme \<Rightarrow> job list \<Rightarrow> bool" for m where
  sync_start: "cycle s0 = message_cycle0 \<Longrightarrow> thread_pool s0 = None \<Longrightarrow> server_start Success s0 = (Ret (), s) \<Longrightarrow> sync_run m s []"
| sync_accept: "sync_run m s tr \<Longrightarrow> accept_pending (cycle s) \<Longrightarrow> sync_run m (s\<lparr>cycle := accept_handler ec (cycle s)\<rparr>) tr"
| sync_header: "sync_run m s tr \<Longrightarrow> store (cycle s) r = Some c \<Longrightarrow> read_op c = ReadHeader \<Longrightarrow>
    serve m r (header_handler ec buf) s = Some s' \<Longrightarrow> sync_run m s' tr"
| sync_body: "sync_run m s tr \<Longrightarrow> store (cycle s) r = Some c \<Longrightarrow> read_op c = ReadBody h \<Longrightarrow>
    serve m r (body_handler h ec buf) s = Some s' \<Longrightarrow>
    sync_run m s' (tr @ map (\<lambda>(h, b). (h, b, r)) (concat (map message_of (snd (body_handler h ec buf c)))))"
| sync_write: "sync_run m s tr \<Longrightarrow> store (cycle s) r = Some c \<Longrightarrow> write_op c \<noteq> None \<Longrightarrow>
    serve m r (write_handler ec) s = Some s' \<Longrightarrow> sync_run m s' tr"
| sync_stop: "sync_run m s tr \<Longrightarrow> sync_run m (server_stop s) tr"

section \<open>What a connection holds, in order\<close>

definition holds_in_order :: "string list \<Rightarrow> Connection \<Rightarrow> bool" where
  "holds_in_order fs c \<longleftrightarrow> tidy c \<and> (\<not> closed c \<longrightarrow> cw.handed_over c = fs)"

lemma tidy_holds: "tidy c \<longleftrightarrow> conn_holds (mset (cw.handed_over c)) c"
  by (simp add: conn_holds_def)

lemma in_order_cong:
  assumes "write_queue c' = write_queue c" "write_op c' = write_op c" "writing c' = writing c" "wire c' = wire c"
    "closed c \<Longrightarrow> closed c'" "holds_in_order fs c"
  shows "holds_in_order fs c'"
  using assms by (auto simp: holds_in_order_def tidy_def cw.handed_over_def)

lemma in_order_close: "holds_in_order fs c \<Longrightarrow> holds_in_order fs (close c)"
  by (rule in_order_cong) simp_all

lemma in_order_read:
  assumes "holds_in_order fs c" and "c' = fst (header_handler ec buf c) \<or> c' = fst (body_handler h ec buf c)"
  shows "holds_in_order fs c'"
  using assms(1) by (rule in_order_cong [rotated -1]) (rule reader_writer_frame [OF assms(2)], assumption?)+

lemma in_order_write:
  assumes "holds_in_order fs c" and "write_op c \<noteq> None"
  shows "holds_in_order fs (fst (write_handler ec c))"
proof -
  have "conn_holds (mset (cw.handed_over c)) c" using assms(1) by (simp add: holds_in_order_def flip: tidy_holds)
  then have "tidy (fst (write_handler ec c))" using conn_holds_write assms(2) by (auto simp: conn_holds_def)
  moreover have "cw.handed_over (fst (write_handler ec c)) = cw.handed_over c \<and> closed (fst (write_handler ec c)) = closed c"
    if "\<not> closed (fst (write_handler ec c))"
  proof (cases ec)
    case Success
    then show ?thesis by (simp add: cw.handed_over_written) (simp add: conn_write_defs split: list.split)
  next
    case (Failure e)
    then show ?thesis using that by (simp add: write_handler_def close_once_def split: if_splits)
  qed
  ultimately show ?thesis using assms(1) by (auto simp: holds_in_order_def)
qed

lemma in_order_send:
  assumes "holds_in_order fs c"
  obtains c' where "send h body c = Ret c'" "holds_in_order (fs @ [header_layout h @ body]) c'"
proof (cases "closed c")
  case True
  then show thesis using assms that [of c] by (simp add: send_def holds_in_order_def)
next
  case False
  let ?d = "header_layout h @ body"
  let ?c' = "if writing c then enqueue_frame ?d c else enter_do_write (enqueue_frame ?d c)"
  have idle: "\<not> writing c \<Longrightarrow> write_op c = None \<and> write_queue c = []" using assms by (auto simp: holds_in_order_def tidy_def)
  have "cw.handed_over ?c' = cw.handed_over c @ [?d]"
    using idle by (auto simp: cw.handed_over_push) (auto simp: cw.handed_over_def conn_write_defs)
  moreover have s: "send h body c = Ret ?c'" using False by (simp add: send_def frame_of_eq Let_def)
  moreover have "conn_holds (mset (cw.handed_over c)) c" using assms by (simp add: holds_in_order_def flip: tidy_holds)
  then obtain c'' where "send h body c = Ret c''" "conn_holds (add_mset ?d (mset (cw.handed_over c))) c''"
    by (rule conn_holds_send)
  then have "tidy ?c'" using s by (simp add: conn_holds_def)
  ultimately show thesis using that [of ?c'] assms False by (simp add: holds_in_order_def)
qed

section \<open>The answers, in order\<close>

type_synonym reply_log = "(job \<times> RpcResponse) list"

definition replies_to :: "nat \<Rightarrow> reply_log \<Rightarrow> string list" where
  "replies_to r L = map (\<lambda>(j, resp). answer_frame j resp) (filter (\<lambda>(j, resp). snd (snd j) = r) L)"

definition sync_inv :: "'a manager \<Rightarrow> reply_log \<Rightarrow> 'a RpcServer_scheme \<Rightarrow> bool" where
  "sync_inv m L s \<longleftrightarrow> thread_pool s = None \<and> (\<forall>r \<ge> fresh (cycle s). store (cycle s) r = None) \<and>
     (\<forall>(j, resp) \<in> set L. store (cycle s) (snd (snd j)) \<noteq> None \<and> is_answer m (fst j) (fst (snd j)) resp) \<and>
     (\<forall>r c. store (cycle s) r = Some c \<longrightarrow> holds_in_order (replies_to r L) c)"

lemma sync_invD:
  assumes "sync_inv m L s"
  shows "thread_pool s = None" "\<And>r. r \<ge> fresh (cycle s) \<Longrightarrow> store (cycle s) r = None"
    "\<And>j resp. (j, resp) \<in> set L \<Longrightarrow> store (cycle s) (snd (snd j)) \<noteq> None \<and> is_answer m (fst j) (fst (snd j)) resp"
    "\<And>r c. store (cycle s) r = Some c \<Longrightarrow> holds_in_order (replies_to r L) c"
  using assms unfolding sync_inv_def by blast+

lemma sync_inv_cycle:
  assumes "sync_inv m L s" and "fresh mc = fresh (cycle s)" and "\<And>r. store mc r = None \<longleftrightarrow> store (cycle s) r = None"
    and "\<And>r c. store mc r = Some c \<Longrightarrow> holds_in_order (replies_to r L) c"
  shows "sync_inv m L (s\<lparr>cycle := mc\<rparr>)"
  using assms unfolding sync_inv_def by simp

text \<open>One message: it is answered, or its exception ends the thread.\<close>

lemma sync_inv_message:
  assumes keep: "services_keep m" and inv: "sync_inv m L s" and c: "store (cycle s) r = Some c"
    and msg: "server_on_message m h b r s = (Ret (), s')"
  shows "\<exists>resp. sync_inv m (L @ [((h, b, r), resp)]) s' \<and> store (cycle s') r \<noteq> None"
proof -
  note d = sync_invD [OF inv]
  obtain out s1 where o: "process_request m h b s = (out, s1)" by force
  have k: "out \<noteq> UB" "cycle s1 = cycle s" "thread_pool s1 = None" using process_request_keeps [OF keep o] d(1) by simp_all
  have job: "process_job m (h, b, r) s = (Ret (), s')" using msg d(1) by (simp add: server_on_message_def)
  obtain resp where out: "out = Ret resp" using job o by (cases out) (simp_all add: process_job_def)
  let ?h = "response_header h resp (response_layout resp)"
  obtain c' where c': "send ?h (response_layout resp) c = Ret c'"
      "holds_in_order (replies_to r L @ [header_layout ?h @ response_layout resp]) c'"
    using in_order_send [OF d(4) [OF c]] .
  have s': "s' = s1\<lparr>cycle := (cycle s)\<lparr>store := (store (cycle s))(r \<mapsto> c')\<rparr>\<rparr>"
    using job o out k c c'(1) by (simp add: process_job_def send_response_def serialize_response_eq)
  have "is_answer m h b resp" using o out by (auto simp: is_answer_def)
  moreover have "holds_in_order (replies_to q (L @ [((h, b, r), resp)])) cq" if "((store (cycle s))(r \<mapsto> c')) q = Some cq" for q cq
    using that c'(2) d(4) [of q cq] by (auto simp: replies_to_def answer_frame_def split: if_splits)
  ultimately have "sync_inv m (L @ [((h, b, r), resp)]) s'"
    using d c k(3) unfolding sync_inv_def s' by auto
  then show ?thesis using s' by auto
qed

lemma sync_inv_deliver:
  assumes "services_keep m" and "sync_inv m L s" and "store (cycle s) r \<noteq> None" and "deliver m r ms s = Some s'"
  shows "\<exists>L'. sync_inv m (L @ L') s' \<and> map fst L' = map (\<lambda>(h, b). (h, b, r)) ms"
  using assms(2-)
proof (induction ms arbitrary: s L)
  case (Cons x ms)
  obtain h b where x: "x = (h, b)" by force
  obtain s1 where s1: "server_on_message m h b r s = (Ret (), s1)" "deliver m r ms s1 = Some s'"
    using Cons.prems(3) x by (auto split: prod.splits res.splits)
  obtain resp where "sync_inv m (L @ [((h, b, r), resp)]) s1" "store (cycle s1) r \<noteq> None"
    using sync_inv_message [OF assms(1) Cons.prems(1) _ s1(1)] Cons.prems(2) by blast
  from Cons.IH [OF this s1(2)] obtain L' where "sync_inv m ((L @ [((h, b, r), resp)]) @ L') s'"
      "map fst L' = map (\<lambda>(h, b). (h, b, r)) ms" by blast
  then show ?case using x by (intro exI [of _ "((h, b, r), resp) # L'"]) simp
qed auto

lemma sync_inv_serve:
  assumes "services_keep m" and inv: "sync_inv m L s" and c: "store (cycle s) r = Some c"
    and f: "holds_in_order (replies_to r L) (fst (f c))" and "serve m r f s = Some s'"
  shows "\<exists>L'. sync_inv m (L @ L') s' \<and> map fst L' = map (\<lambda>(h, b). (h, b, r)) (concat (map message_of (snd (f c))))"
proof -
  let ?mc = "fst (run_handler r f (cycle s))"
  note e = run_handler_effect [OF c, of f]
  have "deliver m r (snd (run_handler r f (cycle s))) (s\<lparr>cycle := ?mc\<rparr>) = Some s'" using assms(5) by (simp add: serve_def case_prod_beta)
  moreover have "sync_inv m L (s\<lparr>cycle := ?mc\<rparr>)"
    using f c sync_invD(4) [OF inv] by (intro sync_inv_cycle [OF inv]) (auto simp: e split: if_splits)
  ultimately show ?thesis using sync_inv_deliver [OF assms(1), of L "s\<lparr>cycle := ?mc\<rparr>" r] e by auto
qed

lemma sync_inv_accept:
  assumes "sync_inv m L s"
  shows "sync_inv m L (s\<lparr>cycle := accept_handler ec (cycle s)\<rparr>)"
proof (cases ec)
  case Success
  note d = sync_invD [OF assms]
  have "replies_to (fresh (cycle s)) L = []" using d(2,3) by (force simp: replies_to_def filter_empty_conv)
  moreover have "holds_in_order [] (start_read True True (new_connection\<lparr>conn_id := i\<rparr>))" for i
    by (simp add: holds_in_order_def tidy_def start_read_def do_read_header_def new_connection_def cw.handed_over_def)
  ultimately show ?thesis using assms unfolding sync_inv_def Success by (auto simp: accept_handler_store)
next
  case (Failure e)
  then show ?thesis using assms unfolding sync_inv_def by (auto simp: accept_handler_def do_accept_def Let_def)
qed

lemma sync_inv_stop:
  assumes "sync_inv m L s"
  shows "sync_inv m L (server_stop s)"
proof -
  have "sync_inv m L (s\<lparr>cycle := mc_stop (cycle s)\<rparr>)"
  proof (rule sync_inv_cycle [OF assms])
    show "fresh (mc_stop (cycle s)) = fresh (cycle s)" by (simp add: mc_stop_def Let_def)
    show "store (mc_stop (cycle s)) r = None \<longleftrightarrow> store (cycle s) r = None" for r using mc_stop_store [of "cycle s" r] by auto
    show "holds_in_order (replies_to r L) c" if "store (mc_stop (cycle s)) r = Some c" for r c
      using mc_stop_store [of "cycle s" r] that sync_invD(4) [OF assms, of r]
      by (cases "store (cycle s) r") (auto intro: in_order_close)
  qed
  then show ?thesis by (simp add: server_stop_def sync_inv_def)
qed

lemma header_no_message: "concat (map message_of (snd (header_handler ec buf c))) = []"
  by (auto simp: header_handler_def close_once_def Let_def split: ec.split res.split)

lemma sync_inv_run:
  assumes "sync_run m s tr" and keep: "services_keep m"
  shows "\<exists>L. sync_inv m L s \<and> map fst L = tr"
  using assms(1)
proof (induction rule: sync_run.induct)
  case (sync_start s0 s)
  then have "store (cycle s) = Map.empty" "thread_pool s = None"
    by (auto simp: server_start_def start_listen_def do_accept_def mc_run_def message_cycle0_def Let_def)
  then show ?case by (intro exI [of _ "[]"]) (simp add: sync_inv_def)
next
  case (sync_accept s tr ec)
  then show ?case using sync_inv_accept by blast
next
  case (sync_header s tr r c ec buf s')
  then obtain L where L: "sync_inv m L s" "map fst L = tr" by blast
  then have "holds_in_order (replies_to r L) (fst (header_handler ec buf c))"
    using in_order_read [of _ c] sync_invD(4) sync_header.hyps(2) by blast
  then show ?case using sync_inv_serve [OF keep L(1) sync_header.hyps(2) _ sync_header.hyps(4)] L(2) header_no_message by auto
next
  case (sync_body s tr r c h ec buf s')
  then obtain L where L: "sync_inv m L s" "map fst L = tr" by blast
  then have "holds_in_order (replies_to r L) (fst (body_handler h ec buf c))"
    using in_order_read [of _ c] sync_invD(4) sync_body.hyps(2) by blast
  from sync_inv_serve [OF keep L(1) sync_body.hyps(2) this sync_body.hyps(4)] obtain L' where "sync_inv m (L @ L') s'"
      "map fst L' = map (\<lambda>(h, b). (h, b, r)) (concat (map message_of (snd (body_handler h ec buf c))))" by blast
  then show ?case using L(2) by (intro exI [of _ "L @ L'"]) simp
next
  case (sync_write s tr r c ec s')
  then obtain L where L: "sync_inv m L s" "map fst L = tr" by blast
  then have "holds_in_order (replies_to r L) (fst (write_handler ec c))"
    using in_order_write sync_invD(4) sync_write.hyps(2,3) by blast
  moreover have "concat (map message_of (snd (write_handler ec c))) = []"
    by (auto simp: write_handler_def close_once_def split: ec.split)
  ultimately show ?case using sync_inv_serve [OF keep L(1) sync_write.hyps(2) _ sync_write.hyps(4)] L(2) by auto
next
  case (sync_stop s tr)
  then show ?case using sync_inv_stop by blast
qed

section \<open>Properties\<close>

text \<open>
  C7: without a pool answers keep the order of the requests. In every interleaving of accepted, read, written, failing and closed
  connections, the frames handed to an open connection are, one for one and in the same order, answers to the requests delivered from it, each
  with the header and body of a response that \<^verbatim>\<open>process_request\<close> gives to that request and with its sequence number.
\<close>

theorem sync_answers_in_order:
  assumes "services_keep m" and "sync_run m s tr" and "store (cycle s) r = Some c" and "\<not> closed c"
  shows "list_all2 (\<lambda>(h, b, q) d. \<exists>resp. is_answer m h b resp \<and>
      d = header_layout (response_header h resp (response_layout resp)) @ response_layout resp \<and> frame_seq d = seq_id h)
    (filter (\<lambda>(h, b, q). q = r) tr) (wire c @ (case write_op c of None \<Rightarrow> [] | Some d \<Rightarrow> [d]) @ write_queue c)"
proof -
  obtain L where L: "sync_inv m L s" "map fst L = tr" using sync_inv_run [OF assms(2,1)] by blast
  have "wire c @ (case write_op c of None \<Rightarrow> [] | Some d \<Rightarrow> [d]) @ write_queue c = replies_to r L"
    using sync_invD(4) [OF L(1) assms(3)] assms(4) by (simp add: holds_in_order_def cw.handed_over_def)
  moreover have "filter (\<lambda>(h, b, q). q = r) tr = map fst (filter (\<lambda>(j, resp). snd (snd j) = r) L)"
    by (simp add: filter_map comp_def case_prod_unfold flip: L(2))
  moreover have "\<exists>resp. is_answer m (fst j) (fst (snd j)) resp \<and> answer_frame j a =
      header_layout (response_header (fst j) resp (response_layout resp)) @ response_layout resp \<and>
      frame_seq (answer_frame j a) = seq_id (fst j)" if "(j, a) \<in> set L" for j a
    using sync_invD(3) [OF L(1) that] by (auto simp: answer_frame_def response_header_def split: prod.split)
  ultimately show ?thesis by (auto simp: replies_to_def list_all2_map1 list_all2_map2 list_all2_same)
qed

text \<open>The same ping, answered on the thread that read it.\<close>

definition sync0 :: RpcServer where
  "sync0 = snd (server_start Success rpc_server0)"

definition sync1 :: RpcServer where
  "sync1 = sync0\<lparr>cycle := accept_handler Success (cycle sync0)\<rparr>"

lemmas sync0_simps = sync0_def server_start_def start_listen_def mc_run_def do_accept_def rpc_server0_def message_cycle0_def Let_def

lemma sync1_run: "sync_run m sync1 []" "store (cycle sync1) 0 = Some conn1" "thread_pool sync1 = None"
proof -
  have "sync_run m sync0 []" by (rule sync_start [of rpc_server0]) (simp_all add: sync0_simps)
  then show "sync_run m sync1 []" unfolding sync1_def by (rule sync_accept) (simp add: sync0_simps)
  show "store (cycle sync1) 0 = Some conn1" "thread_pool sync1 = None"
    by (simp_all add: sync1_def sync0_simps accept_handler_store conn_manager0_def conn1_def)
qed

lemma process_job_ok:
  assumes "services_ok m" and "store (cycle s) r = Some c"
  shows "\<exists>s'. process_job m (h, b, r) s = (Ret (), s')"
proof -
  obtain resp s1 where o: "process_request m h b s = (Ret resp, s1)" using process_request_ok [OF assms(1)] .
  then have "cycle s1 = cycle s" using process_request_keeps [OF services_ok_keep [OF assms(1)] o] by simp
  then show ?thesis
    using o assms(2) by (simp add: process_job_def send_response_def serialize_response_eq send_def frame_of_eq Let_def)
qed

lemma sync_ping:
  "\<exists>s c. sync_run demo_mgr s [(ping_header 9, ping_body, 0)] \<and> store (cycle s) 0 = Some c \<and> \<not> closed c"
proof -
  have h: "serve demo_mgr 0 (header_handler Success (header_layout (ping_header 9))) sync1 = Some (with_conn conn2 sync1)"
    using sync1_run(2) conn2_eq by (simp add: serve_def run_handler_def with_conn_def)
  have r2: "sync_run demo_mgr (with_conn conn2 sync1) []"
    by (rule sync_header [OF sync1_run(1,2) _ h]) (simp add: conn1_def start_read_def do_read_header_def)
  have st: "store (cycle (with_conn conn2 sync1)) 0 = Some conn2" "store (cycle (with_conn conn3 sync1)) 0 = Some conn3"
    by (simp_all add: with_conn_def)
  obtain s where s: "process_job demo_mgr (ping_header 9, ping_body, 0) (with_conn conn3 sync1) = (Ret (), s)"
    using process_job_ok [OF ping_services_ok st(2)] by blast
  have "serve demo_mgr 0 (body_handler (ping_header 9) Success ping_body) (with_conn conn2 sync1) = Some s"
    using conn3_eq sync1_run(3) s by (simp add: serve_def run_handler_def with_conn_def server_on_message_def)
  from sync_body [OF r2 st(1) conn2_fields(1) this] have "sync_run demo_mgr s [(ping_header 9, ping_body, 0)]" by (simp add: conn3_eq)
  moreover obtain c where "store (cycle s) 0 = Some c" "closed c = closed conn3"
    using process_job_closed [OF services_ok_keep [OF ping_services_ok] st(2), of _ "(ping_header 9, ping_body, 0)"] s by (metis snd_conv)
  moreover have "\<not> closed conn3" using conn2_fields by (simp add: conn3_def body_handler_def do_read_header_def Let_def)
  ultimately show ?thesis by auto
qed

theorem sync_answers_in_order_witness:
  "\<exists>s c. sync_run demo_mgr s [(ping_header 9, ping_body, 0)] \<and> store (cycle s) 0 = Some c \<and>
     map frame_seq (wire c @ (case write_op c of None \<Rightarrow> [] | Some d \<Rightarrow> [d]) @ write_queue c) = [9]"
proof -
  obtain s c where s: "sync_run demo_mgr s [(ping_header 9, ping_body, 0)]" "store (cycle s) 0 = Some c" "\<not> closed c"
    using sync_ping by blast
  have "seq_id (ping_header 9) = 9" by (simp add: ping_header_def)
  moreover obtain resp where "wire c @ (case write_op c of None \<Rightarrow> [] | Some d \<Rightarrow> [d]) @ write_queue c =
      [header_layout (response_header (ping_header 9) resp (response_layout resp)) @ response_layout resp]"
    using sync_answers_in_order [OF services_ok_keep [OF ping_services_ok] s] by (auto simp: list_all2_Cons1)
  ultimately have "map frame_seq (wire c @ (case write_op c of None \<Rightarrow> [] | Some d \<Rightarrow> [d]) @ write_queue c) = [9]"
    by (simp only:) (simp add: response_header_def)
  with s(1,2) show ?thesis by (intro exI [of _ s] exI [of _ c] conjI)
qed


end
