(* ===== verification/Task_Bag.thy ===== *)
theory Task_Bag
  imports Thread_Pool Refinement
begin

text \<open>
  What \<^verbatim>\<open>ThreadPool\<close> promises, without workers, counters or condition variables: tasks wait in a queue, are started
  in the order of their submission, run at the same time and finish in any order; a pool that was shut accepts nothing more, and it
  is over only when nothing waits or runs. The workers of \<^verbatim>\<open>Thread_Pool\<close> refine it.
\<close>

record 't task_bag =
  waiting :: "'t list"
  in_progress :: "'t multiset"
  finished :: "'t list"
  shut :: bool
  over :: bool

inductive bag_step :: "'t task_bag \<Rightarrow> 't task_bag \<Rightarrow> bool" where
  bag_submit: "\<not> shut b \<Longrightarrow> bag_step b (b\<lparr>waiting := waiting b @ [t]\<rparr>)"
| bag_start: "waiting b = t # ts \<Longrightarrow> bag_step b (b\<lparr>waiting := ts, in_progress := add_mset t (in_progress b)\<rparr>)"
| bag_finish: "t \<in># in_progress b \<Longrightarrow> bag_step b (b\<lparr>in_progress := in_progress b - {#t#}, finished := finished b @ [t]\<rparr>)"
| bag_shut: "bag_step b (b\<lparr>shut := True\<rparr>)"
| bag_over: "shut b \<Longrightarrow> waiting b = [] \<Longrightarrow> in_progress b = {#} \<Longrightarrow> bag_step b (b\<lparr>over := True\<rparr>)"

definition bag_init :: "'t task_bag \<Rightarrow> bool" where
  "bag_init b \<longleftrightarrow> b = \<lparr>waiting = [], in_progress = {#}, finished = [], shut = False, over = False\<rparr>"

definition pool_bag :: "'t ThreadPool \<Rightarrow> 't task_bag" where
  "pool_bag p = \<lparr>waiting = tasks p, in_progress = sum_list (map in_hand (workers p)), finished = executed p,
     shut = stopped p, over = joined p\<rparr>"

definition pool_good :: "'t ThreadPool \<Rightarrow> bool" where
  "pool_good p \<longleftrightarrow> pool_inv p \<and> workers p \<noteq> []"

lemma worker_keeps_length: "worker_loop i p = Some p' \<Longrightarrow> length (workers p') = length (workers p)"
  by (auto simp: worker_loop_def set_worker_def split: if_splits worker.splits list.splits)

lemma pool_good_step: "pool_step p p' \<Longrightarrow> pool_good p \<Longrightarrow> pool_good p'"
  unfolding pool_good_def
proof (intro conjI)
  assume "pool_step p p'" and "pool_inv p \<and> workers p \<noteq> []"
  then show "pool_inv p'" using pool_inv_step by blast
  show "workers p' \<noteq> []"
    using \<open>pool_step p p'\<close> \<open>pool_inv p \<and> workers p \<noteq> []\<close>
    by (induction rule: pool_step.induct) (auto simp: enqueue_def request_stop_def split: if_splits dest: worker_keeps_length)
qed

text \<open>A worker that is not leaving is there, so the pool is not joined before or after its step.\<close>

lemma not_joined_update: "i < length ws \<Longrightarrow> w \<noteq> Exited \<Longrightarrow> \<not> list_all (\<lambda>w. w = Exited) (ws[i := w])"
  by (auto simp: list_all_length intro!: exI [of _ i])

text \<open>A statement that only touches the counters does not show in the bag.\<close>

lemma silent_update:
  assumes i: "i < length (workers p)" and w: "w \<noteq> Exited" "workers p ! i \<noteq> Exited" "in_hand w = in_hand (workers p ! i)"
    and q: "\<exists>q. p' = set_worker i w q \<and> workers q = workers p \<and> tasks q = tasks p \<and> stopped q = stopped p \<and> executed q = executed p"
  shows "pool_bag p' = pool_bag p"
proof -
  have "sum_list (map in_hand ((workers p)[i := w])) = sum_list (map in_hand (workers p))"
    using sum_list_update [OF i, of in_hand w] w(3) by simp
  moreover have "\<not> joined p" using i w(2) by (auto simp: joined_def list_all_length)
  ultimately show ?thesis
    using q not_joined_update [OF i w(1)] by (auto simp: pool_bag_def set_worker_def joined_def)
qed

text \<open>The tasks in hand after the state of one worker changed.\<close>

lemmas in_hand_update = sum_list_update [where f = in_hand]

lemma busy_not_joined:
  assumes "i < length (workers p)" and "workers p ! i \<noteq> Exited"
  shows "\<not> joined p" and "w \<noteq> Exited \<Longrightarrow> workers q = workers p \<Longrightarrow> \<not> joined (set_worker i w q)"
  using assms not_joined_update [OF assms(1), of w] by (auto simp: joined_def list_all_length set_worker_def)

lemma exit_simulates:
  assumes i: "i < length (workers p)" and w: "workers p ! i = Waiting" and "tasks p = []" and "stopped p"
  shows "bag_step (pool_bag p) (pool_bag (set_worker i Exited p)) \<or> pool_bag (set_worker i Exited p) = pool_bag p"
proof -
  let ?q = "set_worker i Exited p"
  have "pool_bag ?q = (pool_bag p)\<lparr>over := joined ?q\<rparr>"
    using in_hand_update [OF i, where y = Exited] w by (simp add: pool_bag_def set_worker_def)
  moreover have "in_progress (pool_bag p) = {#}" if "joined ?q"
    using in_hand_update [OF i, where y = Exited] w exited_sums(4) [of "(workers p)[i := Exited]"] that
    by (simp add: joined_def set_worker_def pool_bag_def)
  moreover have "(pool_bag p)\<lparr>over := False\<rparr> = pool_bag p" using busy_not_joined(1) [OF i] w by (simp add: pool_bag_def)
  ultimately show ?thesis using bag_over [of "pool_bag p"] assms(3,4) by (cases "joined ?q") (simp_all add: pool_bag_def)
qed

lemma take_simulates:
  assumes i: "i < length (workers p)" and w: "workers p ! i = Waiting" and "tasks p = t # ts"
  shows "bag_step (pool_bag p) (pool_bag (set_worker i (Popped t) (p\<lparr>tasks := ts\<rparr>)))"
proof -
  have "pool_bag (set_worker i (Popped t) (p\<lparr>tasks := ts\<rparr>)) =
      (pool_bag p)\<lparr>waiting := ts, in_progress := add_mset t (in_progress (pool_bag p))\<rparr>"
    using in_hand_update [OF i, where y = "Popped t"] w busy_not_joined(1) [OF i] busy_not_joined(2) [OF i, of "Popped t" "p\<lparr>tasks := ts\<rparr>"]
    by (simp add: pool_bag_def set_worker_def)
  then show ?thesis using bag_start [of "pool_bag p" t ts] assms(3) by (simp add: pool_bag_def)
qed

lemma finish_simulates:
  assumes i: "i < length (workers p)" and w: "workers p ! i = Entered t"
  shows "bag_step (pool_bag p) (pool_bag (set_worker i Returned (p\<lparr>executed := executed p @ [t]\<rparr>)))"
proof -
  have "in_progress (pool_bag p) = add_mset t (sum_list (map in_hand ((workers p)[i := Returned])))"
    using in_hand_update [OF i, where y = Returned] w by (simp add: pool_bag_def)
  then have "t \<in># in_progress (pool_bag p)" "pool_bag (set_worker i Returned (p\<lparr>executed := executed p @ [t]\<rparr>)) =
      (pool_bag p)\<lparr>in_progress := in_progress (pool_bag p) - {#t#}, finished := finished (pool_bag p) @ [t]\<rparr>"
    using busy_not_joined(1) [OF i] w busy_not_joined(2) [OF i, of Returned "p\<lparr>executed := executed p @ [t]\<rparr>"]
    by (simp_all add: pool_bag_def set_worker_def)
  then show ?thesis using bag_finish [of t "pool_bag p"] by simp
qed

lemma worker_simulates:
  assumes "worker_loop i p = Some p'" and "pool_good p"
  shows "bag_step\<^sup>*\<^sup>* (pool_bag p) (pool_bag p')"
proof -
  have i: "i < length (workers p)" using assms(1) by (auto simp: worker_loop_def split: if_splits)
  have "bag_step (pool_bag p) (pool_bag p') \<or> pool_bag p' = pool_bag p"
  proof (cases "workers p ! i")
    case Waiting
    then show ?thesis
      using assms(1) exit_simulates [OF i Waiting] take_simulates [OF i Waiting]
      by (auto simp: worker_loop_def split: if_splits list.splits)
  next
    case (Entered t)
    then show ?thesis using assms(1) i finish_simulates [OF i Entered] by (simp add: worker_loop_def)
  next
    case (Popped t)
    then show ?thesis using assms(1) i by (intro disjI2 silent_update [OF i, of "Entered t"]) (auto simp: worker_loop_def)
  next
    case Returned
    then show ?thesis using assms(1) i by (intro disjI2 silent_update [OF i, of Uncounted]) (auto simp: worker_loop_def)
  next
    case Uncounted
    then show ?thesis using assms(1) i by (intro disjI2 silent_update [OF i, of Counted]) (auto simp: worker_loop_def)
  next
    case Counted
    then show ?thesis using assms(1) i by (intro disjI2 silent_update [OF i, of Waiting]) (auto simp: worker_loop_def)
  qed (use assms(1) i in \<open>auto simp: worker_loop_def\<close>)
  then show ?thesis by auto
qed

interpretation bag: simulation "\<lambda>p. p = new_pool n hw" pool_step pool_good bag_init bag_step pool_bag for n hw
proof unfold_locales
  show "pool_good p" if "p = new_pool n hw" for p :: "'a ThreadPool"
    using that pool_inv_new thread_count_pos [of n hw] by (simp add: pool_good_def) (simp add: new_pool_def)
  show "bag_init (pool_bag p)" if "p = new_pool n hw" for p :: "'a ThreadPool"
    using that thread_count_pos [of n hw]
    by (simp add: bag_init_def pool_bag_def new_pool_def joined_def map_replicate sum_list_replicate_empty list_all_iff)
  show "bag_step\<^sup>*\<^sup>* (pool_bag p) (pool_bag p')" if "pool_step p p'" "pool_good p" for p p' :: "'a ThreadPool"
    using that
  proof (induction rule: pool_step.induct)
    case (pool_enqueue t p p')
    then have "\<not> shut (pool_bag p)" "pool_bag p' = (pool_bag p)\<lparr>waiting := waiting (pool_bag p) @ [t]\<rparr>"
      by (auto simp: enqueue_def pool_bag_def joined_def split: if_splits)
    then show ?case using bag_submit [of "pool_bag p" t] by auto
  next
    case (pool_worker i p p')
    then show ?case by (rule worker_simulates)
  next
    case (pool_stop p)
    have "pool_bag (request_stop p) = (pool_bag p)\<lparr>shut := True\<rparr>" by (simp add: pool_bag_def request_stop_def joined_def)
    then show ?case using bag_shut [of "pool_bag p"] by auto
  qed
qed (rule pool_good_step)

lemma pool_reach_run: "pool_reach n hw p \<Longrightarrow> pool_step\<^sup>*\<^sup>* (new_pool n hw) p"
  by (induction rule: pool_reach.induct) (auto intro: rtranclp.rtrancl_into_rtrancl)

text \<open>
  C20: however the workers, the submitting threads and the destructor interleave, a pool of any size does what the abstract
  queue does: tasks are started in the order of their submission and each is run once, none is accepted after the stop flag, and the
  workers have all returned only when no task waits or runs.
\<close>

theorem pool_refines_bag:
  fixes p :: "'t ThreadPool"
  assumes "pool_reach n hw p"
  shows "bag_init (pool_bag (new_pool n hw :: 't ThreadPool)) \<and> bag_step\<^sup>*\<^sup>* (pool_bag (new_pool n hw)) (pool_bag p)"
  using bag.reach_abs [OF refl pool_reach_run [OF assms]] .

theorem pool_refines_bag_witness:
  "bag_step\<^sup>*\<^sup>* (pool_bag (new_pool 1 0)) \<lparr>waiting = [], in_progress = {#}, finished = [7 :: nat], shut = True, over = True\<rparr>"
  using pool_refines_bag [OF one_task_done_reach]
  by (simp add: pool_bag_def one_task_done_def joined_def)

end
