(* ===== verification/Long_Names.thy ===== *)
theory Long_Names
  imports Rpc_System
begin

text \<open>
  What becomes of a call whose names leave no room for the server's error text: the length prefix of the message, 16 bits,
  wraps around, and the client cannot read the answer.
\<close>

section \<open>An answer the format cannot carry\<close>

lemma bit_le_unat: "bit (w :: u32) n \<Longrightarrow> 2 ^ n \<le> unat w"
proof (rule ccontr)
  assume b: "bit w n" and "\<not> 2 ^ n \<le> unat w"
  then have "take_bit n (unat w) = unat w" by (simp add: take_bit_nat_eq_self_iff)
  then have "\<not> bit (unat w) n" by (metis bit_take_bit_iff less_irrefl)
  then show False using b by (simp add: bit_unsigned_iff)
qed

lemma of_be32_large:
  assumes "of_char (buf ! 0) = (c :: nat)" and "bit c 5"
  shows "2 ^ 29 \<le> unat (of_be32 buf)"
proof (rule bit_le_unat)
  have "bit (u8_of_char (buf ! 0)) 5" using assms by (simp add: u8_of_char_def bit_of_nat_iff_bit bit_simps)
  then show "bit (of_be32 buf) 29" by (simp add: of_be32_def bit_simps)
qed

text \<open>The message is cut at a length modulo \<open>2 ^ 16\<close>, and four of its characters are taken for the length of the result.\<close>

lemma wrapped_message_unreadable:
  assumes msg: "error_msg resp = ''service not found: '' @ nm" and n: "65517 \<le> length nm" "length nm < 65536"
    and "result resp = []"
  shows "deserialize_response (response_layout resp) = Throw (RuntimeError ''protocol: response truncated (result)'')"
proof -
  let ?m = "error_msg resp" and ?k = "length nm - 65517"
  have len: "length ?m = 65536 + ?k" "?k < 19" using msg n by simp_all
  have w: "unat (word_of_nat (length ?m) :: u16) = ?k"
    unfolding unat_of_nat len(1) using len(2) by simp
  let ?d = "response_layout resp"
  have d: "?d = be32 (error_code resp) @ be16 (word_of_nat (length ?m)) @ ?m @ be32 0" "length ?d = 10 + length ?m"
    using assms(4) by (simp_all add: response_layout_def)
  have r: "read_u32 ?d 0 = Ret (error_code resp)" "read_u16 ?d 4 = Ret (word_of_nat (length ?m))"
    by (simp_all add: d(1) read_u32_def read_u16_def peek_def)
  have b: "take 4 (drop (6 + ?k) ?d) = take 4 (drop ?k ?m)"
    using len by (simp add: d(1))
  have "?m ! ?k = ''service not found: '' ! ?k" using len msg by (simp only: nth_append) simp
  moreover have "list_all (\<lambda>c. bit (of_char c :: nat) 5) ''service not found: ''" by code_simp
  then have "bit (of_char (''service not found: '' ! ?k) :: nat) 5" using len(2) by (simp only: list_all_length) simp
  ultimately have "bit (of_char (take 4 (drop ?k ?m) ! 0) :: nat) 5" using len by simp
  then have big: "2 ^ 29 \<le> unat (of_be32 (take 4 (drop ?k ?m)))" by (intro of_be32_large [OF refl])
  have "read_u32 ?d (6 + ?k) = Ret (of_be32 (take 4 (drop ?k ?m)))"
    using len d(2) b by (simp add: read_u32_def peek_def)
  moreover have "peek ?d 6 ?k = Ret (take ?k (drop 6 ?d))" using len d(2) by (simp add: peek_def)
  ultimately show ?thesis
    using r w len d(2) big by (simp add: deserialize_response_def)
qed

text \<open>
  C28: a call of an unknown service whose name has 65517 bytes or more, which the request format still carries, is answered with an
  error whose text is too long for its length prefix. The client cannot read the answer: it rejects every pending call, of
  whatever service, with ``bad response'', and stops reading.
\<close>

theorem long_name_breaks_client:
  assumes "request_fits req" and "65517 \<le> length (service_name req)" and "get_service m (service_name req) = None"
    and "snd (request_frame k req) = body"
  shows "\<exists>resp. process_request m (fst (request_frame k req)) body w = (Ret resp, w) \<and>
    error_code resp = error_code_value SERVICE_NOT_FOUND \<and>
    client_body_handler h Success (response_layout resp) c = reject_all_pending ''bad response'' (c\<lparr>client_read := NoRead\<rparr>)"
proof -
  let ?resp = "error_response SERVICE_NOT_FOUND (''service not found: '' @ service_name req)"
  have "deserialize_request body = Ret req"
    using assms(1,4) req.roundtrip [of req] by (auto simp: serialize_request_eq request_frame_def)
  then have "process_request m (fst (request_frame k req)) body w = (Ret ?resp, w)"
    using mgr.process_unknown_service [of "fst (request_frame k req)" body req m w] assms(3)
    by (simp add: process_request_def request_frame_def request_header_def)
  moreover have "deserialize_response (response_layout ?resp) = Throw (RuntimeError ''protocol: response truncated (result)'')"
    using assms(1,2) by (intro wrapped_message_unreadable) (auto simp: error_response_def empty_response_def request_fits_def)
  ultimately show ?thesis by (auto simp: client_body_handler_def error_response_def)
qed

definition long_request :: RpcRequest where
  "long_request = ping_request\<lparr>service_name := replicate 65520 CHR ''x''\<rparr>"

theorem long_name_breaks_client_witness:
  "\<exists>resp. process_request service_manager0 (fst (request_frame 0 long_request)) (request_layout long_request) () = (Ret resp, ()) \<and>
     resolved (client_body_handler pong_header Success (response_layout resp) one_call) = [(0, closed_response ''bad response'')]"
proof -
  have "request_fits long_request" "65517 \<le> length (service_name long_request)"
      "get_service service_manager0 (service_name long_request) = None" "snd (request_frame 0 long_request) = request_layout long_request"
    by (simp_all add: request_fits_def long_request_def ping_request_def get_service_def service_manager0_def request_frame_def)
  from long_name_breaks_client [OF this, of "()" pong_header one_call] show ?thesis
    using one_call_fields by (auto simp: reject_all_pending_def)
qed

end
