(* ===== verification/Lifecycle.thy ===== *)
theory Lifecycle
  imports Rpc_Client
begin

text \<open>
  Destructors and accessors of the long-lived objects: \<^verbatim>\<open>~Connection\<close>, \<^verbatim>\<open>~MessageCycle\<close>, \<^verbatim>\<open>~RpcServer\<close> and \<^verbatim>\<open>~RpcClient\<close> call the explicit
  shutdown once more, so what matters is that a second shutdown changes nothing.
\<close>

definition conn_destructor :: "Connection \<Rightarrow> Connection" where
  "conn_destructor c = close c"

definition mc_destructor :: "MessageCycle \<Rightarrow> MessageCycle" where
  "mc_destructor mc = mc_stop mc"

definition server_destructor :: "'a RpcServer_scheme \<Rightarrow> 'a RpcServer_scheme" where
  "server_destructor s = server_stop s"

definition server_register_service :: "'w ServiceManager \<Rightarrow> 'w Service option \<Rightarrow> 'w ServiceManager" where
  "server_register_service mgr service = register_service mgr service"

definition is_running :: "'a RpcServer_scheme \<Rightarrow> bool" where
  "is_running s = running s"

definition client_destructor :: "RpcClient \<Rightarrow> RpcClient" where
  "client_destructor c = disconnect c"

definition is_connected :: "RpcClient \<Rightarrow> bool" where
  "is_connected c = connected c"

lemma mc_stop_empties: "conn_mgr (mc_stop mc) = (conn_mgr mc)\<lparr>conns := []\<rparr>"
  by (simp add: mc_stop_def close_all_def Let_def)

lemma mc_stop_again: "mc_stop (mc_stop mc) = mc_stop mc"
  by (simp add: mc_stop_def close_all_def Let_def)

text \<open>
  Destroying an object that was shut down explicitly does nothing more, and destroying one that was not shuts it down: the flags the
  accessors read are then off, and no connection is left with the manager.
\<close>

theorem destructors_shut_down:
  "conn_destructor (close c) = close c \<and> closed (conn_destructor c) \<and>
   mc_destructor (mc_stop mc) = mc_stop mc \<and> cm_count (conn_mgr (mc_destructor mc)) = 0 \<and>
   server_destructor (server_stop s) = server_stop s \<and> \<not> is_running (server_destructor s) \<and> connection_count (server_destructor s) = 0 \<and>
   client_destructor (disconnect cl) = disconnect cl \<and> \<not> is_connected (client_destructor cl)"
proof -
  have "conn_destructor (close c) = close c" "closed (conn_destructor c)" by (simp_all add: conn_destructor_def close_def Let_def)
  moreover have "server_destructor (server_stop s) = server_stop s" "\<not> is_running (server_destructor s)"
      "connection_count (server_destructor s) = 0" "cm_count (conn_mgr (mc_destructor mc)) = 0"
    by (simp_all add: server_destructor_def server_stop_def is_running_def mc_stop_again connection_count_def cm_count_def mc_destructor_def
        mc_stop_empties)
  moreover have "client_destructor (disconnect cl) = disconnect cl" "\<not> is_connected (client_destructor cl)"
    by (simp_all add: client_destructor_def disconnect_def stop_io_def close_socket_def is_connected_def)
  ultimately show ?thesis by (simp add: mc_destructor_def mc_stop_again)
qed


section \<open>Numbers that come round\<close>

text \<open>
  The map of pending requests is written with \<^verbatim>\<open>pending_[seq] = ...\<close>: a call whose number is still in use, after \<open>2 ^ 32\<close> further ones, replaces
  the promise of the waiting call, which is then neither fulfilled nor pending: its future gets \<^verbatim>\<open>broken_promise\<close>. The uniqueness of the
  numbers up to that bound is what the properties of the client need.
\<close>

lemma update_replaces: "umap_wf al \<Longrightarrow> distinct (map snd al) \<Longrightarrow> map_of al x = Some k \<Longrightarrow> k \<noteq> v \<Longrightarrow> k \<notin> snd ` set (AList.update x v al)"
proof (induction al)
  case (Cons y al)
  then show ?case by (cases y) (force simp: umap_wf_def dest!: map_of_SomeD split: if_splits)
qed simp

lemma wrapped_number_loses_promise:
  assumes "umap_wf (pending c)" and "distinct (map snd (pending c))" and "map_of (pending c) (next_seq_id c) = Some k" and "k < calls c"
    and "call service meth ps tmo c = Ret (k', c')"
  shows "k \<notin> snd ` set (pending c') \<and> resolved c' = resolved c"
proof -
  have e: "pending (enqueue_write it d) = pending d" "resolved (enqueue_write it d) = resolved d" for it d
    by (simp_all add: enqueue_write_def push_item_def enter_client_write_def client_do_write_def Let_def split: list.split)
  have "pending c' = AList.update (next_seq_id c) (calls c) (pending c)" "resolved c' = resolved c"
    using assms(5) by (auto simp: call_def fetch_seq_def add_pending_def bindR_eq_Ret e Let_def)
  then show ?thesis using update_replaces [OF assms(1-3), of "calls c"] assms(4) by simp
qed


section \<open>After disconnect\<close>

text \<open>
  \<^verbatim>\<open>disconnect\<close> stops the \<^verbatim>\<open>io_context\<close>, which nothing ever restarts: whatever is done with the client afterwards, no promise of a waiting call is
  fulfilled any more, and a second \<^verbatim>\<open>connect\<close> is accepted but its future never becomes ready. A client has one connection in its life.
\<close>

lemma stopped_client_stays: "cl_step s t \<Longrightarrow> client_stopped (client s) \<Longrightarrow>
    client_stopped (client t) \<and> resolved (client t) = resolved (client s) \<and> connect_result (client t) = connect_result (client s)"
  by (induction rule: cl_step.induct)
    (auto simp: connect_def fetch_seq_def add_pending_def push_item_def enter_client_write_def client_do_write_def close_socket_def stop_io_def
      Let_def split: if_splits list.split)

lemma disconnect_is_final:
  assumes "cl_step\<^sup>*\<^sup>* (s\<lparr>client := disconnect (client s)\<rparr>) t"
  shows "resolved (client t) = resolved (client s) \<and> connect_result (client t) = connect_result (client s)"
proof -
  have "client_stopped (client t) \<and> resolved (client t) = resolved (disconnect (client s)) \<and>
      connect_result (client t) = connect_result (disconnect (client s))"
    using assms
  proof (induction rule: rtranclp_induct)
    case base
    then show ?case by (simp add: disconnect_def stop_io_def)
  next
    case (step t u)
    then show ?case using stopped_client_stays by auto
  qed
  then show ?thesis by (simp add: disconnect_def stop_io_def close_socket_def)
qed

lemma connect_again: "connect (disconnect c) = Some ((disconnect c)\<lparr>connect_op := Resolving, io_thread := True\<rparr>)"
  by (simp add: connect_def disconnect_def stop_io_def)


end
