(* ===== verification/Config_Print.thy ===== *)
theory Config_Print
  imports Load_Config Command_Line
begin

text \<open>
  \<^verbatim>\<open>print_config\<close> of \<^verbatim>\<open>src/load_config/load_config.cpp\<close>: the bytes it writes to the standard output, UTF-8 as in the
  source, and the types the loader accepts.
\<close>

section \<open>Printing\<close>

abbreviation nl :: char where
  "nl \<equiv> CHR 0x0A"

text \<open>The characters of the frame, three bytes each, and the triangle before a title.\<close>

definition box :: "char \<Rightarrow> string" where
  "box c = [CHR 0xE2, CHR 0x94, c]"

definition bar :: "nat \<Rightarrow> string" where
  "bar n = concat (replicate n (box CHR 0x80))"

definition mark :: string where
  "mark = [CHR 0xE2, CHR 0x96, CHR 0xB6, CHR '' '']"

definition int_str :: "int \<Rightarrow> string" where
  "int_str i = (if i < 0 then CHR ''-'' # to_string (nat (- i)) else to_string (nat i))"

definition bool_str :: "bool \<Rightarrow> string" where
  "bool_str b = (if b then ''true'' else ''false'')"

definition path_str :: "string \<Rightarrow> string" where
  "path_str p = (if p = [] then ''(empty)'' else p)"

text \<open>The lambdas \<^verbatim>\<open>sep\<close>, \<^verbatim>\<open>hdr\<close> (with the line end that always follows) and \<^verbatim>\<open>kv\<close>.\<close>

definition sep :: string where
  "sep = [nl] @ bar 42 @ [nl]"

definition hdr :: "string \<Rightarrow> string" where
  "hdr title = ''  '' @ mark @ title @ [nl]"

definition kv :: "string \<Rightarrow> string \<Rightarrow> string" where
  "kv key v = ''    '' @ key @ replicate (24 - length key) CHR '' '' @ v @ [nl]"

definition print_config :: "Config \<Rightarrow> string" where
  "print_config c =
     box CHR 0x8C @ bar 41 @ box CHR 0x90 @ [nl] @
     box CHR 0x82 @ ''  RPC Server Configuration               '' @ box CHR 0x82 @ [nl] @
     box CHR 0x9C @ bar 41 @ box CHR 0xA4 @ [nl] @
     hdr ''Server'' @
     kv ''host'' (srv_host (cfg_server c)) @
     kv ''port'' (to_string (unat (srv_port (cfg_server c)))) @
     kv ''thread_pool_size'' (int_str (sint (thread_pool_size (cfg_server c)))) @
     kv ''max_connections'' (int_str (sint (max_connections (cfg_server c)))) @
     kv ''socket_timeout_ms'' (int_str (sint (socket_timeout_ms (cfg_server c)))) @
     sep @ hdr ''ZooKeeper'' @
     kv ''host'' (zk_host (cfg_zk c)) @
     kv ''port'' (to_string (unat (zk_port (cfg_zk c)))) @
     kv ''session_timeout_ms'' (int_str (sint (session_timeout_ms (cfg_zk c)))) @
     kv ''root_path'' (root_path (cfg_zk c)) @
     kv ''services_path'' (zk_services_path (cfg_zk c)) @
     sep @ hdr ''Log'' @
     kv ''dir'' (log_dir (cfg_log c)) @
     kv ''file'' (log_file (cfg_log c)) @
     kv ''level'' (log_level (cfg_log c)) @
     kv ''max_file_size_mb'' (int_str (sint (max_file_size_mb (cfg_log c)))) @
     kv ''max_files'' (int_str (sint (max_files (cfg_log c)))) @
     sep @ hdr ''Serializer'' @
     kv ''type'' (ser_type (cfg_serializer c)) @
     sep @ hdr ''Compress'' @
     kv ''enable'' (bool_str (comp_enable (cfg_compress c))) @
     kv ''threshold'' (int_str (sint (threshold (cfg_compress c)))) @
     kv ''level'' (int_str (sint (comp_level (cfg_compress c)))) @
     sep @ hdr ''Encrypt'' @
     kv ''enable'' (bool_str (enc_enable (cfg_encrypt c))) @
     kv ''public_key_path'' (path_str (public_key_path (cfg_encrypt c))) @
     kv ''private_key_path'' (path_str (private_key_path (cfg_encrypt c))) @
     sep @ hdr ''Balancer'' @
     kv ''strategy'' (bal_strategy (cfg_balancer c)) @
     box CHR 0x94 @ bar 41 @ box CHR 0x98 @ [nl]"

section \<open>What was printed can be told\<close>

lemma until_nl:
  assumes "nl \<notin> set v" and "nl \<notin> set w"
  shows "v @ nl # xs = w @ nl # ys \<longleftrightarrow> v = w \<and> xs = ys"
  using assms
proof (induction v arbitrary: w)
  case Nil
  then show ?case by (cases w) auto
next
  case (Cons c v)
  then show ?case by (cases w) auto
qed

lemma line_inject:
  "nl \<notin> set v \<Longrightarrow> nl \<notin> set w \<Longrightarrow> kv key v @ xs = kv key w @ ys \<longleftrightarrow> v = w \<and> xs = ys"
  by (simp add: kv_def until_nl)

lemma kv_inject: "kv key v = kv key w \<longleftrightarrow> v = w"
  by (simp add: kv_def)

lemma no_nl [simp]: "nl \<notin> set (to_string n)" "nl \<notin> set (int_str i)" "nl \<notin> set (bool_str b)" "nl \<notin> set (path_str p) \<longleftrightarrow> nl \<notin> set p"
proof -
  have d: "nl \<notin> set (to_string n)" for n
    using to_string_digits [of n] by (auto simp: list_all_iff is_digit_def)
  then show "nl \<notin> set (to_string n)" "nl \<notin> set (int_str i)" by (simp_all add: int_str_def)
  show "nl \<notin> set (bool_str b)" "nl \<notin> set (path_str p) \<longleftrightarrow> nl \<notin> set p" by (simp_all add: bool_str_def path_str_def)
qed

lemma str_inject [simp]: "to_string m = to_string n \<longleftrightarrow> m = n" "int_str i = int_str j \<longleftrightarrow> i = j" "bool_str a = bool_str b \<longleftrightarrow> a = b"
proof -
  have t: "to_string k = to_string l \<longleftrightarrow> k = l" for k l
    using digits_value_to_string of_nat_eq_iff by metis
  then show "to_string m = to_string n \<longleftrightarrow> m = n" .
  have m: "to_string n \<noteq> CHR ''-'' # xs" for xs n
  proof
    assume "to_string n = CHR ''-'' # xs"
    then show False using to_string_digits [of n] by (simp add: is_digit_def)
  qed
  show "int_str i = int_str j \<longleftrightarrow> i = j"
    using m [symmetric] by (cases "i < 0"; cases "j < 0") (auto simp: int_str_def t m nat_eq_iff)
  show "bool_str a = bool_str b \<longleftrightarrow> a = b" by (simp add: bool_str_def)
qed

definition printable :: "Config \<Rightarrow> bool" where
  "printable c \<longleftrightarrow> list_all (\<lambda>v. nl \<notin> set v)
     [srv_host (cfg_server c), zk_host (cfg_zk c), root_path (cfg_zk c), zk_services_path (cfg_zk c), log_dir (cfg_log c),
      log_file (cfg_log c), log_level (cfg_log c), ser_type (cfg_serializer c), public_key_path (cfg_encrypt c),
      private_key_path (cfg_encrypt c), bal_strategy (cfg_balancer c)] \<and>
     public_key_path (cfg_encrypt c) \<noteq> ''(empty)'' \<and> private_key_path (cfg_encrypt c) \<noteq> ''(empty)''"

lemma path_str_inject: "p \<noteq> ''(empty)'' \<Longrightarrow> q \<noteq> ''(empty)'' \<Longrightarrow> path_str p = path_str q \<longleftrightarrow> p = q"
  by (auto simp: path_str_def)

text \<open>
  What \<^verbatim>\<open>print_config\<close> writes shows the whole configuration: two configurations without line ends in their strings and without
  a key file called ``(empty)'' that print the same are the same.
\<close>

theorem print_config_injective:
  assumes "printable c" and "printable d" and "print_config c = print_config d"
  shows "c = d"
proof -
  note p = assms(1,2) [unfolded printable_def list.pred_inject]
  have e: "srv_host (cfg_server c) = srv_host (cfg_server d) \<and>
      srv_port (cfg_server c) = srv_port (cfg_server d) \<and>
      thread_pool_size (cfg_server c) = thread_pool_size (cfg_server d) \<and>
      max_connections (cfg_server c) = max_connections (cfg_server d) \<and>
      socket_timeout_ms (cfg_server c) = socket_timeout_ms (cfg_server d) \<and>
      zk_host (cfg_zk c) = zk_host (cfg_zk d) \<and>
      zk_port (cfg_zk c) = zk_port (cfg_zk d) \<and>
      session_timeout_ms (cfg_zk c) = session_timeout_ms (cfg_zk d) \<and>
      root_path (cfg_zk c) = root_path (cfg_zk d) \<and>
      zk_services_path (cfg_zk c) = zk_services_path (cfg_zk d) \<and>
      log_dir (cfg_log c) = log_dir (cfg_log d) \<and>
      log_file (cfg_log c) = log_file (cfg_log d) \<and>
      log_level (cfg_log c) = log_level (cfg_log d) \<and>
      max_file_size_mb (cfg_log c) = max_file_size_mb (cfg_log d) \<and>
      max_files (cfg_log c) = max_files (cfg_log d) \<and>
      ser_type (cfg_serializer c) = ser_type (cfg_serializer d) \<and>
      comp_enable (cfg_compress c) = comp_enable (cfg_compress d) \<and>
      threshold (cfg_compress c) = threshold (cfg_compress d) \<and>
      comp_level (cfg_compress c) = comp_level (cfg_compress d) \<and>
      enc_enable (cfg_encrypt c) = enc_enable (cfg_encrypt d) \<and>
      public_key_path (cfg_encrypt c) = public_key_path (cfg_encrypt d) \<and>
      private_key_path (cfg_encrypt c) = private_key_path (cfg_encrypt d) \<and>
      bal_strategy (cfg_balancer c) = bal_strategy (cfg_balancer d)"
    using assms(3) p unfolding print_config_def
    by (simp add: line_inject kv_inject path_str_inject word_eq_iff_unsigned [symmetric] word_eq_iff_signed [symmetric])
  show ?thesis
    by (rule Config.equality) (simp_all add: e ServerConfig.equality ZkConfig.equality LogConfig.equality SerializerConfig.equality
        CompressConfig.equality EncryptConfig.equality BalancerConfig.equality)
qed

theorem print_config_injective_witness:
  "print_config (config0\<lparr>cfg_balancer := \<lparr>bal_strategy = ''random''\<rparr>\<rparr>) \<noteq> print_config config0"
  using print_config_injective [of "config0\<lparr>cfg_balancer := \<lparr>bal_strategy = ''random''\<rparr>\<rparr>" config0]
  by (auto simp: printable_def config0_def server0_def zk0_def log0_def serializer0_def encrypt0_def balancer0_def)

section \<open>Types\<close>

datatype jty = TStr | TBool | TU16 | TI32

fun has_type :: "jty \<Rightarrow> json \<Rightarrow> bool" where
  "has_type TStr v = (case v of JString s \<Rightarrow> True | _ \<Rightarrow> False)"
| "has_type TBool v = (case v of JBool b \<Rightarrow> True | _ \<Rightarrow> False)"
| "has_type TU16 v = (case v of JInt n \<Rightarrow> True | JBool b \<Rightarrow> True | JFloat n \<Rightarrow> 0 \<le> n \<and> n < 65536 | _ \<Rightarrow> False)"
| "has_type TI32 v = (case v of JInt n \<Rightarrow> True | JBool b \<Rightarrow> True | JFloat n \<Rightarrow> - (2 ^ 31) \<le> n \<and> n < 2 ^ 31 | _ \<Rightarrow> False)"

text \<open>The schema the loader implements: the sections, their keys and the types of the members they set.\<close>

definition schema :: "(string \<times> (string \<times> jty) list) list" where
  "schema = [
     (''server'', [(''host'', TStr), (''port'', TU16), (''thread_pool_size'', TI32), (''max_connections'', TI32), (''socket_timeout_ms'', TI32)]),
     (''zk'', [(''host'', TStr), (''port'', TU16), (''session_timeout_ms'', TI32), (''root_path'', TStr), (''services_path'', TStr)]),
     (''log'', [(''dir'', TStr), (''file'', TStr), (''level'', TStr), (''max_file_size_mb'', TI32), (''max_files'', TI32)]),
     (''serializer'', [(''type'', TStr)]),
     (''compress'', [(''enable'', TBool), (''threshold'', TI32), (''level'', TI32)]),
     (''encrypt'', [(''enable'', TBool), (''public_key_path'', TStr), (''private_key_path'', TStr)]),
     (''balancer'', [(''strategy'', TStr)])]"

definition section_typed :: "(string \<times> jty) list \<Rightarrow> json \<Rightarrow> bool" where
  "section_typed ks j = (case j of
     JObject kvs \<Rightarrow> list_all (\<lambda>(key, ty). case map_of kvs key of None \<Rightarrow> True | Some v \<Rightarrow> has_type ty v) ks
   | _ \<Rightarrow> False)"

definition well_typed :: "json \<Rightarrow> bool" where
  "well_typed j = list_all (\<lambda>(key, ks). contains j key \<longrightarrow> section_typed ks (json_at j key)) schema"

definition returns :: "'a res \<Rightarrow> bool" where
  "returns r \<longleftrightarrow> (\<exists>x. r = Ret x)"

lemma returns_bindR: "returns (bindR r f) \<longleftrightarrow> (\<exists>x. r = Ret x \<and> returns (f x))"
  by (cases r) (auto simp: returns_def)

lemma returns_Ret [simp]: "returns (Ret x)"
  by (simp add: returns_def)

lemma conv_returns:
  "returns (to_str v) = has_type TStr v" "returns (to_bool v) = has_type TBool v" "returns (to_u16 v) = has_type TU16 v"
  "returns (to_i32 v) = has_type TI32 v"
  by (cases v; simp add: returns_def)+

definition member_typed :: "jty \<Rightarrow> json \<Rightarrow> string \<Rightarrow> bool" where
  "member_typed ty j key = section_typed [(key, ty)] j"

lemma value_returns:
  assumes "\<And>v. returns (conv v) = has_type ty v"
  shows "(\<exists>x. json_value conv j key def = Ret x) = member_typed ty j key"
  using assms by (auto simp: json_value_def member_typed_def section_typed_def returns_def split: json.split option.split)

lemmas values_return = value_returns [OF conv_returns(1)] value_returns [OF conv_returns(2)] value_returns [OF conv_returns(3)]
  value_returns [OF conv_returns(4)]

lemma section_typed_Cons: "section_typed ((key, ty) # f # fs) j = (member_typed ty j key \<and> section_typed (f # fs) j)"
  by (auto simp: section_typed_def member_typed_def split: json.split)

lemma section_typed_single: "section_typed [(key, ty)] j = member_typed ty j key"
  by (simp add: member_typed_def)

lemma sections_return:
  "returns (parse_server j) = section_typed (the (map_of schema ''server'')) j"
  "returns (parse_zk j) = section_typed (the (map_of schema ''zk'')) j"
  "returns (parse_log j) = section_typed (the (map_of schema ''log'')) j"
  "returns (parse_serializer j) = section_typed (the (map_of schema ''serializer'')) j"
  "returns (parse_compress j) = section_typed (the (map_of schema ''compress'')) j"
  "returns (parse_encrypt j) = section_typed (the (map_of schema ''encrypt'')) j"
  "returns (parse_balancer j) = section_typed (the (map_of schema ''balancer'')) j"
  by (simp_all add: parse_server_def parse_zk_def parse_log_def parse_serializer_def parse_compress_def parse_encrypt_def
      parse_balancer_def returns_bindR schema_def section_typed_Cons section_typed_single values_return)

lemma section_returns: "(\<exists>x. section_of parse j key def = Ret x) = (contains j key \<longrightarrow> returns (parse (json_at j key)))"
  by (simp add: section_of_def returns_def)

lemma config_returns: "returns (config_of j) = well_typed j"
  by (simp add: config_of_def returns_bindR section_returns sections_return well_typed_def schema_def)

text \<open>The only failures are the exception of the JSON library and the cast of a floating-point number out of range.\<close>

definition type_result :: "'a res \<Rightarrow> bool" where
  "type_result r \<longleftrightarrow> returns r \<or> r = Throw type_error \<or> r = UB"

lemma type_result_bindR: "type_result r \<Longrightarrow> (\<And>x. type_result (f x)) \<Longrightarrow> type_result (bindR r f)"
  by (cases r) (auto simp: type_result_def returns_def)

lemma type_result_value:
  "type_result (json_value to_str j key def1)" "type_result (json_value to_bool j key def2)"
  "type_result (json_value to_u16 j key def3)" "type_result (json_value to_i32 j key def4)"
proof -
  have "type_result (to_str v)" "type_result (to_bool v)" "type_result (to_u16 v)" "type_result (to_i32 v)" for v
    by (cases v; simp add: type_result_def returns_def)+
  then show "type_result (json_value to_str j key def1)" "type_result (json_value to_bool j key def2)"
    "type_result (json_value to_u16 j key def3)" "type_result (json_value to_i32 j key def4)"
    by (auto simp: json_value_def split: json.split option.split) (simp_all add: type_result_def)
qed

lemma type_result_section: "(\<And>k. type_result (parse k)) \<Longrightarrow> type_result (section_of parse j key def)"
  by (simp add: section_of_def) (simp add: type_result_def)

lemma type_result_Ret [simp]: "type_result (Ret x)"
  by (simp add: type_result_def)

lemma config_type_result: "type_result (config_of j)"
  unfolding config_of_def parse_server_def parse_zk_def parse_log_def parse_serializer_def parse_compress_def parse_encrypt_def
    parse_balancer_def
  by (intro type_result_bindR type_result_section type_result_value type_result_Ret)

text \<open>
  C36: the types of a configuration file. A file that parses is loaded exactly when every section it has is an object and
  every key in it that the loader knows has the type of the member it sets; anything else in it is ignored. A file that is not
  of this form is not loaded, with \<^verbatim>\<open>type_error\<close> as the only exception.
\<close>

theorem config_loads_iff_typed:
  assumes "fs f = Some t" and "parse t = Some j"
  shows "((\<exists>c. load_config parse fs f = Ret c) \<longleftrightarrow> well_typed j) \<and>
    (\<not> well_typed j \<longrightarrow> load_config parse fs f = Throw type_error \<or> load_config parse fs f = UB)"
proof -
  have "load_config parse fs f = config_of j" using assms by (simp add: load_config_def)
  then show ?thesis
    using config_returns [of j] config_type_result [of j] by (auto simp: returns_def type_result_def)
qed

theorem config_loads_iff_typed_witness:
  "\<exists>c. load_config (\<lambda>t. Some (JObject [(''server'', JObject [(''port'', JInt 9000), (''comment'', JNull)])])) (\<lambda>f. Some '''') ''x'' = Ret c"
  using config_loads_iff_typed [of "\<lambda>f. Some ''''" "''x''" "''''"
      "\<lambda>t. Some (JObject [(''server'', JObject [(''port'', JInt 9000), (''comment'', JNull)])])"
      "JObject [(''server'', JObject [(''port'', JInt 9000), (''comment'', JNull)])]"]
  by (simp add: well_typed_def schema_def contains_def json_at_def section_typed_def)

end
