(* ===== verification/Zk_Proto.thy ===== *)
theory Zk_Proto
  imports Rpc_Protocol
begin

text \<open>
  \<^verbatim>\<open>include/zk_client/zk_proto.hpp\<close>: the part of ZooKeeper's wire protocol the bundled client speaks. A writer
  appends to a buffer. A reader moves a pointer \<^verbatim>\<open>p\<close> through the bytes of a reply without knowing where they
  end: it is a function of the bytes and the position that is undefined when it reads past them. Signed
  integers are words, read with \<^const>\<open>sint\<close>. The layouts are the encodings a server sends; for each reply the
  theory shows what its reader makes of them.
\<close>

section \<open>Writers\<close>

definition be64 :: "i64 \<Rightarrow> string" where
  "be64 v = be32 (ucast (drop_bit 32 v)) @ be32 (ucast v)"

definition of_be64 :: "string \<Rightarrow> i64" where
  "of_be64 s = push_bit 32 (ucast (of_be32 (take 4 s))) OR ucast (of_be32 (drop 4 s))"

definition write_int32 :: "string \<Rightarrow> i32 \<Rightarrow> string" where
  "write_int32 buf v = buf @ be32 v"

definition write_int64 :: "string \<Rightarrow> i64 \<Rightarrow> string" where
  "write_int64 buf v = buf @ be64 v"

definition write_bool :: "string \<Rightarrow> bool \<Rightarrow> string" where
  "write_bool buf v = buf @ [if v then CHR 0x01 else CHR 0x00]"

definition write_string :: "string \<Rightarrow> string \<Rightarrow> string" where
  "write_string buf s = write_int32 buf (word_of_nat (length s)) @ s"

definition write_buffer :: "string \<Rightarrow> string \<Rightarrow> string" where
  "write_buffer buf d = write_int32 buf (word_of_nat (length d)) @ d"

section \<open>Readers\<close>

definition read_int32 :: "string \<Rightarrow> nat \<Rightarrow> (i32 \<times> nat) res" where
  "read_int32 d p = bindR (peek d p 4) (\<lambda>be. Ret (of_be32 be, p + 4))"

definition read_int64 :: "string \<Rightarrow> nat \<Rightarrow> (i64 \<times> nat) res" where
  "read_int64 d p = bindR (peek d p 8) (\<lambda>be. Ret (of_be64 be, p + 8))"

definition read_bool :: "string \<Rightarrow> nat \<Rightarrow> (bool \<times> nat) res" where
  "read_bool d p = bindR (peek d p 1) (\<lambda>c. Ret (c ! 0 \<noteq> NUL, p + 1))"

text \<open>
  The string constructor takes the length as \<^verbatim>\<open>size_t\<close>: a negative one exceeds \<^verbatim>\<open>max_size()\<close> and throws
  \<^verbatim>\<open>std::length_error\<close>. The vector constructor takes two pointers, which a negative length puts in the wrong order.
\<close>

definition read_string :: "string \<Rightarrow> nat \<Rightarrow> (string \<times> nat) res" where
  "read_string d p =
     bindR (read_int32 d p) (\<lambda>(len, p).
       if sint len < 0 then Throw (StdException ''length_error'')
       else bindR (peek d p (unat len)) (\<lambda>s. Ret (s, p + unat len)))"

definition read_buffer :: "string \<Rightarrow> nat \<Rightarrow> (string \<times> nat) res" where
  "read_buffer d p =
     bindR (read_int32 d p) (\<lambda>(len, p).
       if sint len < 0 then UB
       else bindR (peek d p (unat len)) (\<lambda>s. Ret (s, p + unat len)))"

section \<open>Operations and structures\<close>

datatype op_code = op_auth | op_create | op_remove | op_exists | op_get_data | op_set_data | op_get_acl
  | op_set_acl | op_get_children | op_sync | op_ping | op_close_session

fun op_code_value :: "op_code \<Rightarrow> i32" where
  "op_code_value op_auth = 100"
| "op_code_value op_create = 1"
| "op_code_value op_remove = 2"
| "op_code_value op_exists = 3"
| "op_code_value op_get_data = 4"
| "op_code_value op_set_data = 5"
| "op_code_value op_get_acl = 6"
| "op_code_value op_set_acl = 7"
| "op_code_value op_get_children = 8"
| "op_code_value op_sync = 9"
| "op_code_value op_ping = 11"
| "op_code_value op_close_session = -11"

record zk_stat =
  czxid :: i64
  mzxid :: i64
  ctime :: i64
  mtime :: i64
  stat_version :: i32
  cversion :: i32
  aversion :: i32
  ephemeral_owner :: i64
  data_length :: i32
  num_children :: i32
  pzxid :: i64

definition read_stat :: "string \<Rightarrow> nat \<Rightarrow> (zk_stat \<times> nat) res" where
  "read_stat d p =
     bindR (read_int64 d p) (\<lambda>(cz, p).
     bindR (read_int64 d p) (\<lambda>(mz, p).
     bindR (read_int64 d p) (\<lambda>(ct, p).
     bindR (read_int64 d p) (\<lambda>(mt, p).
     bindR (read_int32 d p) (\<lambda>(v, p).
     bindR (read_int32 d p) (\<lambda>(cv, p).
     bindR (read_int32 d p) (\<lambda>(av, p).
     bindR (read_int64 d p) (\<lambda>(eo, p).
     bindR (read_int32 d p) (\<lambda>(dl, p).
     bindR (read_int32 d p) (\<lambda>(nc, p).
     bindR (read_int64 d p) (\<lambda>(pz, p).
     Ret (\<lparr>czxid = cz, mzxid = mz, ctime = ct, mtime = mt, stat_version = v, cversion = cv, aversion = av,
           ephemeral_owner = eo, data_length = dl, num_children = nc, pzxid = pz\<rparr>, p))))))))))))"

record zk_acl =
  perms :: i32
  scheme :: string
  acl_id :: string

definition PERM_ALL :: i32 where "PERM_ALL = 0b11111"

definition serialize_acl :: "string \<Rightarrow> zk_acl \<Rightarrow> string" where
  "serialize_acl buf a = write_string (write_string (write_int32 buf (perms a)) (scheme a)) (acl_id a)"

definition acl_open_unsafe :: "zk_acl list" where
  "acl_open_unsafe = [\<lparr>perms = PERM_ALL, scheme = ''world'', acl_id = ''anyone''\<rparr>]"

definition zk_request_header :: "string \<Rightarrow> i32 \<Rightarrow> i32 \<Rightarrow> string" where
  "zk_request_header buf x opcode = write_int32 (write_int32 buf x) opcode"

record reply_header =
  reply_xid :: i32
  zxid :: i64
  reply_err :: i32

definition read_reply_header :: "string \<Rightarrow> nat \<Rightarrow> (reply_header \<times> nat) res" where
  "read_reply_header d p =
     bindR (read_int32 d p) (\<lambda>(x, p).
     bindR (read_int64 d p) (\<lambda>(z, p).
     bindR (read_int32 d p) (\<lambda>(e, p).
     Ret (\<lparr>reply_xid = x, zxid = z, reply_err = e\<rparr>, p))))"

section \<open>Requests and replies\<close>

record connect_request =
  cr_protocol_version :: i32
  last_zxid_seen :: i64
  cr_timeout_ms :: i32
  cr_session_id :: i64
  cr_passwd :: string
  cr_read_only :: bool

definition connect_request0 :: connect_request where
  "connect_request0 = \<lparr>cr_protocol_version = 0, last_zxid_seen = 0, cr_timeout_ms = 4000, cr_session_id = 0,
     cr_passwd = replicate 16 NUL, cr_read_only = False\<rparr>"

definition serialize_connect :: "connect_request \<Rightarrow> string" where
  "serialize_connect r =
     (let buf = write_int32 [] (cr_protocol_version r);
          buf = write_int64 buf (last_zxid_seen r);
          buf = write_int32 buf (cr_timeout_ms r);
          buf = write_int64 buf (cr_session_id r);
          buf = write_buffer buf (cr_passwd r)
      in write_bool buf (cr_read_only r))"

record connect_response =
  cs_protocol_version :: i32
  cs_timeout_ms :: i32
  cs_session_id :: i64
  cs_passwd :: string
  cs_read_only :: bool

definition read_connect_response :: "string \<Rightarrow> nat \<Rightarrow> (connect_response \<times> nat) res" where
  "read_connect_response d p =
     bindR (read_int32 d p) (\<lambda>(v, p).
     bindR (read_int32 d p) (\<lambda>(t, p).
     bindR (read_int64 d p) (\<lambda>(s, p).
     bindR (read_buffer d p) (\<lambda>(pw, p).
     bindR (read_bool d p) (\<lambda>(ro, p).
     Ret (\<lparr>cs_protocol_version = v, cs_timeout_ms = t, cs_session_id = s, cs_passwd = pw,
           cs_read_only = ro\<rparr>, p))))))"

definition serialize_create :: "string \<Rightarrow> string \<Rightarrow> zk_acl list \<Rightarrow> i32 \<Rightarrow> string" where
  "serialize_create path d acls fl =
     (let buf = write_string [] path;
          buf = write_buffer buf d;
          buf = write_int32 buf (word_of_nat (length acls));
          buf = foldl serialize_acl buf acls
      in write_int32 buf fl)"

definition serialize_path_watch :: "string \<Rightarrow> bool \<Rightarrow> string" where
  "serialize_path_watch path watch = write_bool (write_string [] path) watch"

definition serialize_delete :: "string \<Rightarrow> i32 \<Rightarrow> string" where
  "serialize_delete path v = write_int32 (write_string [] path) v"

datatype zk_response = CreateResponse string | ChildrenResponse "string list" | DataResponse string zk_stat
  | ExistsResponse zk_stat

definition read_create_response :: "string \<Rightarrow> nat \<Rightarrow> (zk_response \<times> nat) res" where
  "read_create_response d p = bindR (read_string d p) (\<lambda>(s, p). Ret (CreateResponse s, p))"

fun read_strings :: "nat \<Rightarrow> string \<Rightarrow> nat \<Rightarrow> (string list \<times> nat) res" where
  "read_strings 0 d p = Ret ([], p)"
| "read_strings (Suc n) d p =
     bindR (read_string d p) (\<lambda>(s, p). bindR (read_strings n d p) (\<lambda>(ss, p). Ret (s # ss, p)))"

definition read_children_response :: "string \<Rightarrow> nat \<Rightarrow> (zk_response \<times> nat) res" where
  "read_children_response d p =
     bindR (read_int32 d p) (\<lambda>(count, p).
     bindR (read_strings (nat (sint count)) d p) (\<lambda>(cs, p). Ret (ChildrenResponse cs, p)))"

definition read_data_response :: "string \<Rightarrow> nat \<Rightarrow> (zk_response \<times> nat) res" where
  "read_data_response d p =
     bindR (read_buffer d p) (\<lambda>(b, p). bindR (read_stat d p) (\<lambda>(st, p). Ret (DataResponse b st, p)))"

definition read_exists_response :: "string \<Rightarrow> nat \<Rightarrow> (zk_response \<times> nat) res" where
  "read_exists_response d p = bindR (read_stat d p) (\<lambda>(st, p). Ret (ExistsResponse st, p))"

definition make_zpayload :: "string \<Rightarrow> string" where
  "make_zpayload body = write_int32 [] (word_of_nat (length body)) @ body"

definition zk_error_str :: "int \<Rightarrow> string" where
  "zk_error_str err =
     (if err = 0 then ''ok'' else if err = -1 then ''system error''
      else if err = -2 then ''runtime inconsistency'' else if err = -3 then ''data inconsistency''
      else if err = -4 then ''connection loss'' else if err = -5 then ''marshalling error''
      else if err = -6 then ''unimplemented'' else if err = -7 then ''operation timeout''
      else if err = -8 then ''bad arguments'' else if err = -100 then ''api error''
      else if err = -101 then ''no node'' else if err = -102 then ''no auth''
      else if err = -103 then ''bad version'' else if err = -108 then ''no children for ephemerals''
      else if err = -110 then ''node exists'' else if err = -111 then ''not empty'' else ''unknown error'')"

section \<open>Layouts\<close>

lemma length_be64 [simp]: "length (be64 v) = 8"
  by (simp add: be64_def)

lemma of_be64_be64 [simp]: "of_be64 (be64 v) = v"
  by (rule bit_word_eqI) (auto simp: of_be64_def be64_def bit_simps)

lemma sint_of_length [simp]: "n < 2 ^ 31 \<Longrightarrow> sint (word_of_nat n :: i32) = int n"
  by (simp add: signed_of_nat signed_take_bit_int_eq_self)

lemma unat_len31 [simp]: "n < 2 ^ 31 \<Longrightarrow> unat (word_of_nat n :: i32) = n"
  by (simp add: unat_of_nat take_bit_eq_mod)

definition fits31 :: "string \<Rightarrow> bool" where
  "fits31 s \<longleftrightarrow> length s < 2 ^ 31"

definition string_layout :: "string \<Rightarrow> string" where
  "string_layout s = be32 (word_of_nat (length s)) @ s"

definition stat_layout :: "zk_stat \<Rightarrow> string" where
  "stat_layout st = be64 (czxid st) @ be64 (mzxid st) @ be64 (ctime st) @ be64 (mtime st) @
     be32 (stat_version st) @ be32 (cversion st) @ be32 (aversion st) @ be64 (ephemeral_owner st) @
     be32 (data_length st) @ be32 (num_children st) @ be64 (pzxid st)"

definition reply_layout :: "reply_header \<Rightarrow> string" where
  "reply_layout r = be32 (reply_xid r) @ be64 (zxid r) @ be32 (reply_err r)"

definition connect_layout :: "connect_response \<Rightarrow> string" where
  "connect_layout r = be32 (cs_protocol_version r) @ be32 (cs_timeout_ms r) @ be64 (cs_session_id r) @
     string_layout (cs_passwd r) @ [if cs_read_only r then CHR 0x01 else CHR 0x00]"

fun zk_response_layout :: "zk_response \<Rightarrow> string" where
  "zk_response_layout (CreateResponse s) = string_layout s"
| "zk_response_layout (ChildrenResponse cs) = be32 (word_of_nat (length cs)) @ concat (map string_layout cs)"
| "zk_response_layout (DataResponse b st) = string_layout b @ stat_layout st"
| "zk_response_layout (ExistsResponse st) = stat_layout st"

fun zk_response_fits :: "zk_response \<Rightarrow> bool" where
  "zk_response_fits (CreateResponse s) \<longleftrightarrow> fits31 s"
| "zk_response_fits (ChildrenResponse cs) \<longleftrightarrow> length cs < 2 ^ 31 \<and> list_all fits31 cs"
| "zk_response_fits (DataResponse b st) \<longleftrightarrow> fits31 b"
| "zk_response_fits (ExistsResponse st) \<longleftrightarrow> True"

section \<open>The contract of a reader\<close>

text \<open>
  A reader that finds its layout at the pointer returns the value and moves the pointer behind it; and a
  reader that returns has stayed inside the bytes.
\<close>

locale wire_reader =
  fixes rd :: "string \<Rightarrow> nat \<Rightarrow> ('a \<times> nat) res" and lay :: "'a \<Rightarrow> string" and ok :: "'a \<Rightarrow> bool"
  assumes reads: "ok x \<Longrightarrow> length pre = p \<Longrightarrow> rd (pre @ lay x @ post) p = Ret (x, p + length (lay x))"
    and inside: "rd d p = Ret (x, q) \<Longrightarrow> p \<le> q \<and> q \<le> length d"
begin

fun rd_many :: "nat \<Rightarrow> string \<Rightarrow> nat \<Rightarrow> ('a list \<times> nat) res" where
  "rd_many 0 d p = Ret ([], p)"
| "rd_many (Suc n) d p = bindR (rd d p) (\<lambda>(x, p). bindR (rd_many n d p) (\<lambda>(xs, p). Ret (x # xs, p)))"

lemma rd_many_reads:
  "list_all ok xs \<Longrightarrow> length pre = p \<Longrightarrow>
   rd_many (length xs) (pre @ concat (map lay xs) @ post) p = Ret (xs, p + length (concat (map lay xs)))"
proof (induction xs arbitrary: pre p)
  case (Cons x xs)
  have "rd (pre @ lay x @ (concat (map lay xs) @ post)) p = Ret (x, p + length (lay x))"
    using Cons.prems by (intro reads) auto
  moreover have "rd_many (length xs) ((pre @ lay x) @ concat (map lay xs) @ post) (p + length (lay x)) =
      Ret (xs, p + length (lay x) + length (concat (map lay xs)))"
    using Cons.prems by (intro Cons.IH) auto
  ultimately show ?case by simp
qed simp

lemma rd_many_inside: "rd_many n d p = Ret (xs, q) \<Longrightarrow> p \<le> length d \<Longrightarrow> p \<le> q \<and> q \<le> length d"
proof (induction n arbitrary: p xs)
  case (Suc n)
  then obtain x p1 ys where "rd d p = Ret (x, p1)" "rd_many n d p1 = Ret (ys, q)"
    by (auto simp: bindR_eq_Ret)
  then show ?case using inside [of d p x p1] Suc.IH [of p1 ys] by auto
qed simp

end

lemmas zk_read_defs = read_int32_def read_int64_def read_bool_def read_string_def read_buffer_def peek_def

interpretation rd_i32: wire_reader read_int32 be32 "\<lambda>_. True"
  by unfold_locales (auto simp: zk_read_defs split: if_splits)

interpretation rd_i64: wire_reader read_int64 be64 "\<lambda>_. True"
  by unfold_locales (auto simp: zk_read_defs split: if_splits)

interpretation rd_str: wire_reader read_string string_layout fits31
  by unfold_locales
    (auto simp: zk_read_defs string_layout_def fits31_def bindR_eq_Ret split: if_splits)

interpretation rd_buf: wire_reader read_buffer string_layout fits31
  by unfold_locales
    (auto simp: zk_read_defs string_layout_def fits31_def bindR_eq_Ret split: if_splits)

interpretation rd_stat: wire_reader read_stat stat_layout "\<lambda>_. True"
proof unfold_locales
  show "read_stat (pre @ stat_layout x @ post) p = Ret (x, p + length (stat_layout x))" if "length pre = p" for pre p post x
    using that by (simp add: read_stat_def stat_layout_def zk_read_defs)
  show "p \<le> q \<and> q \<le> length d" if "read_stat d p = Ret (x, q)" for d p x q
    using that by (auto simp: read_stat_def bindR_eq_Ret zk_read_defs split: if_splits)
qed

interpretation rd_reply: wire_reader read_reply_header reply_layout "\<lambda>_. True"
  by unfold_locales (auto simp: read_reply_header_def reply_layout_def zk_read_defs bindR_eq_Ret split: if_splits)

interpretation rd_conn: wire_reader read_connect_response connect_layout "\<lambda>r. fits31 (cs_passwd r)"
proof unfold_locales
  show "read_connect_response (pre @ connect_layout x @ post) p = Ret (x, p + length (connect_layout x))"
    if "fits31 (cs_passwd x)" "length pre = p" for pre p post x
    using that
    by (cases x) (simp add: read_connect_response_def connect_layout_def string_layout_def fits31_def zk_read_defs)
  show "p \<le> q \<and> q \<le> length d" if "read_connect_response d p = Ret (x, q)" for d p x q
    using that by (auto simp: read_connect_response_def bindR_eq_Ret zk_read_defs split: if_splits)
qed

section \<open>Replies by kind\<close>

text \<open>The template argument \<^verbatim>\<open>Response\<close> of \<^verbatim>\<open>send_request\<close>.\<close>

datatype zk_kind = CreateKind | ChildrenKind | DataKind | ExistsKind

fun read_response :: "zk_kind \<Rightarrow> string \<Rightarrow> nat \<Rightarrow> (zk_response \<times> nat) res" where
  "read_response CreateKind = read_create_response"
| "read_response ChildrenKind = read_children_response"
| "read_response DataKind = read_data_response"
| "read_response ExistsKind = read_exists_response"

fun kind_of :: "zk_response \<Rightarrow> zk_kind" where
  "kind_of (CreateResponse s) = CreateKind"
| "kind_of (ChildrenResponse cs) = ChildrenKind"
| "kind_of (DataResponse b st) = DataKind"
| "kind_of (ExistsResponse st) = ExistsKind"

lemma read_strings_eq: "read_strings n d p = rd_str.rd_many n d p"
  by (induction n arbitrary: p) auto

lemma read_response_layout:
  assumes "zk_response_fits r" and "length pre = p"
  shows "read_response (kind_of r) (pre @ zk_response_layout r @ post) p =
    Ret (r, p + length (zk_response_layout r))"
proof (cases r)
  case (CreateResponse s)
  with assms show ?thesis using rd_str.reads [of s pre p post] by (simp add: read_create_response_def)
next
  case (ChildrenResponse cs)
  let ?n = "be32 (word_of_nat (length cs))"
  have "read_int32 (pre @ ?n @ (concat (map string_layout cs) @ post)) p = Ret (word_of_nat (length cs), p + 4)"
    using rd_i32.reads [of pre p "word_of_nat (length cs)"] assms(2) by simp
  moreover have "rd_str.rd_many (length cs) ((pre @ ?n) @ concat (map string_layout cs) @ post) (p + 4) =
      Ret (cs, p + 4 + length (concat (map string_layout cs)))"
    using assms ChildrenResponse by (intro rd_str.rd_many_reads) auto
  ultimately show ?thesis
    using assms ChildrenResponse by (simp add: read_children_response_def read_strings_eq)
next
  case (DataResponse b st)
  have "read_buffer (pre @ string_layout b @ (stat_layout st @ post)) p = Ret (b, p + length (string_layout b))"
    using assms DataResponse by (intro rd_buf.reads) auto
  moreover have "read_stat ((pre @ string_layout b) @ stat_layout st @ post) (p + length (string_layout b)) =
      Ret (st, p + length (string_layout b) + length (stat_layout st))"
    using assms(2) by (intro rd_stat.reads) auto
  ultimately show ?thesis using DataResponse by (simp add: read_data_response_def)
next
  case (ExistsResponse st)
  with assms show ?thesis using rd_stat.reads [of pre p st post] by (simp add: read_exists_response_def)
qed

lemma read_reply_bound: "read_reply_header d p \<noteq> UB \<longleftrightarrow> p + 16 \<le> length d"
  by (auto simp: read_reply_header_def zk_read_defs)

lemma length_write [simp]:
  "length (write_int32 b v) = length b + 4" "length (write_int64 b w) = length b + 8"
  "length (write_bool b x) = length b + 1"
  by (simp_all add: write_int32_def write_int64_def write_bool_def)

section \<open>Properties\<close>

text \<open>
  The client reads what a server sends: the bytes of a reply header followed by the encoding of a
  response, whatever comes after them, are read as that header and that response, for each of the four kinds of
  response. The lengths must be non-negative \<^verbatim>\<open>int32_t\<close>s.
\<close>

theorem zk_reply_read:
  assumes "zk_response_fits r"
  shows "bindR (read_reply_header (reply_layout rh @ zk_response_layout r @ rest) 0)
      (\<lambda>(h, p). bindR (read_response (kind_of r) (reply_layout rh @ zk_response_layout r @ rest) p)
        (\<lambda>(x, q). Ret (h, x))) = Ret (rh, r)"
proof -
  have "read_reply_header ([] @ reply_layout rh @ (zk_response_layout r @ rest)) 0 =
      Ret (rh, 0 + length (reply_layout rh))"
    by (intro rd_reply.reads) auto
  then show ?thesis
    using read_response_layout [OF assms, of "reply_layout rh" "length (reply_layout rh)" rest] by simp
qed

theorem zk_reply_read_witness:
  "zk_response_fits (ChildrenResponse [''node-1'', ''node-2'']) \<and>
   read_response ChildrenKind (be32 2 @ be32 6 @ ''node-1'' @ be32 6 @ ''node-2'') 0 =
     Ret (ChildrenResponse [''node-1'', ''node-2''], 24)"
proof -
  let ?r = "ChildrenResponse [''node-1'', ''node-2'']"
  have fit: "zk_response_fits ?r" by (simp add: fits31_def)
  define rh where "rh = \<lparr>reply_xid = 1, zxid = 0, reply_err = 0\<rparr>"
  have "bindR (read_reply_header (reply_layout rh @ zk_response_layout ?r @ []) 0)
      (\<lambda>(h, p). bindR (read_response (kind_of ?r) (reply_layout rh @ zk_response_layout ?r @ []) p)
        (\<lambda>(x, q). Ret (h, x))) = Ret (rh, ?r)"
    using fit by (rule zk_reply_read)
  moreover have "read_response ChildrenKind ([] @ zk_response_layout ?r @ []) 0 = Ret (?r, 0 + length (zk_response_layout ?r))"
    using read_response_layout [OF fit, of "[]" 0 "[]"] by simp
  ultimately show ?thesis using fit by (simp add: string_layout_def)
qed

text \<open>
  The readers trust the bytes. A reply shorter than its 16-byte header is read past its end, and so is the data of a
  node whose length field is negative, which is how ZooKeeper encodes a node without data.
\<close>

theorem zk_readers_trust_lengths:
  "(read_reply_header d 0 = UB \<longleftrightarrow> length d < 16) \<and>
   (read_data_response (be32 n @ rest) 0 = UB \<or> 0 \<le> sint n)"
  using read_reply_bound [of d 0] by (auto simp: read_data_response_def read_buffer_def read_int32_def peek_def)

end
