(* ===== verification/Zk_Client.thy ===== *)
theory Zk_Client
  imports Zk_Proto Std_Containers "HOL-Library.Multiset"
begin

text \<open>
  \<^verbatim>\<open>include/zk_client/zk_client.hpp\<close>: the ZooKeeper client. The state keeps the requests waiting for a reply
  (\<^verbatim>\<open>pending_\<close>, a promise and the type its reply is read as), the write-then-read cycle each request is in,
  and the handshake of \<^verbatim>\<open>connect\<close>. Promises are numbered in the order of the requests; \<open>settled\<close> records every
  \<^verbatim>\<open>set_value\<close>. A handler that throws does so out of the \<^verbatim>\<open>io_context\<close>.
\<close>

section \<open>Results\<close>

record 'a zk_result =
  ok_val :: "'a option"
  err_msg :: string

definition make_ok :: "'a \<Rightarrow> 'a zk_result" where
  "make_ok v = \<lparr>ok_val = Some v, err_msg = []\<rparr>"

definition make_error :: "string \<Rightarrow> 'a zk_result" where
  "make_error msg = \<lparr>ok_val = None, err_msg = msg\<rparr>"

definition is_ok :: "'a zk_result \<Rightarrow> bool" where
  "is_ok r \<longleftrightarrow> ok_val r \<noteq> None"

definition is_err :: "'a zk_result \<Rightarrow> bool" where
  "is_err r \<longleftrightarrow> \<not> is_ok r"

text \<open>The specialisation \<^verbatim>\<open>result<void>\<close>.\<close>

record void_result =
  void_msg :: string
  has_err :: bool

definition void_ok :: void_result where
  "void_ok = \<lparr>void_msg = [], has_err = False\<rparr>"

definition void_error :: "string \<Rightarrow> void_result" where
  "void_error msg = void_ok\<lparr>void_msg := msg\<rparr>"

definition void_is_ok :: "void_result \<Rightarrow> bool" where
  "void_is_ok r \<longleftrightarrow> \<not> has_err r"

definition void_is_err :: "void_result \<Rightarrow> bool" where
  "void_is_err r \<longleftrightarrow> has_err r"

section \<open>State\<close>

datatype zk_value = ResponseResult "zk_response zk_result" | VoidResult void_result

datatype zk_stage = Posted string | Writing string | AwaitLength | AwaitBody nat

datatype zk_handshake = HsIdle | HsConnecting | HsWriting string | HsAwaitLength | HsAwaitBody nat

text \<open>A pending entry: the promise and the type of its reply, \<^const>\<open>None\<close> for \<^verbatim>\<open>send_request_void\<close>.\<close>

record zk_client =
  zk_pending :: "(i32, nat \<times> zk_kind option) umap"
  xid :: i32
  session_id :: i64
  passwd :: string
  zk_timeout_ms :: i32
  zk_connected :: bool
  handshake :: zk_handshake
  connect_value :: "void_result option"
  cycles :: "(i32, zk_stage) umap"
  requests :: nat
  settled :: "(nat \<times> zk_value) list"

definition zk_client0 :: zk_client where
  "zk_client0 = \<lparr>zk_pending = [], xid = 1, session_id = 0, passwd = replicate 16 NUL, zk_timeout_ms = 4000,
     zk_connected = False, handshake = HsIdle, connect_value = None, cycles = [], requests = 0, settled = []\<rparr>"

section \<open>Connecting\<close>

definition zk_connect :: "ec \<Rightarrow> i32 \<Rightarrow> zk_client \<Rightarrow> zk_client" where
  "zk_connect resolve_ec timeout c =
     (let c = c\<lparr>zk_timeout_ms := timeout\<rparr> in
      case resolve_ec of
        Failure m \<Rightarrow> c\<lparr>connect_value := Some (void_error m)\<rparr>
      | Success \<Rightarrow> c\<lparr>handshake := HsConnecting\<rparr>)"

definition do_handshake :: "zk_client \<Rightarrow> zk_client" where
  "do_handshake c =
     (let cr = connect_request0\<lparr>cr_timeout_ms := zk_timeout_ms c, cr_session_id := session_id c,
                                cr_passwd := passwd c\<rparr>
      in c\<lparr>handshake := HsWriting (make_zpayload (serialize_connect cr))\<rparr>)"

definition hs_fail :: "string \<Rightarrow> zk_client \<Rightarrow> zk_client" where
  "hs_fail m c = c\<lparr>handshake := HsIdle, connect_value := Some (void_error m)\<rparr>"

definition hs_connect_handler :: "ec \<Rightarrow> zk_client \<Rightarrow> zk_client" where
  "hs_connect_handler ec c = (case ec of Failure m \<Rightarrow> hs_fail m c | Success \<Rightarrow> do_handshake c)"

definition hs_write_handler :: "ec \<Rightarrow> zk_client \<Rightarrow> zk_client" where
  "hs_write_handler ec c =
     (case ec of Failure m \<Rightarrow> hs_fail m c | Success \<Rightarrow> c\<lparr>handshake := HsAwaitLength\<rparr>)"

text \<open>A negative length, as \<^verbatim>\<open>size_t\<close>, exceeds what a vector can hold.\<close>

definition vector_of_size :: "i32 \<Rightarrow> nat res" where
  "vector_of_size n = (if sint n < 0 then Throw (StdException ''length_error'') else Ret (unat n))"

definition hs_length_handler :: "ec \<Rightarrow> string \<Rightarrow> zk_client \<Rightarrow> zk_client res" where
  "hs_length_handler ec lenbuf c =
     (case ec of Failure m \<Rightarrow> Ret (hs_fail m c)
      | Success \<Rightarrow> bindR (vector_of_size (of_be32 lenbuf)) (\<lambda>n. Ret (c\<lparr>handshake := HsAwaitBody n\<rparr>)))"

definition hs_body_handler :: "ec \<Rightarrow> string \<Rightarrow> zk_client \<Rightarrow> zk_client res" where
  "hs_body_handler ec body c =
     (case ec of Failure m \<Rightarrow> Ret (hs_fail m c)
      | Success \<Rightarrow>
          bindR (read_connect_response body 0) (\<lambda>(resp, p).
            Ret (c\<lparr>handshake := HsIdle, session_id := cs_session_id resp, passwd := cs_passwd resp,
                   zk_timeout_ms := cs_timeout_ms resp, zk_connected := True,
                   connect_value := Some void_ok\<rparr>)))"

section \<open>Requests\<close>

text \<open>The two function pointers of a pending entry.\<close>

definition entry_resolve :: "zk_kind option \<Rightarrow> i32 \<Rightarrow> string \<Rightarrow> nat \<Rightarrow> zk_value res" where
  "entry_resolve kind err body p =
     (case kind of
        None \<Rightarrow> Ret (VoidResult (if sint err \<noteq> 0 then void_error (zk_error_str (sint err)) else void_ok))
      | Some k \<Rightarrow>
          if sint err \<noteq> 0 then Ret (ResponseResult (make_error (zk_error_str (sint err))))
          else bindR (read_response k body p) (\<lambda>(r, q). Ret (ResponseResult (make_ok r))))"

definition entry_reject :: "zk_kind option \<Rightarrow> string \<Rightarrow> zk_value" where
  "entry_reject kind msg =
     (case kind of None \<Rightarrow> VoidResult (void_error msg) | Some k \<Rightarrow> ResponseResult (make_error msg))"

definition settle :: "i32 \<Rightarrow> nat \<Rightarrow> zk_value \<Rightarrow> zk_client \<Rightarrow> zk_client" where
  "settle x k v c = c\<lparr>zk_pending := AList.delete x (zk_pending c), settled := settled c @ [(k, v)]\<rparr>"

definition reject_pending :: "i32 \<Rightarrow> string \<Rightarrow> zk_client \<Rightarrow> zk_client" where
  "reject_pending x msg c =
     (case map_of (zk_pending c) x of None \<Rightarrow> c | Some (k, kind) \<Rightarrow> settle x k (entry_reject kind msg) c)"

definition resolve_pending :: "i32 \<Rightarrow> i32 \<Rightarrow> string \<Rightarrow> nat \<Rightarrow> zk_client \<Rightarrow> zk_client res" where
  "resolve_pending rxid err body p c =
     (case map_of (zk_pending c) rxid of None \<Rightarrow> Ret c
      | Some (k, kind) \<Rightarrow> bindR (entry_resolve kind err body p) (\<lambda>v. Ret (settle rxid k v c)))"

definition do_send :: "i32 \<Rightarrow> op_code \<Rightarrow> string \<Rightarrow> zk_client \<Rightarrow> zk_client" where
  "do_send x op body c =
     (let full = zk_request_header [] x (op_code_value op) @ body
      in c\<lparr>cycles := AList.update x (Posted (make_zpayload full)) (cycles c)\<rparr>)"

definition send_request :: "zk_kind option \<Rightarrow> op_code \<Rightarrow> string \<Rightarrow> zk_client \<Rightarrow> nat \<times> zk_client" where
  "send_request kind op body c =
     (let k = requests c; x = xid c;
          c = c\<lparr>requests := Suc k, xid := xid c + 1\<rparr>;
          c = c\<lparr>zk_pending := AList.update x (k, kind) (zk_pending c)\<rparr>
      in (k, do_send x op body c))"

definition zk_create :: "string \<Rightarrow> string \<Rightarrow> zk_acl list \<Rightarrow> i32 \<Rightarrow> zk_client \<Rightarrow> nat \<times> zk_client" where
  "zk_create path d acls fl = send_request (Some CreateKind) op_create (serialize_create path d acls fl)"

definition zk_get_children :: "string \<Rightarrow> bool \<Rightarrow> zk_client \<Rightarrow> nat \<times> zk_client" where
  "zk_get_children path watch = send_request (Some ChildrenKind) op_get_children (serialize_path_watch path watch)"

definition zk_get_data :: "string \<Rightarrow> bool \<Rightarrow> zk_client \<Rightarrow> nat \<times> zk_client" where
  "zk_get_data path watch = send_request (Some DataKind) op_get_data (serialize_path_watch path watch)"

definition zk_exists :: "string \<Rightarrow> bool \<Rightarrow> zk_client \<Rightarrow> nat \<times> zk_client" where
  "zk_exists path watch = send_request (Some ExistsKind) op_exists (serialize_path_watch path watch)"

definition zk_remove :: "string \<Rightarrow> i32 \<Rightarrow> zk_client \<Rightarrow> nat \<times> zk_client" where
  "zk_remove path v = send_request None op_remove (serialize_delete path v)"

section \<open>The cycle of a request\<close>

definition set_cycle :: "i32 \<Rightarrow> zk_stage \<Rightarrow> zk_client \<Rightarrow> zk_client" where
  "set_cycle x st c = c\<lparr>cycles := AList.update x st (cycles c)\<rparr>"

definition end_cycle :: "i32 \<Rightarrow> zk_client \<Rightarrow> zk_client" where
  "end_cycle x c = c\<lparr>cycles := AList.delete x (cycles c)\<rparr>"

definition post_handler :: "i32 \<Rightarrow> string \<Rightarrow> zk_client \<Rightarrow> zk_client" where
  "post_handler x payload c = set_cycle x (Writing payload) c"

definition zk_write_handler :: "i32 \<Rightarrow> ec \<Rightarrow> zk_client \<Rightarrow> zk_client" where
  "zk_write_handler x ec c =
     (case ec of Failure m \<Rightarrow> reject_pending x m (end_cycle x c) | Success \<Rightarrow> set_cycle x AwaitLength c)"

definition zk_length_handler :: "i32 \<Rightarrow> ec \<Rightarrow> string \<Rightarrow> zk_client \<Rightarrow> zk_client res" where
  "zk_length_handler x ec lenbuf c =
     (case ec of Failure m \<Rightarrow> Ret (reject_pending x m (end_cycle x c))
      | Success \<Rightarrow> bindR (vector_of_size (of_be32 lenbuf)) (\<lambda>n. Ret (set_cycle x (AwaitBody n) c)))"

definition zk_body_handler :: "i32 \<Rightarrow> ec \<Rightarrow> string \<Rightarrow> zk_client \<Rightarrow> zk_client res" where
  "zk_body_handler x ec body c =
     (let c = end_cycle x c in
      case ec of Failure m \<Rightarrow> Ret (reject_pending x m c)
      | Success \<Rightarrow>
          bindR (read_reply_header body 0) (\<lambda>(rh, p). resolve_pending (reply_xid rh) (reply_err rh) body p c))"

section \<open>Interleavings\<close>

inductive zk_step :: "zk_client \<Rightarrow> zk_client \<Rightarrow> bool" where
  zs_request: "send_request kind op body c = (k, c') \<Longrightarrow> zk_step c c'"
| zs_post: "map_of (cycles c) x = Some (Posted d) \<Longrightarrow> zk_step c (post_handler x d c)"
| zs_write: "map_of (cycles c) x = Some (Writing d) \<Longrightarrow> zk_step c (zk_write_handler x ec c)"
| zs_length: "map_of (cycles c) x = Some AwaitLength \<Longrightarrow> zk_length_handler x ec buf c = Ret c' \<Longrightarrow> zk_step c c'"
| zs_body: "map_of (cycles c) x = Some (AwaitBody n) \<Longrightarrow> zk_body_handler x ec buf c = Ret c' \<Longrightarrow> zk_step c c'"
| zs_connect: "zk_step c (zk_connect ec timeout c)"
| zs_hs_connect: "handshake c = HsConnecting \<Longrightarrow> zk_step c (hs_connect_handler ec c)"
| zs_hs_write: "handshake c = HsWriting d \<Longrightarrow> zk_step c (hs_write_handler ec c)"
| zs_hs_length: "handshake c = HsAwaitLength \<Longrightarrow> hs_length_handler ec buf c = Ret c' \<Longrightarrow> zk_step c c'"
| zs_hs_body: "handshake c = HsAwaitBody n \<Longrightarrow> hs_body_handler ec buf c = Ret c' \<Longrightarrow> zk_step c c'"

inductive zk_reach :: "zk_client \<Rightarrow> bool" where
  zk_start: "zk_reach zk_client0"
| zk_more: "zk_reach c \<Longrightarrow> zk_step c c' \<Longrightarrow> zk_reach c'"

section \<open>Promises\<close>

definition xid_of :: "nat \<Rightarrow> i32" where
  "xid_of k = word_of_nat (Suc k)"

lemma xid_of_inject: "i < 2 ^ 32 \<Longrightarrow> k < 2 ^ 32 \<Longrightarrow> xid_of i = xid_of k \<longleftrightarrow> i = k"
proof -
  assume "i < 2 ^ 32" "k < 2 ^ 32"
  then have "unat (word_of_nat i :: i32) = i" "unat (word_of_nat k :: i32) = k" by (simp_all add: unat_of_nat take_bit_eq_mod)
  then show ?thesis by (metis add_right_cancel of_nat_Suc xid_of_def add.commute)
qed

definition zk_inv :: "zk_client \<Rightarrow> bool" where
  "zk_inv c \<longleftrightarrow> xid c = xid_of (requests c) \<and> umap_wf (zk_pending c) \<and>
     (\<forall>(x, (k, kind)) \<in> set (zk_pending c). x = xid_of k) \<and>
     mset (map fst (settled c)) + mset (map fst (map snd (zk_pending c))) = mset [0..<requests c]"

lemma zk_inv_cong:
  "zk_inv c \<Longrightarrow> xid c' = xid c \<Longrightarrow> zk_pending c' = zk_pending c \<Longrightarrow> settled c' = settled c \<Longrightarrow>
   requests c' = requests c \<Longrightarrow> zk_inv c'"
  by (simp add: zk_inv_def)

lemma cycle_frame [simp]:
  "xid (set_cycle x st c) = xid c" "zk_pending (set_cycle x st c) = zk_pending c"
  "settled (set_cycle x st c) = settled c" "requests (set_cycle x st c) = requests c"
  "xid (end_cycle x c) = xid c" "zk_pending (end_cycle x c) = zk_pending c"
  "settled (end_cycle x c) = settled c" "requests (end_cycle x c) = requests c"
  by (simp_all add: set_cycle_def end_cycle_def)

lemma zk_inv_settle:
  assumes "zk_inv c" and "map_of (zk_pending c) x = Some (k, kind)"
  shows "zk_inv (settle x k v c)"
proof -
  have wf: "umap_wf (zk_pending c)" using assms(1) by (simp add: zk_inv_def)
  have "mset (map fst (map snd (zk_pending c))) =
      add_mset k (mset (map fst (map snd (AList.delete x (zk_pending c)))))"
    using arg_cong [OF mset_delete [OF wf assms(2)], of "image_mset fst"] by (simp add: multiset.map_comp)
  then show ?thesis
    using assms(1) um.wf_erase [OF wf, of x] delete_subset [of x "zk_pending c"]
    by (auto simp: zk_inv_def settle_def)
qed

lemma zk_inv_reject: "zk_inv c \<Longrightarrow> zk_inv (reject_pending x m c)"
  by (auto simp: reject_pending_def zk_inv_settle split: option.splits)

lemma zk_inv_resolve: "zk_inv c \<Longrightarrow> resolve_pending x e body p c = Ret c' \<Longrightarrow> zk_inv c'"
  by (auto simp: resolve_pending_def bindR_eq_Ret zk_inv_settle split: option.splits)

lemma zk_inv_request:
  assumes "zk_inv c" and "send_request kind op body c = (k, c')" and "requests c' \<le> 2 ^ 32"
  shows "zk_inv c'"
proof -
  have inv: "xid c = xid_of (requests c)" "umap_wf (zk_pending c)"
      "\<forall>(x, (k, kind)) \<in> set (zk_pending c). x = xid_of k"
      "mset (map fst (settled c)) + mset (map fst (map snd (zk_pending c))) = mset [0..<requests c]"
    using assms(1) by (auto simp: zk_inv_def)
  have bound: "requests c < 2 ^ 32" using assms(2,3) by (auto simp: send_request_def do_send_def Let_def)
  have none: "map_of (zk_pending c) (xid c) = None"
  proof (rule ccontr)
    assume "map_of (zk_pending c) (xid c) \<noteq> None"
    then obtain i kd where i: "(xid c, (i, kd)) \<in> set (zk_pending c)" by (auto dest: map_of_SomeD)
    then have "i \<in># mset (map fst (map snd (zk_pending c)))" by force
    then have "i \<in># mset [0..<requests c]" using inv(4) by (metis union_iff)
    then have "i < requests c" by simp
    moreover have "xid_of (requests c) = xid_of i" using inv(1,3) i by auto
    ultimately show False using xid_of_inject [of "requests c" i] bound by simp
  qed
  have "umap_wf (AList.update (xid c) (requests c, kind) (zk_pending c))" using inv(2) by (rule um.wf_assign)
  then show ?thesis
    using assms(2) inv update_absent [OF none, of "(requests c, kind)"] atLeast0_lessThan_Suc [of "requests c"]
    by (auto simp: zk_inv_def send_request_def do_send_def xid_of_def Let_def)
qed

lemma zk_inv_step:
  assumes "zk_step c c'" and "zk_inv c" and "requests c' \<le> 2 ^ 32"
  shows "zk_inv c'"
  using assms
proof (induction rule: zk_step.induct)
  case (zs_request kind op body c k c')
  then show ?case using zk_inv_request by blast
next
  case (zs_post c x d)
  then show ?case by (auto intro: zk_inv_cong simp: post_handler_def)
next
  case (zs_write c x d ec)
  then have "zk_inv (end_cycle x c)" "zk_inv (set_cycle x AwaitLength c)" by (auto intro: zk_inv_cong)
  then show ?case by (auto simp: zk_write_handler_def zk_inv_reject split: ec.splits)
next
  case (zs_length c x ec buf c')
  then have "zk_inv (end_cycle x c)" "\<And>n. zk_inv (set_cycle x (AwaitBody n) c)" by (auto intro: zk_inv_cong)
  then show ?case
    using zs_length.hyps(2) by (auto simp: zk_length_handler_def zk_inv_reject bindR_eq_Ret split: ec.splits)
next
  case (zs_body c x n ec buf c')
  then have "zk_inv (end_cycle x c)" by (auto intro: zk_inv_cong)
  then show ?case
    using zs_body.hyps(2) zk_inv_resolve
    by (auto simp: zk_body_handler_def zk_inv_reject bindR_eq_Ret Let_def split: ec.splits)
qed (auto intro: zk_inv_cong simp: zk_connect_def hs_connect_handler_def hs_write_handler_def hs_length_handler_def
    hs_body_handler_def hs_fail_def do_handshake_def bindR_eq_Ret Let_def split: ec.splits)

lemma requests_mono: "zk_step c c' \<Longrightarrow> requests c \<le> requests c'"
  by (induction rule: zk_step.induct)
    (auto simp: send_request_def do_send_def post_handler_def zk_write_handler_def zk_length_handler_def
      zk_body_handler_def reject_pending_def resolve_pending_def settle_def zk_connect_def hs_connect_handler_def
      hs_write_handler_def hs_length_handler_def hs_body_handler_def hs_fail_def do_handshake_def bindR_eq_Ret
      Let_def split: ec.splits option.splits)

lemma zk_inv_reach: "zk_reach c \<Longrightarrow> requests c \<le> 2 ^ 32 \<Longrightarrow> zk_inv c"
proof (induction rule: zk_reach.induct)
  case zk_start
  then show ?case by (simp add: zk_inv_def zk_client0_def xid_of_def)
next
  case (zk_more c c')
  then show ?case using requests_mono [OF zk_more.hyps(2)] zk_inv_step by force
qed

section \<open>Properties\<close>


definition zk_asked :: zk_client where
  "zk_asked = snd (zk_exists ''/rpc'' False zk_client0)"

lemma zk_asked_reach: "zk_reach zk_asked"
  unfolding zk_asked_def zk_exists_def by (rule zk_more [OF zk_start zs_request]) (rule surjective_pairing)

lemma zk_asked_fields: "zk_pending zk_asked = [(1, (0, Some ExistsKind))]" "requests zk_asked = 1" "settled zk_asked = []"
  by (simp_all add: zk_asked_def zk_exists_def send_request_def do_send_def zk_client0_def Let_def)


text \<open>
  A reply to a pending request settles the promise of exactly that request: with the response it
  encodes when the error field is zero, and otherwise with the description of the error; the entry is gone and no other
  request is touched.
\<close>

theorem zk_reply_settles:
  assumes "map_of (zk_pending c) (reply_xid rh) = Some (k, Some (kind_of r))" and "zk_response_fits r"
  shows "zk_body_handler x Success (reply_layout rh @ zk_response_layout r) c =
    Ret (settle (reply_xid rh) k
      (ResponseResult (if reply_err rh = 0 then make_ok r else make_error (zk_error_str (sint (reply_err rh)))))
      (end_cycle x c))"
proof -
  have "read_reply_header ([] @ reply_layout rh @ zk_response_layout r) 0 = Ret (rh, 0 + length (reply_layout rh))"
    by (rule rd_reply.reads) simp_all
  moreover have "read_response (kind_of r) (reply_layout rh @ zk_response_layout r @ []) (length (reply_layout rh)) =
      Ret (r, length (reply_layout rh) + length (zk_response_layout r))"
    by (rule read_response_layout [OF assms(2)]) simp
  moreover have "sint (reply_err rh) = 0 \<longleftrightarrow> reply_err rh = 0" by (simp add: signed_eq_0_iff)
  ultimately show ?thesis
    using assms(1) by (simp add: zk_body_handler_def resolve_pending_def entry_resolve_def)
qed

definition zk_stat0 :: zk_stat where
  "zk_stat0 = \<lparr>czxid = 0, mzxid = 0, ctime = 0, mtime = 0, stat_version = 0, cversion = 0, aversion = 0,
     ephemeral_owner = 0, data_length = 0, num_children = 0, pzxid = 0\<rparr>"

theorem zk_reply_settles_witness:
  "\<exists>c'. zk_body_handler 1 Success (reply_layout \<lparr>reply_xid = 1, zxid = 5, reply_err = -101\<rparr> @ stat_layout zk_stat0) zk_asked =
      Ret c' \<and> settled c' = [(0, ResponseResult (make_error ''no node''))]"
  using zk_reply_settles [of zk_asked "\<lparr>reply_xid = 1, zxid = 5, reply_err = -101\<rparr>" 0 "ExistsResponse zk_stat0" 1]
  by (simp add: zk_asked_fields settle_def zk_error_str_def)

text \<open>
  An error of an operation without a result is lost: \<^verbatim>\<open>result<void>::make_error\<close> builds a value that says it is
  a success, so a failed connection attempt and a failed removal are reported as successes whatever the cause.
\<close>

theorem void_errors_are_lost:
  "void_is_ok (void_error msg) \<and> \<not> void_is_err (void_error msg) \<and>
   (\<exists>v. connect_value (zk_connect (Failure msg) timeout c) = Some v \<and> void_is_ok v) \<and>
   (\<exists>v. entry_resolve None err body p = Ret (VoidResult v) \<and> void_is_ok v) \<and>
   (\<exists>v. entry_reject None msg = VoidResult v \<and> void_is_ok v)"
  by (simp add: void_error_def void_ok_def void_is_ok_def void_is_err_def zk_connect_def entry_resolve_def
      entry_reject_def)

end
