(* ===== verification/Service_Registry.thy ===== *)
theory Service_Registry
  imports Zk_Client
begin

text \<open>
  \<^verbatim>\<open>src/registry/service_registry.h\<close> and \<^verbatim>\<open>.cpp\<close>: registration and discovery of services as nodes of a ZooKeeper tree.
  Every operation sends one request through the client and drives the \<^verbatim>\<open>io_context\<close> until its future is ready. The
  ensemble is not part of the program: the value each future gets is a parameter, a record \<open>zk_session\<close> with one
  function per request over a state of the ensemble. \<^const>\<open>None\<close> is a future that never becomes ready, and then the
  operation does not return.
\<close>

section \<open>The ensemble\<close>

record 'z zk_session =
  s_connect :: "'z \<Rightarrow> void_result option \<times> 'z"
  s_create :: "string \<Rightarrow> string \<Rightarrow> i32 \<Rightarrow> 'z \<Rightarrow> string zk_result option \<times> 'z"
  s_children :: "string \<Rightarrow> 'z \<Rightarrow> string list zk_result option \<times> 'z"
  s_data :: "string \<Rightarrow> 'z \<Rightarrow> (string \<times> zk_stat) zk_result option \<times> 'z"
  s_exists :: "string \<Rightarrow> 'z \<Rightarrow> zk_stat zk_result option \<times> 'z"
  s_remove :: "string \<Rightarrow> i32 \<Rightarrow> 'z \<Rightarrow> void_result option \<times> 'z"

text \<open>\<open>await f k\<close> is the loop around \<^verbatim>\<open>poll_one\<close> and the code after \<^verbatim>\<open>future.get()\<close>.\<close>

fun await :: "'v option \<times> 'z \<Rightarrow> ('v \<Rightarrow> 'z \<Rightarrow> 'r option \<times> 'y) \<Rightarrow> ('z \<Rightarrow> 'y) \<Rightarrow> 'r option \<times> 'y" where
  "await (Some v, z) k stuck = k v z"
| "await (None, z) k stuck = (None, stuck z)"

section \<open>Operations\<close>

record ServiceInstance =
  si_name :: string
  si_address :: string
  si_ctime :: i64
  si_mtime :: i64
  si_version :: i32
  si_data_length :: i32

record 'z ServiceRegistry =
  ensemble :: 'z
  reg_connected :: bool

definition keep :: "'z ServiceRegistry \<Rightarrow> 'z \<Rightarrow> 'z ServiceRegistry" where
  "keep g z = g\<lparr>ensemble := z\<rparr>"

definition reg_connect :: "'z zk_session \<Rightarrow> 'z ServiceRegistry \<Rightarrow> bool option \<times> 'z ServiceRegistry" where
  "reg_connect s g =
     await (s_connect s (ensemble g))
       (\<lambda>r z. (Some (void_is_ok r), (keep g z)\<lparr>reg_connected := void_is_ok r\<rparr>)) (keep g)"

definition reg_get_children ::
    "'z zk_session \<Rightarrow> string \<Rightarrow> 'z ServiceRegistry \<Rightarrow> string list option \<times> 'z ServiceRegistry" where
  "reg_get_children s path g =
     (if \<not> reg_connected g then (Some [], g)
      else await (s_children s path (ensemble g))
        (\<lambda>r z. (Some (case ok_val r of None \<Rightarrow> [] | Some cs \<Rightarrow> cs), keep g z)) (keep g))"

definition reg_get_node_data ::
    "'z zk_session \<Rightarrow> string \<Rightarrow> 'z ServiceRegistry \<Rightarrow> string option \<times> 'z ServiceRegistry" where
  "reg_get_node_data s path g =
     (if \<not> reg_connected g then (Some [], g)
      else await (s_data s path (ensemble g))
        (\<lambda>r z. (Some (case ok_val r of None \<Rightarrow> [] | Some (d, st) \<Rightarrow> d), keep g z)) (keep g))"

definition base_name :: "string \<Rightarrow> string" where
  "base_name path = rev (takeWhile (\<lambda>c. c \<noteq> CHR ''/'') (rev path))"

definition reg_get_service ::
    "'z zk_session \<Rightarrow> string \<Rightarrow> 'z ServiceRegistry \<Rightarrow> ServiceInstance option \<times> 'z ServiceRegistry" where
  "reg_get_service s node_path g =
     (let si = \<lparr>si_name = base_name node_path, si_address = [], si_ctime = 0, si_mtime = 0, si_version = 0,
                si_data_length = 0\<rparr>
      in if \<not> reg_connected g then (Some si, g)
         else await (s_data s node_path (ensemble g))
           (\<lambda>r z. (Some (case ok_val r of None \<Rightarrow> si
                     | Some (d, st) \<Rightarrow> si\<lparr>si_address := d, si_ctime := ctime st, si_mtime := mtime st,
                                          si_version := stat_version st, si_data_length := data_length st\<rparr>),
                    keep g z)) (keep g))"

fun get_services ::
    "'z zk_session \<Rightarrow> string \<Rightarrow> string list \<Rightarrow> 'z ServiceRegistry \<Rightarrow>
     ServiceInstance list option \<times> 'z ServiceRegistry" where
  "get_services s path [] g = (Some [], g)"
| "get_services s path (nm # nms) g =
     (case reg_get_service s (path @ ''/'' @ nm) g of
        (None, g) \<Rightarrow> (None, g)
      | (Some si, g) \<Rightarrow>
          (case get_services s path nms g of (None, g) \<Rightarrow> (None, g) | (Some sis, g) \<Rightarrow> (Some (si # sis), g)))"

definition reg_list_services ::
    "'z zk_session \<Rightarrow> string \<Rightarrow> 'z ServiceRegistry \<Rightarrow> ServiceInstance list option \<times> 'z ServiceRegistry" where
  "reg_list_services s services_path g =
     (case reg_get_children s services_path g of
        (None, g) \<Rightarrow> (None, g)
      | (Some children, g) \<Rightarrow> get_services s services_path children g)"

definition reg_node_exists :: "'z zk_session \<Rightarrow> string \<Rightarrow> 'z ServiceRegistry \<Rightarrow> bool option \<times> 'z ServiceRegistry" where
  "reg_node_exists s path g =
     (if \<not> reg_connected g then (Some False, g)
      else await (s_exists s path (ensemble g)) (\<lambda>r z. (Some (is_ok r), keep g z)) (keep g))"

definition reg_register_service ::
    "'z zk_session \<Rightarrow> string \<Rightarrow> string \<Rightarrow> string \<Rightarrow> 'z ServiceRegistry \<Rightarrow> bool option \<times> 'z ServiceRegistry" where
  "reg_register_service s services_path node_name addr g =
     (if \<not> reg_connected g then (Some False, g)
      else await (s_create s (services_path @ ''/'' @ node_name) addr 1 (ensemble g))
        (\<lambda>r z. (Some (\<not> is_err r), keep g z)) (keep g))"

definition reg_unregister_service ::
    "'z zk_session \<Rightarrow> string \<Rightarrow> 'z ServiceRegistry \<Rightarrow> bool option \<times> 'z ServiceRegistry" where
  "reg_unregister_service s node_path g =
     (if \<not> reg_connected g then (Some False, g)
      else await (s_remove s node_path (-1) (ensemble g)) (\<lambda>r z. (Some (\<not> void_is_err r), keep g z)) (keep g))"

definition create_persistent_node ::
    "'z zk_session \<Rightarrow> string \<Rightarrow> 'z ServiceRegistry \<Rightarrow> bool option \<times> 'z ServiceRegistry" where
  "create_persistent_node s path g =
     (if \<not> reg_connected g then (Some False, g)
      else await (s_create s path [] 0 (ensemble g))
        (\<lambda>r z. (Some (\<not> (is_err r \<and> \<not> str_contains (err_msg r) ''node exists'')), keep g z)) (keep g))"

section \<open>An ensemble that keeps a tree\<close>

text \<open>
  What ZooKeeper documents of the requests used here, for a state that shows as a map from paths to data: a node can be
  read, listed under its parent and created below an existing one.
\<close>

definition child_of :: "(string \<rightharpoonup> string) \<Rightarrow> string \<Rightarrow> string set" where
  "child_of t p = {nm. nm \<noteq> [] \<and> CHR ''/'' \<notin> set nm \<and> t (p @ ''/'' @ nm) \<noteq> None}"

definition zk_serves :: "'z zk_session \<Rightarrow> ('z \<Rightarrow> string \<rightharpoonup> string) \<Rightarrow> bool" where
  "zk_serves s tree \<longleftrightarrow>
     (\<forall>z p. tree z p \<noteq> None \<longrightarrow>
        (\<exists>nms. s_children s p z = (Some (make_ok nms), z) \<and> distinct nms \<and> set nms = child_of (tree z) p)) \<and>
     (\<forall>z p d. tree z p = Some d \<longrightarrow> (\<exists>st. s_data s p z = (Some (make_ok (d, st)), z))) \<and>
     (\<forall>z p nm d fl. tree z p \<noteq> None \<and> tree z (p @ ''/'' @ nm) = None \<and> nm \<noteq> [] \<and> CHR ''/'' \<notin> set nm \<longrightarrow>
        (\<exists>r z'. s_create s (p @ ''/'' @ nm) d fl z = (Some (make_ok r), z') \<and>
           tree z' = (tree z)(p @ ''/'' @ nm \<mapsto> d)))"

lemma base_name_child: "CHR ''/'' \<notin> set nm \<Longrightarrow> base_name (p @ ''/'' @ nm) = nm"
proof -
  assume "CHR ''/'' \<notin> set nm"
  then have "takeWhile (\<lambda>c. c \<noteq> CHR ''/'') (rev nm @ CHR ''/'' # rev p) = rev nm"
    by (subst takeWhile_append2) auto
  then show ?thesis by (simp add: base_name_def)
qed

lemma get_service_serves:
  assumes "zk_serves s tree" and "reg_connected g" and "tree (ensemble g) (p @ ''/'' @ nm) = Some d"
    and "CHR ''/'' \<notin> set nm"
  shows "\<exists>si. reg_get_service s (p @ ''/'' @ nm) g = (Some si, g) \<and> si_name si = nm \<and> si_address si = d"
proof -
  obtain st where st: "s_data s (p @ ''/'' @ nm) (ensemble g) = (Some (make_ok (d, st)), ensemble g)"
    using assms(1,3) unfolding zk_serves_def by blast
  show ?thesis using assms(2) base_name_child [OF assms(4), of p] st
    by (simp add: reg_get_service_def make_ok_def keep_def)
qed

lemma get_services_serves:
  assumes "zk_serves s tree" and "reg_connected g" and "set nms \<subseteq> child_of (tree (ensemble g)) p"
  shows "\<exists>sis. get_services s p nms g = (Some sis, g) \<and>
    map (\<lambda>si. (si_name si, si_address si)) sis = map (\<lambda>nm. (nm, the (tree (ensemble g) (p @ ''/'' @ nm)))) nms"
  using assms(3)
proof (induction nms)
  case (Cons nm nms)
  then obtain d where d: "tree (ensemble g) (p @ ''/'' @ nm) = Some d" "CHR ''/'' \<notin> set nm"
    by (auto simp: child_of_def)
  obtain si where "reg_get_service s (p @ ''/'' @ nm) g = (Some si, g)" "si_name si = nm" "si_address si = d"
    using get_service_serves [OF assms(1,2) d] by blast
  with Cons d show ?case by auto
qed simp

lemma list_services_serves:
  assumes "zk_serves s tree" and "reg_connected g" and "tree (ensemble g) p \<noteq> None"
  shows "\<exists>sis nms. reg_list_services s p g = (Some sis, g) \<and> distinct nms \<and> set nms = child_of (tree (ensemble g)) p \<and>
    map (\<lambda>si. (si_name si, si_address si)) sis = map (\<lambda>nm. (nm, the (tree (ensemble g) (p @ ''/'' @ nm)))) nms"
proof -
  obtain nms where n: "s_children s p (ensemble g) = (Some (make_ok nms), ensemble g)" "distinct nms"
      "set nms = child_of (tree (ensemble g)) p"
    using assms(1,3) unfolding zk_serves_def by blast
  have "reg_get_children s p g = (Some nms, g)"
    using n(1) assms(2) by (simp add: reg_get_children_def make_ok_def keep_def)
  with get_services_serves [OF assms(1,2), of nms p] n show ?thesis
    by (auto simp: reg_list_services_def)
qed

section \<open>A reference ensemble\<close>

text \<open>A tree kept as a map from paths to data, which satisfies \<open>zk_serves\<close>.\<close>

definition names_under :: "string \<Rightarrow> (string, string) umap \<Rightarrow> string list" where
  "names_under p z = map (drop (length p + 1))
     (filter (\<lambda>k. prefix (p @ ''/'') k \<and> drop (length p + 1) k \<noteq> [] \<and> CHR ''/'' \<notin> set (drop (length p + 1) k))
       (remdups (map fst z)))"

definition tree_session :: "(string, string) umap zk_session" where
  "tree_session =
     \<lparr>s_connect = (\<lambda>z. (Some void_ok, z)),
      s_create = (\<lambda>p d fl z. if map_of z p \<noteq> None then (Some (make_error ''node exists''), z)
                    else (Some (make_ok p), AList.update p d z)),
      s_children = (\<lambda>p z. (Some (if map_of z p = None then make_error ''no node'' else make_ok (names_under p z)), z)),
      s_data = (\<lambda>p z. (Some (case map_of z p of None \<Rightarrow> make_error ''no node'' | Some d \<Rightarrow> make_ok (d, zk_stat0)), z)),
      s_exists = (\<lambda>p z. (Some (if map_of z p = None then make_error ''no node'' else make_ok zk_stat0), z)),
      s_remove = (\<lambda>p v z. (Some (if map_of z p = None then void_error ''no node'' else void_ok), AList.delete p z))\<rparr>"

lemma prefix_dropD: "prefix (p @ ''/'') k \<Longrightarrow> k = p @ ''/'' @ drop (length p + 1) k"
  by (auto simp: prefix_def)

lemma set_names_under: "set (names_under p z) = child_of (map_of z) p"
proof
  show "set (names_under p z) \<subseteq> child_of (map_of z) p"
  proof
    fix nm assume "nm \<in> set (names_under p z)"
    then obtain k where k: "k \<in> fst ` set z" "prefix (p @ ''/'') k" "nm = drop (length p + 1) k" "nm \<noteq> []"
        "CHR ''/'' \<notin> set nm" by (auto simp: names_under_def)
    then have "map_of z (p @ ''/'' @ nm) \<noteq> None"
      using prefix_dropD [OF k(2)] by (metis map_of_eq_None_iff)
    with k show "nm \<in> child_of (map_of z) p" by (simp add: child_of_def)
  qed
  show "child_of (map_of z) p \<subseteq> set (names_under p z)"
  proof
    fix nm assume "nm \<in> child_of (map_of z) p"
    then have nm: "nm \<noteq> []" "CHR ''/'' \<notin> set nm" "p @ ''/'' @ nm \<in> fst ` set z"
      by (auto simp: child_of_def map_of_eq_None_iff)
    then show "nm \<in> set (names_under p z)"
      unfolding names_under_def by (force intro!: image_eqI [of _ _ "p @ ''/'' @ nm"])
  qed
qed

lemma distinct_names_under: "distinct (names_under p z)"
proof -
  have "inj_on (drop (length p + 1)) {k. prefix (p @ ''/'') k}"
    by (rule inj_onI) (metis mem_Collect_eq prefix_dropD)
  then show ?thesis
    unfolding names_under_def by (auto simp: distinct_map intro: inj_on_subset)
qed

lemma tree_session_serves: "zk_serves tree_session map_of"
proof -
  have "s_children tree_session p z = (Some (make_ok (names_under p z)), z)" if "map_of z p \<noteq> None" for z p
    using that by (auto simp: tree_session_def)
  moreover have "s_data tree_session p z = (Some (make_ok (d, zk_stat0)), z)" if "map_of z p = Some d" for z p d
    using that by (simp add: tree_session_def)
  moreover have "s_create tree_session p d fl z = (Some (make_ok p), AList.update p d z)"
    if "map_of z p = None" for z p d fl
    using that by (simp add: tree_session_def)
  ultimately show ?thesis
    unfolding zk_serves_def using set_names_under distinct_names_under um.find_assign by meson
qed

end
