(* ===== verification/Conn_Balancer.thy ===== *)
theory Conn_Balancer
  imports Std_Containers
begin

text \<open>
  \<^verbatim>\<open>src/conn_balancer/conn_balancer.h\<close> and \<^verbatim>\<open>.cpp\<close>: the strategies that choose an endpoint and the load balancer
  that owns one of them. A random strategy draws one number per call with \<^verbatim>\<open>std::uniform_int_distribution\<close>,
  which may return any number of its range: the drawn number is an argument \<open>r\<close>, and \<open>draws\<close> is the range.
  An \<^verbatim>\<open>int\<close> is an integer with its overflow, which is undefined, written out.
\<close>

section \<open>Strategies\<close>

record Endpoint =
  ep_name :: string
  address :: string
  weight :: int

definition int_range :: "int \<Rightarrow> bool" where
  "int_range x \<longleftrightarrow> - (2 ^ 31) \<le> x \<and> x < 2 ^ 31"

definition round_robin_select :: "u64 \<Rightarrow> Endpoint list \<Rightarrow> Endpoint res \<times> u64" where
  "round_robin_select counter nodes =
     (if nodes = [] then (Throw (RuntimeError ''RoundRobin: no nodes available''), counter)
      else (Ret (nodes ! (unat counter mod length nodes)), counter + 1))"

definition random_select :: "nat \<Rightarrow> Endpoint list \<Rightarrow> Endpoint res" where
  "random_select r nodes =
     (if nodes = [] then Throw (RuntimeError ''Random: no nodes available'')
      else if r < length nodes then Ret (nodes ! r) else UB)"

fun total_weight :: "int \<Rightarrow> Endpoint list \<Rightarrow> int res" where
  "total_weight tot [] = Ret tot"
| "total_weight tot (n # ns) =
     (if int_range (tot + weight n) then total_weight (tot + weight n) ns else UB)"

fun weighted_pick :: "int \<Rightarrow> int \<Rightarrow> Endpoint list \<Rightarrow> Endpoint option res" where
  "weighted_pick r accum [] = Ret None"
| "weighted_pick r accum (n # ns) =
     (let accum = accum + weight n in
      if \<not> int_range accum then UB else if r < accum then Ret (Some n) else weighted_pick r accum ns)"

definition weighted_select :: "nat \<Rightarrow> Endpoint list \<Rightarrow> Endpoint res" where
  "weighted_select r nodes =
     (if nodes = [] then Throw (RuntimeError ''Weighted: no nodes available'')
      else bindR (total_weight 0 nodes) (\<lambda>total.
        if total \<le> 0 then Throw (RuntimeError ''Weighted: total weight <= 0'')
        else if int r < total then
          bindR (weighted_pick (int r) 0 nodes) (\<lambda>found.
            Ret (case found of Some n \<Rightarrow> n | None \<Rightarrow> last nodes))
        else UB))"

datatype Strategy = RoundRobin u64 | Random | Weighted

fun strategy_str :: "Strategy \<Rightarrow> string" where
  "strategy_str (RoundRobin c) = ''round_robin''"
| "strategy_str Random = ''random''"
| "strategy_str Weighted = ''weighted''"

definition create_strategy :: "string \<Rightarrow> Strategy" where
  "create_strategy nm =
     (if nm = ''random'' then Random else if nm = ''weighted'' then Weighted else RoundRobin 0)"

fun strategy_select :: "nat \<Rightarrow> Strategy \<Rightarrow> Endpoint list \<Rightarrow> Endpoint res \<times> Strategy" where
  "strategy_select r (RoundRobin c) nodes =
     (let (e, c') = round_robin_select c nodes in (e, RoundRobin c'))"
| "strategy_select r Random nodes = (random_select r nodes, Random)"
| "strategy_select r Weighted nodes = (weighted_select r nodes, Weighted)"

section \<open>Load balancer\<close>

record LoadBalancer =
  strategy :: Strategy
  nodes :: "Endpoint list"

definition load_balancer0 :: LoadBalancer where
  "load_balancer0 = \<lparr>strategy = RoundRobin 0, nodes = []\<rparr>"

definition set_strategy :: "Strategy option \<Rightarrow> LoadBalancer \<Rightarrow> LoadBalancer" where
  "set_strategy s lb = (case s of None \<Rightarrow> lb | Some s \<Rightarrow> lb\<lparr>strategy := s\<rparr>)"

definition strategy_name :: "LoadBalancer \<Rightarrow> string" where
  "strategy_name lb = strategy_str (strategy lb)"

definition lb_reset :: "LoadBalancer \<Rightarrow> LoadBalancer" where
  "lb_reset lb = set_strategy (Some (create_strategy (strategy_name lb))) lb"

definition set_nodes :: "Endpoint list \<Rightarrow> LoadBalancer \<Rightarrow> LoadBalancer" where
  "set_nodes ns lb = lb_reset (lb\<lparr>nodes := ns\<rparr>)"

definition lb_select :: "nat \<Rightarrow> LoadBalancer \<Rightarrow> Endpoint res \<times> LoadBalancer" where
  "lb_select r lb = (let (e, s) = strategy_select r (strategy lb) (nodes lb) in (e, lb\<lparr>strategy := s\<rparr>))"

fun find_node :: "string \<Rightarrow> Endpoint list \<Rightarrow> Endpoint option" where
  "find_node nm [] = None"
| "find_node nm (n # ns) = (if ep_name n = nm then Some n else find_node nm ns)"

definition lb_find :: "string \<Rightarrow> LoadBalancer \<Rightarrow> Endpoint option" where
  "lb_find nm lb = find_node nm (nodes lb)"

definition add_node :: "Endpoint \<Rightarrow> LoadBalancer \<Rightarrow> LoadBalancer" where
  "add_node ep lb = lb\<lparr>nodes := nodes lb @ [ep]\<rparr>"

fun erase_first :: "string \<Rightarrow> Endpoint list \<Rightarrow> Endpoint list" where
  "erase_first nm [] = []"
| "erase_first nm (n # ns) = (if ep_name n = nm then ns else n # erase_first nm ns)"

definition remove_node :: "string \<Rightarrow> LoadBalancer \<Rightarrow> bool \<times> LoadBalancer" where
  "remove_node nm lb =
     (if find_node nm (nodes lb) = None then (False, lb)
      else (True, lb\<lparr>nodes := erase_first nm (nodes lb)\<rparr>))"

definition sync_nodes :: "Endpoint list \<Rightarrow> LoadBalancer \<Rightarrow> LoadBalancer" where
  "sync_nodes ns lb = lb_reset (lb\<lparr>nodes := ns\<rparr>)"

section \<open>Weights\<close>

definition weights_ok :: "Endpoint list \<Rightarrow> bool" where
  "weights_ok ns \<longleftrightarrow> (\<forall>n \<in> set ns. 0 \<le> weight n) \<and> sum_list (map weight ns) < 2 ^ 31"

lemma sum_weights_nonneg: "\<forall>n \<in> set ns. 0 \<le> weight n \<Longrightarrow> 0 \<le> sum_list (map weight ns)"
  by (rule sum_list_nonneg) auto

lemma total_weight_eq:
  assumes "\<forall>n \<in> set ns. 0 \<le> weight n" and "0 \<le> a" and "a + sum_list (map weight ns) < 2 ^ 31"
  shows "total_weight a ns = Ret (a + sum_list (map weight ns))"
  using assms
proof (induction ns arbitrary: a)
  case (Cons n ns)
  then have "int_range (a + weight n)"
    using sum_weights_nonneg [of ns] by (simp add: int_range_def)
  then show ?case using Cons by (simp add: add.assoc)
qed simp

lemma total_weight_safe:
  "total_weight a ns \<noteq> UB \<Longrightarrow> total_weight a ns = Ret (a + sum_list (map weight ns))"
  by (induction ns arbitrary: a) (auto simp flip: add.assoc split: if_splits)

text \<open>The draws for which the loop stops at a node are the interval of its length that ends at the running sum.\<close>

lemma weighted_pick_eq:
  assumes "\<forall>n \<in> set ns. 0 \<le> weight n" and "0 \<le> a" and "a + sum_list (map weight ns) < 2 ^ 31"
    and "a \<le> r" and "ns = pre @ n # post"
    and "a + sum_list (map weight pre) \<le> r" and "r < a + sum_list (map weight pre) + weight n"
  shows "weighted_pick r a ns = Ret (Some n)"
  using assms
proof (induction ns arbitrary: a pre)
  case (Cons x xs)
  have rng: "int_range (a + weight x)"
    using Cons.prems(1-3) sum_weights_nonneg [of xs] by (simp add: int_range_def)
  show ?case
  proof (cases pre)
    case Nil
    with Cons.prems rng show ?thesis by (simp add: Let_def)
  next
    case (Cons y ys)
    with Cons.prems(5) have y: "y = x" "xs = ys @ n # post" by auto
    have "0 \<le> sum_list (map weight ys)"
      using Cons.prems(1) y by (intro sum_weights_nonneg) auto
    then have ge: "a + weight x \<le> r" using Cons.prems(6) Cons y(1) by simp
    have "weighted_pick r (a + weight x) xs = Ret (Some n)"
      using Cons.prems Cons y ge
      by (intro Cons.IH [of "a + weight x" ys]) (auto simp: algebra_simps)
    then show ?thesis using ge rng by (simp add: Let_def)
  qed
qed simp

lemma weighted_pick_exists:
  fixes ns :: "Endpoint list"
  assumes "\<forall>n \<in> set ns. 0 \<le> weight n" and "0 \<le> r" and "r < sum_list (map weight ns)"
  shows "\<exists>pre n post. ns = pre @ n # post \<and> sum_list (map weight pre) \<le> r \<and>
    r < sum_list (map weight pre) + weight n"
  using assms
proof (induction ns arbitrary: r)
  case (Cons x xs)
  show ?case
  proof (cases "r < weight x")
    case True
    then show ?thesis using Cons.prems(2) by (intro exI [of _ "[]"] exI [of _ x] exI [of _ xs]) simp
  next
    case False
    then obtain pre n post where "xs = pre @ n # post" "sum_list (map weight pre) \<le> r - weight x"
        "r - weight x < sum_list (map weight pre) + weight n"
      using Cons.IH [of "r - weight x"] Cons.prems by auto
    then show ?thesis by (intro exI [of _ "x # pre"] exI [of _ n] exI [of _ post]) simp
  qed
qed simp

lemma weighted_select_eq:
  assumes "weights_ok ns" and "ns = pre @ n # post"
    and "sum_list (map weight pre) \<le> int r" and "int r < sum_list (map weight pre) + weight n"
  shows "weighted_select r ns = Ret n"
proof -
  have nn: "\<forall>n \<in> set ns. 0 \<le> weight n" "0 \<le> sum_list (map weight post)"
    using assms(1,2) by (auto simp: weights_ok_def intro: sum_weights_nonneg)
  have "int r < sum_list (map weight ns)" using assms(2-4) nn(2) by simp
  moreover have "weighted_pick (int r) 0 ns = Ret (Some n)"
    using assms nn(1) by (intro weighted_pick_eq) (auto simp: weights_ok_def)
  moreover have "total_weight 0 ns = Ret (sum_list (map weight ns))"
    using total_weight_eq [of ns 0] nn(1) assms(1) by (simp add: weights_ok_def)
  moreover have "ns \<noteq> []" using assms(2) by simp
  ultimately show ?thesis by (simp add: weighted_select_def)
qed

section \<open>The strategy interface\<close>

text \<open>
  What the load balancer relies on: \<^verbatim>\<open>select\<close> refuses an empty list, and for every number the strategy may
  draw it either throws or returns one of the nodes; it keeps its name.
\<close>

locale balancer_strategy =
  fixes sel :: "nat \<Rightarrow> 's \<Rightarrow> Endpoint list \<Rightarrow> Endpoint res \<times> 's"
    and draws :: "'s \<Rightarrow> Endpoint list \<Rightarrow> nat set" and defined :: "Endpoint list \<Rightarrow> bool" and nm :: "'s \<Rightarrow> string"
  assumes no_nodes: "\<exists>msg. fst (sel r s []) = Throw (RuntimeError msg)"
    and selects: "ns \<noteq> [] \<Longrightarrow> defined ns \<Longrightarrow> r \<in> draws s ns \<Longrightarrow>
      (\<exists>e \<in> set ns. fst (sel r s ns) = Ret e) \<or> (\<exists>msg. fst (sel r s ns) = Throw (RuntimeError msg))"
    and keeps_name: "nm (snd (sel r s ns)) = nm s"
begin

text \<open>A sequence of selections with the numbers drawn for them.\<close>

fun sel_run :: "nat list \<Rightarrow> 's \<Rightarrow> Endpoint list \<Rightarrow> Endpoint res list \<times> 's" where
  "sel_run [] s ns = ([], s)"
| "sel_run (r # rs) s ns = (let (e, s') = sel r s ns; (es, s'') = sel_run rs s' ns in (e # es, s''))"

lemma sel_run_length: "length (fst (sel_run rs s ns)) = length rs"
  by (induction rs arbitrary: s) (auto simp: case_prod_beta Let_def)

lemma sel_run_name: "nm (snd (sel_run rs s ns)) = nm s"
  by (induction rs arbitrary: s) (auto simp: case_prod_beta Let_def keeps_name)

lemma sel_defined:
  assumes "defined ns" and "r \<in> draws s ns"
  shows "fst (sel r s ns) \<noteq> UB"
  using no_nodes [of r s] selects [OF _ assms] by (cases "ns = []") auto

end

fun strategy_draws :: "Strategy \<Rightarrow> Endpoint list \<Rightarrow> nat set" where
  "strategy_draws (RoundRobin c) ns = UNIV"
| "strategy_draws Random ns = {..<length ns}"
| "strategy_draws Weighted ns = {r. int r < max 1 (sum_list (map weight ns))}"

text \<open>The sums the weighted strategy forms stay inside \<^verbatim>\<open>int\<close>.\<close>

definition sums_fit :: "Endpoint list \<Rightarrow> bool" where
  "sums_fit ns \<longleftrightarrow> total_weight 0 ns \<noteq> UB"

lemma weighted_pick_member:
  assumes "total_weight a ns \<noteq> UB"
  shows "\<exists>found. weighted_pick r a ns = Ret found \<and> (\<forall>n. found = Some n \<longrightarrow> n \<in> set ns)"
  using assms
proof (induction ns arbitrary: a)
  case (Cons x xs)
  then have "int_range (a + weight x)" "total_weight (a + weight x) xs \<noteq> UB" by (auto split: if_splits)
  with Cons.IH [of "a + weight x"] show ?case by (auto simp: Let_def)
qed simp

lemma weighted_select_member:
  assumes "ns \<noteq> []" and "sums_fit ns" and "int r < max 1 (sum_list (map weight ns))"
  shows "(\<exists>e \<in> set ns. weighted_select r ns = Ret e) \<or> (\<exists>msg. weighted_select r ns = Throw (RuntimeError msg))"
proof -
  have tot: "total_weight 0 ns = Ret (sum_list (map weight ns))"
    using total_weight_safe [of 0 ns] assms(2) by (simp add: sums_fit_def)
  obtain found where f: "weighted_pick (int r) 0 ns = Ret found" "\<forall>n. found = Some n \<longrightarrow> n \<in> set ns"
    using weighted_pick_member [of 0 ns "int r"] tot by auto
  have "(case found of Some n \<Rightarrow> n | None \<Rightarrow> last ns) \<in> set ns"
    using f(2) assms(1) by (auto split: option.split)
  then show ?thesis
    using assms tot f(1) by (cases "sum_list (map weight ns) \<le> 0") (auto simp: weighted_select_def)
qed

interpretation strat: balancer_strategy strategy_select strategy_draws sums_fit strategy_str
proof unfold_locales
  show "\<exists>msg. fst (strategy_select r s []) = Throw (RuntimeError msg)" for r s
    by (cases s) (auto simp: round_robin_select_def random_select_def weighted_select_def)
  show "strategy_str (snd (strategy_select r s ns)) = strategy_str s" for r s ns
    by (cases s) (auto simp: case_prod_beta Let_def)
  show "(\<exists>e \<in> set ns. fst (strategy_select r s ns) = Ret e) \<or>
      (\<exists>msg. fst (strategy_select r s ns) = Throw (RuntimeError msg))"
    if "ns \<noteq> []" "sums_fit ns" "r \<in> strategy_draws s ns" for ns r s
    using that weighted_select_member [of ns r]
    by (cases s) (auto simp: round_robin_select_def random_select_def)
qed

section \<open>Round robin\<close>

lemma rr_run:
  assumes "ns \<noteq> []" and "c + length rs \<le> 2 ^ 64"
  shows "fst (strat.sel_run rs (RoundRobin (word_of_nat c)) ns) =
    map (\<lambda>i. Ret (ns ! ((c + i) mod length ns))) [0..<length rs]"
  using assms(2)
proof (induction rs arbitrary: c)
  case (Cons r rs)
  have u: "unat (word_of_nat c :: u64) = c" using Cons.prems by (simp add: unat_of_nat take_bit_eq_mod)
  have "(word_of_nat c + 1 :: u64) = word_of_nat (Suc c)" by simp
  then have "fst (strat.sel_run (r # rs) (RoundRobin (word_of_nat c)) ns) =
      Ret (ns ! (c mod length ns)) # fst (strat.sel_run rs (RoundRobin (word_of_nat (Suc c))) ns)"
    using assms(1) u by (simp add: round_robin_select_def case_prod_beta Let_def del: of_nat_Suc)
  also have "\<dots> = Ret (ns ! (c mod length ns)) # map (\<lambda>i. Ret (ns ! ((Suc c + i) mod length ns))) [0..<length rs]"
    using Cons.IH [of "Suc c"] Cons.prems by simp
  also have "\<dots> = map (\<lambda>i. Ret (ns ! ((c + i) mod length ns))) [0..<length (r # rs)]"
    by (simp add: upt_conv_Cons map_Suc_upt [symmetric] del: upt_Suc)
  finally show ?case .
qed simp

lemma length_filter_mod:
  assumes "j < n"
  shows "length (filter (\<lambda>i. i mod n = j) [0..<m]) = m div n + (if j < m mod n then 1 else 0)"
proof (induction m)
  case (Suc m)
  have "0 < n" using assms by simp
  show ?case
  proof (cases "Suc (m mod n) = n")
    case True
    then have "Suc m mod n = 0" "Suc m div n = Suc (m div n)" by (simp_all add: mod_Suc div_Suc)
    with True Suc assms show ?thesis by auto
  next
    case False
    then have "Suc m mod n = Suc (m mod n)" "Suc m div n = m div n" by (simp_all add: mod_Suc div_Suc)
    with Suc show ?thesis by auto
  qed
qed simp

section \<open>Properties\<close>

text \<open>Successive calls of \<^verbatim>\<open>LoadBalancer::select\<close>.\<close>

fun lb_run :: "nat list \<Rightarrow> LoadBalancer \<Rightarrow> Endpoint res list \<times> LoadBalancer" where
  "lb_run [] lb = ([], lb)"
| "lb_run (r # rs) lb = (let (e, lb) = lb_select r lb; (es, lb) = lb_run rs lb in (e # es, lb))"

lemma lb_run_eq:
  "lb_run rs lb = (let (es, s) = strat.sel_run rs (strategy lb) (nodes lb) in (es, lb\<lparr>strategy := s\<rparr>))"
  by (induction rs arbitrary: lb) (simp_all add: lb_select_def case_prod_beta Let_def)

lemma strategy_reset: "strategy_name lb = ''round_robin'' \<Longrightarrow> strategy (set_nodes ns lb) = RoundRobin 0 \<and> nodes (set_nodes ns lb) = ns"
  by (simp add: set_nodes_def lb_reset_def set_strategy_def create_strategy_def strategy_name_def)

lemma count_list_filter: "count_list xs y = length (filter (\<lambda>x. x = y) xs)"
  by (induction xs) auto

text \<open>
  C26: round robin is fair: of any number of selections after the node list was set, each node gets its
  share, rounded down or up, and the \<open>i\<close>-th selection is node \<open>i\<close> modulo the number of nodes, until the
  64-bit counter comes round.
\<close>

theorem round_robin_fair:
  assumes "strategy_name lb = ''round_robin''" and "ns \<noteq> []" and "distinct ns" and "e \<in> set ns"
    and "length rs \<le> 2 ^ 64"
  shows "fst (lb_run rs (set_nodes ns lb)) = map (\<lambda>i. Ret (ns ! (i mod length ns))) [0..<length rs] \<and>
    count_list (fst (lb_run rs (set_nodes ns lb))) (Ret e) - length rs div length ns \<le> 1 \<and>
    length rs div length ns \<le> count_list (fst (lb_run rs (set_nodes ns lb))) (Ret e)"
proof -
  have run: "fst (lb_run rs (set_nodes ns lb)) = map (\<lambda>i. Ret (ns ! (i mod length ns))) [0..<length rs]"
    using rr_run [OF assms(2), of 0 rs] assms(5) strategy_reset [OF assms(1), of ns]
    by (simp add: lb_run_eq case_prod_beta Let_def)
  obtain j where j: "j < length ns" "ns ! j = e" using assms(4) by (metis in_set_conv_nth)
  have "(ns ! (i mod length ns) = e) = (i mod length ns = j)" for i
    using j assms(2,3) by (metis length_greater_0_conv mod_less_divisor nth_eq_iff_index_eq)
  then have "count_list (map (\<lambda>i. Ret (ns ! (i mod length ns))) [0..<length rs]) (Ret e) =
      length (filter (\<lambda>i. i mod length ns = j) [0..<length rs])"
    by (simp add: count_list_filter filter_map comp_def)
  then show ?thesis using run length_filter_mod [OF j(1), of "length rs"] by simp
qed

definition demo_nodes :: "Endpoint list" where
  "demo_nodes = [\<lparr>ep_name = ''a'', address = ''10.0.0.1:80'', weight = 3\<rparr>,
                 \<lparr>ep_name = ''b'', address = ''10.0.0.2:80'', weight = 1\<rparr>]"

theorem round_robin_fair_witness:
  "fst (lb_run [0, 0, 0] (set_nodes demo_nodes load_balancer0)) =
     [Ret (demo_nodes ! 0), Ret (demo_nodes ! 1), Ret (demo_nodes ! 0)]"
  using round_robin_fair [of load_balancer0 demo_nodes "demo_nodes ! 0" "[0, 0, 0]"]
  by (simp add: demo_nodes_def strategy_name_def load_balancer0_def upt_rec)

lemma distinct_split_unique:
  "distinct (p @ e # q) \<Longrightarrow> p @ e # q = pre @ e # post \<Longrightarrow> p = pre"
proof (induction p arbitrary: pre)
  case Nil
  then show ?case by (cases pre) auto
next
  case (Cons x p)
  show ?case
  proof (cases pre)
    case Nil
    then show ?thesis using Cons.prems by auto
  next
    case (Cons y ys)
    then show ?thesis using Cons.prems Cons.IH [of ys] by (simp only: append_Cons list.inject distinct.simps)
  qed
qed

text \<open>
  C27: the weighted strategy is exactly proportional: of the equally likely numbers it may draw, precisely as
  many as a node's weight select that node. The weights must be non-negative and their sum an \<^verbatim>\<open>int\<close>.
\<close>

theorem weighted_proportional:
  assumes "\<forall>n \<in> set ns. 0 \<le> weight n" and "sum_list (map weight ns) < 2 ^ 31" and "distinct ns" and "e \<in> set ns"
  shows "card {r \<in> strategy_draws Weighted ns. weighted_select r ns = Ret e} = nat (weight e)"
proof -
  have ok: "weights_ok ns" using assms(1,2) by (simp add: weights_ok_def)
  obtain pre post where ns: "ns = pre @ e # post" using assms(4) by (metis split_list)
  define a where "a = sum_list (map weight pre)"
  have a: "0 \<le> a" "0 \<le> sum_list (map weight post)" "0 \<le> weight e"
    using assms(1) ns by (auto simp: a_def intro: sum_weights_nonneg)
  have tot: "total_weight 0 ns = Ret (sum_list (map weight ns))"
    using total_weight_eq [of ns 0] assms(1,2) by simp
  have "(r \<in> strategy_draws Weighted ns \<and> weighted_select r ns = Ret e) = (nat a \<le> r \<and> r < nat (a + weight e))" for r
  proof
    assume "nat a \<le> r \<and> r < nat (a + weight e)"
    then have r: "a \<le> int r" "int r < a + weight e" using a by linarith+
    moreover have "int r < sum_list (map weight ns)" using r a ns by (simp add: a_def)
    ultimately show "r \<in> strategy_draws Weighted ns \<and> weighted_select r ns = Ret e"
      using weighted_select_eq [OF ok ns, of r] by (simp add: a_def)
  next
    assume r: "r \<in> strategy_draws Weighted ns \<and> weighted_select r ns = Ret e"
    then have "int r < sum_list (map weight ns)"
      using tot ns by (auto simp: weighted_select_def split: if_splits)
    then obtain p n q where p: "ns = p @ n # q" "sum_list (map weight p) \<le> int r"
        "int r < sum_list (map weight p) + weight n"
      using weighted_pick_exists [OF assms(1), of "int r"] by auto
    then have "n = e" using weighted_select_eq [OF ok p] r by simp
    with p(1) ns assms(3) have "distinct (p @ e # q)" "p @ e # q = pre @ e # post" by metis+
    then have "p = pre" by (rule distinct_split_unique)
    then have "a \<le> int r" "int r < a + weight e" using p(2,3) \<open>n = e\<close> by (simp_all add: a_def)
    then show "nat a \<le> r \<and> r < nat (a + weight e)" by linarith
  qed
  then have "{r \<in> strategy_draws Weighted ns. weighted_select r ns = Ret e} = {nat a..<nat (a + weight e)}"
    by (intro set_eqI) (simp only: mem_Collect_eq atLeastLessThan_iff)
  then show ?thesis using a by simp
qed

theorem weighted_proportional_witness:
  "card {r \<in> strategy_draws Weighted demo_nodes. weighted_select r demo_nodes = Ret (demo_nodes ! 0)} = 3"
  using weighted_proportional [of demo_nodes "demo_nodes ! 0"] by (simp add: demo_nodes_def)

text \<open>
  Whatever is drawn, \<^verbatim>\<open>select\<close> returns one of the current nodes or throws \<^verbatim>\<open>std::runtime_error\<close>, never
  reads outside the list, and leaves the node list and the kind of strategy unchanged, provided the sums
  of the weights stay inside \<^verbatim>\<open>int\<close>.
\<close>

theorem select_returns_current_node:
  assumes "sums_fit (nodes lb)" and "r \<in> strategy_draws (strategy lb) (nodes lb)" and "lb_select r lb = (out, lb')"
  shows "((\<exists>e. out = Ret e \<and> e \<in> set (nodes lb)) \<or> (\<exists>msg. out = Throw (RuntimeError msg))) \<and>
    nodes lb' = nodes lb \<and> strategy_name lb' = strategy_name lb"
proof -
  have out: "out = fst (strategy_select r (strategy lb) (nodes lb))"
      "lb' = lb\<lparr>strategy := snd (strategy_select r (strategy lb) (nodes lb))\<rparr>"
    using assms(3) by (auto simp: lb_select_def case_prod_beta Let_def)
  have "(\<exists>e \<in> set (nodes lb). out = Ret e) \<or> (\<exists>msg. out = Throw (RuntimeError msg))"
    using strat.selects [OF _ assms(1,2)] strat.no_nodes [of r "strategy lb"] out(1) by (cases "nodes lb = []") auto
  then show ?thesis using strat.keeps_name out(2) by (auto simp: strategy_name_def)
qed

theorem select_returns_current_node_witness:
  "fst (lb_select 3 \<lparr>strategy = Weighted, nodes = demo_nodes\<rparr>) = Ret (demo_nodes ! 1) \<and>
   demo_nodes ! 1 \<in> set demo_nodes"
  using select_returns_current_node [of "\<lparr>strategy = Weighted, nodes = demo_nodes\<rparr>" 3]
  by (simp add: demo_nodes_def sums_fit_def int_range_def lb_select_def weighted_select_def)

lemma find_node_append: "find_node nm (xs @ ys) = (case find_node nm xs of Some n \<Rightarrow> Some n | None \<Rightarrow> find_node nm ys)"
  by (induction xs) auto

lemma find_node_None: "find_node nm xs = None \<longleftrightarrow> nm \<notin> ep_name ` set xs"
  by (induction xs) auto

lemma erase_first_other: "k \<noteq> nm \<Longrightarrow> find_node k (erase_first nm xs) = find_node k xs"
  by (induction xs) auto

lemma erase_first_absent: "distinct (map ep_name xs) \<Longrightarrow> find_node nm (erase_first nm xs) = None"
  by (induction xs) (auto simp: find_node_None)

lemma erase_first_names: "ep_name ` set (erase_first nm xs) \<subseteq> ep_name ` set xs"
  by (induction xs) auto

lemma erase_first_distinct: "distinct (map ep_name xs) \<Longrightarrow> distinct (map ep_name (erase_first nm xs))"
proof (induction xs)
  case (Cons x xs)
  then show ?case using erase_first_names [of nm xs] by auto
qed simp

text \<open>
  The node list as a map from names, while names are unique: adding a node under a new name makes it
  findable and changes no other lookup; removing a name reports whether it was there, and afterwards exactly that
  name is gone.
\<close>

theorem node_list_is_a_map:
  assumes "distinct (map ep_name (nodes lb))"
  shows "(lb_find (ep_name e) lb = None \<longrightarrow>
      lb_find k (add_node e lb) = (if k = ep_name e then Some e else lb_find k lb) \<and>
      distinct (map ep_name (nodes (add_node e lb)))) \<and>
    fst (remove_node nm lb) = (lb_find nm lb \<noteq> None) \<and>
    lb_find k (snd (remove_node nm lb)) = (if k = nm then None else lb_find k lb) \<and>
    distinct (map ep_name (nodes (snd (remove_node nm lb))))"
proof -
  have "lb_find (ep_name e) lb = None \<Longrightarrow>
      lb_find k (add_node e lb) = (if k = ep_name e then Some e else lb_find k lb)"
    by (auto simp: lb_find_def add_node_def find_node_append split: option.split)
  moreover have "lb_find (ep_name e) lb = None \<Longrightarrow> distinct (map ep_name (nodes (add_node e lb)))"
    using assms by (simp add: lb_find_def add_node_def find_node_None)
  moreover have "lb_find k (snd (remove_node nm lb)) = (if k = nm then None else lb_find k lb)"
    using erase_first_absent [OF assms, of nm] erase_first_other [of k nm "nodes lb"]
    by (auto simp: lb_find_def remove_node_def)
  moreover have "distinct (map ep_name (nodes (snd (remove_node nm lb))))"
    using assms erase_first_distinct [OF assms, of nm] by (simp add: remove_node_def)
  ultimately show ?thesis by (simp add: lb_find_def remove_node_def)
qed

theorem node_list_is_a_map_witness:
  "distinct (map ep_name (nodes \<lparr>strategy = Random, nodes = demo_nodes\<rparr>)) \<and>
   lb_find ''a'' (snd (remove_node ''a'' \<lparr>strategy = Random, nodes = demo_nodes\<rparr>)) = None"
  using node_list_is_a_map [of "\<lparr>strategy = Random, nodes = demo_nodes\<rparr>" "demo_nodes ! 0" "''a''" "''a''"]
  by (simp add: demo_nodes_def)

end
