(* ===== verification/Node_Manager.thy ===== *)
theory Node_Manager
  imports Service_Registry Conn_Balancer
begin

text \<open>
  \<^verbatim>\<open>src/registry/node_manager.h\<close> and \<^verbatim>\<open>.cpp\<close>: the registry and the load balancer together. The nodes found in
  ZooKeeper become the balancer's endpoints.
\<close>

record 'z NodeManager =
  services_path :: string
  registry :: "'z ServiceRegistry"
  balancer :: LoadBalancer
  nm_nodes :: "Endpoint list"

definition node_manager0 :: "'z \<Rightarrow> 'z NodeManager" where
  "node_manager0 z = \<lparr>services_path = ''/rpc/services'', registry = \<lparr>ensemble = z, reg_connected = False\<rparr>,
     balancer = load_balancer0, nm_nodes = []\<rparr>"

text \<open>An operation of the registry inside the manager.\<close>

definition via :: "('z ServiceRegistry \<Rightarrow> 'r option \<times> 'z ServiceRegistry) \<Rightarrow> 'z NodeManager \<Rightarrow> 'r option \<times> 'z NodeManager" where
  "via f m = (let (r, g) = f (registry m) in (r, m\<lparr>registry := g\<rparr>))"

definition nm_connect :: "'z zk_session \<Rightarrow> 'z NodeManager \<Rightarrow> bool option \<times> 'z NodeManager" where
  "nm_connect s = via (reg_connect s)"

definition parent_path :: "string \<Rightarrow> string option" where
  "parent_path path =
     (if CHR ''/'' \<notin> set path then None
      else let root = take (length path - length (base_name path) - 1) path
           in if root = [] then None else Some root)"

definition init_zk_paths :: "'z zk_session \<Rightarrow> string \<Rightarrow> 'z NodeManager \<Rightarrow> unit option \<times> 'z NodeManager" where
  "init_zk_paths s path m =
     (let m = m\<lparr>services_path := path\<rparr>;
          (r, m) = (case parent_path path of
                      None \<Rightarrow> (Some True, m)
                    | Some root \<Rightarrow> via (create_persistent_node s root) m)
      in case r of
           None \<Rightarrow> (None, m)
         | Some _ \<Rightarrow>
             (case via (create_persistent_node s path) m of
                (None, m) \<Rightarrow> (None, m) | (Some _, m) \<Rightarrow> (Some (), m)))"

definition endpoint_of :: "ServiceInstance \<Rightarrow> Endpoint" where
  "endpoint_of svc = \<lparr>ep_name = si_name svc, address = si_address svc, weight = 1\<rparr>"

definition refresh_nodes :: "'z zk_session \<Rightarrow> 'z NodeManager \<Rightarrow> Endpoint list option \<times> 'z NodeManager" where
  "refresh_nodes s m =
     (let m = m\<lparr>nm_nodes := []\<rparr> in
      case via (reg_list_services s (services_path m)) m of
        (None, m) \<Rightarrow> (None, m)
      | (Some services, m) \<Rightarrow>
          let ns = map endpoint_of services
          in (Some ns, m\<lparr>nm_nodes := ns, balancer := set_nodes ns (balancer m)\<rparr>))"

definition nm_select :: "nat \<Rightarrow> 'z NodeManager \<Rightarrow> Endpoint res option \<times> 'z NodeManager" where
  "nm_select r m = (let (e, lb) = lb_select r (balancer m) in (Some e, m\<lparr>balancer := lb\<rparr>))"

definition select_node :: "'z zk_session \<Rightarrow> nat \<Rightarrow> 'z NodeManager \<Rightarrow> Endpoint res option \<times> 'z NodeManager" where
  "select_node s r m =
     (if nm_nodes m = [] then
        (case refresh_nodes s m of (None, m) \<Rightarrow> (None, m) | (Some _, m) \<Rightarrow> nm_select r m)
      else nm_select r m)"

definition set_balancer_strategy :: "string \<Rightarrow> 'z NodeManager \<Rightarrow> 'z NodeManager" where
  "set_balancer_strategy nm m =
     m\<lparr>balancer := set_nodes (nm_nodes m) (set_strategy (Some (create_strategy nm)) (balancer m))\<rparr>"

definition nm_strategy_name :: "'z NodeManager \<Rightarrow> string" where
  "nm_strategy_name m = strategy_name (balancer m)"

definition register_node :: "'z zk_session \<Rightarrow> string \<Rightarrow> string \<Rightarrow> int \<Rightarrow> 'z NodeManager \<Rightarrow> bool option \<times> 'z NodeManager" where
  "register_node s node_name addr w m = via (reg_register_service s (services_path m) node_name addr) m"

definition unregister_node :: "'z zk_session \<Rightarrow> string \<Rightarrow> 'z NodeManager \<Rightarrow> bool option \<times> 'z NodeManager" where
  "unregister_node s node_name m = via (reg_unregister_service s (services_path m @ ''/'' @ node_name)) m"

definition nm_node_exists :: "'z zk_session \<Rightarrow> string \<Rightarrow> 'z NodeManager \<Rightarrow> bool option \<times> 'z NodeManager" where
  "nm_node_exists s path = via (reg_node_exists s path)"

definition list_node_names :: "'z zk_session \<Rightarrow> 'z NodeManager \<Rightarrow> string list option \<times> 'z NodeManager" where
  "list_node_names s m = via (reg_get_children s (services_path m)) m"

definition nm_get_node_data :: "'z zk_session \<Rightarrow> string \<Rightarrow> 'z NodeManager \<Rightarrow> string option \<times> 'z NodeManager" where
  "nm_get_node_data s path = via (reg_get_node_data s path)"

definition set_services_path :: "string \<Rightarrow> 'z NodeManager \<Rightarrow> 'z NodeManager" where
  "set_services_path path m = m\<lparr>services_path := path\<rparr>"

section \<open>Laws\<close>

text \<open>What the balancer offers is what the manager last found.\<close>

definition nm_inv :: "'z NodeManager \<Rightarrow> bool" where
  "nm_inv m \<longleftrightarrow> nodes (balancer m) = nm_nodes m"

lemma nodes_set_nodes [simp]: "nodes (set_nodes ns lb) = ns"
  by (simp add: set_nodes_def lb_reset_def set_strategy_def)

lemma refresh_serves:
  assumes "zk_serves s tree" and "reg_connected (registry m)"
    and "tree (ensemble (registry m)) (services_path m) \<noteq> None"
  defines "found \<equiv> child_of (tree (ensemble (registry m))) (services_path m)"
  shows "\<exists>nms m'. refresh_nodes s m = (Some (map (\<lambda>nm. \<lparr>ep_name = nm,
        address = the (tree (ensemble (registry m)) (services_path m @ ''/'' @ nm)), weight = 1\<rparr>) nms), m') \<and>
      distinct nms \<and> set nms = found \<and> nm_inv m' \<and> registry m' = registry m \<and> services_path m' = services_path m \<and>
      map ep_name (nm_nodes m') = nms"
proof -
  let ?g = "registry m"
  obtain sis nms where l: "reg_list_services s (services_path m) ?g = (Some sis, ?g)" "distinct nms" "set nms = found"
      "map (\<lambda>si. (si_name si, si_address si)) sis =
         map (\<lambda>nm. (nm, the (tree (ensemble ?g) (services_path m @ ''/'' @ nm)))) nms"
    using list_services_serves [OF assms(1-3)] unfolding found_def by blast
  have "map endpoint_of sis = map ((\<lambda>(nm, a). \<lparr>ep_name = nm, address = a, weight = 1\<rparr>) \<circ>
      (\<lambda>si. (si_name si, si_address si))) sis"
    by (simp add: endpoint_of_def)
  also have "\<dots> = map (\<lambda>nm. \<lparr>ep_name = nm, address = the (tree (ensemble ?g) (services_path m @ ''/'' @ nm)),
      weight = 1\<rparr>) nms"
    unfolding map_map [symmetric] l(4) by simp
  finally show ?thesis
    using l(1-3) by (intro exI [of _ nms]) (simp add: refresh_nodes_def via_def nm_inv_def Let_def comp_def)
qed

lemma register_serves:
  assumes "zk_serves s tree" and "reg_connected (registry m)"
    and "tree (ensemble (registry m)) (services_path m) \<noteq> None"
    and "tree (ensemble (registry m)) (services_path m @ ''/'' @ nm) = None" and "nm \<noteq> []" and "CHR ''/'' \<notin> set nm"
  shows "\<exists>m'. register_node s nm addr w m = (Some True, m') \<and> reg_connected (registry m') \<and>
    services_path m' = services_path m \<and>
    tree (ensemble (registry m')) = (tree (ensemble (registry m)))(services_path m @ ''/'' @ nm \<mapsto> addr)"
proof -
  obtain r z' where "s_create s (services_path m @ ''/'' @ nm) addr 1 (ensemble (registry m)) = (Some (make_ok r), z')"
      "tree z' = (tree (ensemble (registry m)))(services_path m @ ''/'' @ nm \<mapsto> addr)"
    using assms unfolding zk_serves_def by blast
  with assms(2) show ?thesis
    by (simp add: register_node_def via_def reg_register_service_def is_err_def is_ok_def make_ok_def keep_def)
qed

section \<open>Properties\<close>


definition demo_nm :: "(string, string) umap NodeManager" where
  "demo_nm = snd (nm_connect tree_session (node_manager0 [(''/rpc'', ''''), (''/rpc/services'', '''')]))"


text \<open>
  A node that vanishes between the listing and the reading of its data, or whose data cannot be read, stays in the
  list as an endpoint with an empty address, which the balancer hands out like any other.
\<close>

theorem unreadable_node_kept:
  assumes "reg_connected (registry m)" and "s_children s (services_path m) (ensemble (registry m)) = (Some (make_ok [nm]), z)"
    and "s_data s (services_path m @ ''/'' @ nm) z = (Some (make_error msg), z')" and "CHR ''/'' \<notin> set nm"
  shows "\<exists>m'. refresh_nodes s m = (Some [\<lparr>ep_name = nm, address = [], weight = 1\<rparr>], m') \<and>
    nodes (balancer m') = [\<lparr>ep_name = nm, address = [], weight = 1\<rparr>]"
  using assms base_name_child [OF assms(4), of "services_path m"]
  by (simp add: refresh_nodes_def via_def reg_list_services_def reg_get_children_def reg_get_service_def make_ok_def
      make_error_def keep_def endpoint_of_def Let_def)

definition flaky_session :: "unit zk_session" where
  "flaky_session =
     \<lparr>s_connect = (\<lambda>z. (Some void_ok, z)), s_create = (\<lambda>p d fl z. (Some (make_ok p), z)),
      s_children = (\<lambda>p z. (Some (make_ok [''node-1'']), z)),
      s_data = (\<lambda>p z. (Some (make_error ''no node''), z)), s_exists = (\<lambda>p z. (Some (make_ok zk_stat0), z)),
      s_remove = (\<lambda>p v z. (Some void_ok, z))\<rparr>"

theorem unreadable_node_kept_witness:
  "\<exists>m'. refresh_nodes flaky_session (node_manager0 ()\<lparr>registry := \<lparr>ensemble = (), reg_connected = True\<rparr>\<rparr>) =
     (Some [\<lparr>ep_name = ''node-1'', address = [], weight = 1\<rparr>], m')"
  using unreadable_node_kept [of "node_manager0 ()\<lparr>registry := \<lparr>ensemble = (), reg_connected = True\<rparr>\<rparr>" flaky_session
      "''node-1''" "()" "''no node''" "()"]
  by (auto simp: flaky_session_def)

end
