(* ===== verification/Registry_Wire.thy ===== *)
theory Registry_Wire
  imports Node_Manager "HOL-Library.Stream"
begin

text \<open>
  Registry, ZooKeeper client and wire together. \<^verbatim>\<open>Service_Registry\<close> takes the value of every future as a parameter; here the futures are
  those of the client of \<^verbatim>\<open>Zk_Client\<close>: an operation sends its request, and the loop around \<^verbatim>\<open>poll_one\<close> runs the client's completion
  handlers over the bytes of a TCP connection until the promise is set. The ensemble at the other end is not part of the program: it
  is a function from the packets it is sent to the packets it sends back. Its packets arrive in pieces of any size, at any time.
\<close>

section \<open>The connection and the polling loop\<close>

record 'z zk_wire =
  w_session :: "string \<Rightarrow> 'z \<Rightarrow> string \<times> 'z"
  w_request :: "string \<Rightarrow> 'z \<Rightarrow> string \<times> 'z"

text \<open>\<open>turns\<close>: how many bytes arrive during the \<^verbatim>\<open>wait_for\<close> of each turn of the loop.\<close>

record 'z zk_io =
  zc :: zk_client
  in_transit :: string
  readable :: string
  ens_state :: 'z
  turns :: "nat stream"

definition wait_for :: "'z zk_io \<Rightarrow> 'z zk_io" where
  "wait_for s = s\<lparr>readable := readable s @ take (shd (turns s)) (in_transit s), in_transit := drop (shd (turns s)) (in_transit s),
     turns := stl (turns s)\<rparr>"

definition transmit :: "(string \<Rightarrow> 'z \<Rightarrow> string \<times> 'z) \<Rightarrow> string \<Rightarrow> 'z zk_io \<Rightarrow> 'z zk_io" where
  "transmit w d s = (let (reply, z) = w d (ens_state s) in s\<lparr>in_transit := in_transit s @ reply, ens_state := z\<rparr>)"

text \<open>\<^verbatim>\<open>async_read\<close> of \<open>n\<close> bytes: the handler is ready when they are there.\<close>

definition read_ready :: "nat \<Rightarrow> (string \<Rightarrow> zk_client \<Rightarrow> zk_client res) \<Rightarrow> 'z zk_io \<Rightarrow> 'z zk_io res" where
  "read_ready n h s =
     (if length (readable s) < n then Ret s
      else bindR (h (take n (readable s)) (zc s)) (\<lambda>c. Ret (s\<lparr>zc := c, readable := drop n (readable s)\<rparr>)))"

definition poll_request :: "'z zk_wire \<Rightarrow> i32 \<Rightarrow> zk_stage \<Rightarrow> 'z zk_io \<Rightarrow> 'z zk_io res" where
  "poll_request w x stage s =
     (case stage of
        Posted d \<Rightarrow> Ret (s\<lparr>zc := post_handler x d (zc s)\<rparr>)
      | Writing d \<Rightarrow> Ret (transmit (w_request w) d (s\<lparr>zc := zk_write_handler x Success (zc s)\<rparr>))
      | AwaitLength \<Rightarrow> read_ready 4 (zk_length_handler x Success) s
      | AwaitBody n \<Rightarrow> read_ready n (zk_body_handler x Success) s)"

definition poll_handshake :: "'z zk_wire \<Rightarrow> 'z zk_io \<Rightarrow> 'z zk_io res" where
  "poll_handshake w s =
     (case handshake (zc s) of
        HsIdle \<Rightarrow> Ret s
      | HsConnecting \<Rightarrow> Ret (s\<lparr>zc := hs_connect_handler Success (zc s)\<rparr>)
      | HsWriting d \<Rightarrow> Ret (transmit (w_session w) d (s\<lparr>zc := hs_write_handler Success (zc s)\<rparr>))
      | HsAwaitLength \<Rightarrow> read_ready 4 (hs_length_handler Success) s
      | HsAwaitBody n \<Rightarrow> read_ready n (hs_body_handler Success) s)"

text \<open>\<^verbatim>\<open>io_context::poll_one\<close> runs a handler that is ready, if there is one. The registry never has two operations outstanding.\<close>

definition poll_one :: "'z zk_wire \<Rightarrow> 'z zk_io \<Rightarrow> 'z zk_io res" where
  "poll_one w s =
     (if handshake (zc s) \<noteq> HsIdle then poll_handshake w s
      else case cycles (zc s) of [] \<Rightarrow> Ret s | (x, stage) # _ \<Rightarrow> poll_request w x stage s)"

text \<open>
  The loop: \<^verbatim>\<open>while (future.wait_for(10ms) == timeout) ios_.poll_one();\<close>. It does not return when the future never becomes
  ready (\<^const>\<open>None\<close>), and an exception of a handler leaves it.
\<close>

partial_function (option) poll_until ::
    "('z zk_io \<Rightarrow> 'v option) \<Rightarrow> 'z zk_wire \<Rightarrow> 'z zk_io \<Rightarrow> ('v \<times> 'z zk_io) res option" where
  "poll_until fut w s =
     (let s = wait_for s in
      case fut s of Some v \<Rightarrow> Some (Ret (v, s))
      | None \<Rightarrow> (case poll_one w s of Ret s' \<Rightarrow> poll_until fut w s' | Throw e \<Rightarrow> Some (Throw e) | UB \<Rightarrow> Some UB))"

section \<open>Requests\<close>

datatype zk_request = CreateReq string string i32 | ChildrenReq string | DataReq string | ExistsReq string | RemoveReq string i32

fun zk_send :: "zk_request \<Rightarrow> zk_client \<Rightarrow> nat \<times> zk_client" where
  "zk_send (CreateReq path d fl) = zk_create path d acl_open_unsafe fl"
| "zk_send (ChildrenReq path) = zk_get_children path False"
| "zk_send (DataReq path) = zk_get_data path False"
| "zk_send (ExistsReq path) = zk_exists path False"
| "zk_send (RemoveReq path v) = zk_remove path v"

text \<open>An operation of the registry up to \<^verbatim>\<open>future.get()\<close>. It yields no value when the loop does not end or a handler throws.\<close>

definition ask :: "'z zk_wire \<Rightarrow> zk_request \<Rightarrow> 'z zk_io \<Rightarrow> zk_value option \<times> 'z zk_io" where
  "ask w req s =
     (let (k, c) = zk_send req (zc s) in
      case poll_until (\<lambda>s. map_of (settled (zc s)) k) w (s\<lparr>zc := c\<rparr>) of
        Some (Ret (v, s')) \<Rightarrow> (Some v, s') | _ \<Rightarrow> (None, s))"

definition ask_connect :: "'z zk_wire \<Rightarrow> ec \<Rightarrow> i32 \<Rightarrow> 'z zk_io \<Rightarrow> void_result option \<times> 'z zk_io" where
  "ask_connect w resolve_ec timeout s =
     (let c = zk_connect resolve_ec timeout ((zc s)\<lparr>connect_value := None\<rparr>) in
      case poll_until (\<lambda>s. connect_value (zc s)) w (s\<lparr>zc := c\<rparr>) of
        Some (Ret (v, s')) \<Rightarrow> (Some v, s') | _ \<Rightarrow> (None, s))"

text \<open>The type of each future.\<close>

fun created :: "zk_response \<Rightarrow> string option" where
  "created (CreateResponse p) = Some p" | "created _ = None"

fun listed :: "zk_response \<Rightarrow> string list option" where
  "listed (ChildrenResponse cs) = Some cs" | "listed _ = None"

fun fetched :: "zk_response \<Rightarrow> (string \<times> zk_stat) option" where
  "fetched (DataResponse d st) = Some (d, st)" | "fetched _ = None"

fun examined :: "zk_response \<Rightarrow> zk_stat option" where
  "examined (ExistsResponse st) = Some st" | "examined _ = None"

fun as_result :: "(zk_response \<Rightarrow> 'v option) \<Rightarrow> zk_value \<Rightarrow> 'v zk_result" where
  "as_result sel (ResponseResult r) = \<lparr>ok_val = Option.bind (ok_val r) sel, err_msg = err_msg r\<rparr>"
| "as_result sel (VoidResult r) = make_error (void_msg r)"

fun as_void :: "zk_value \<Rightarrow> void_result" where
  "as_void (VoidResult r) = r"
| "as_void (ResponseResult r) = void_error (err_msg r)"

definition io_session :: "'z zk_wire \<Rightarrow> i32 \<Rightarrow> 'z zk_io zk_session" where
  "io_session w timeout =
     \<lparr>s_connect = ask_connect w Success timeout,
      s_create = (\<lambda>p d fl s. apfst (map_option (as_result created)) (ask w (CreateReq p d fl) s)),
      s_children = (\<lambda>p s. apfst (map_option (as_result listed)) (ask w (ChildrenReq p) s)),
      s_data = (\<lambda>p s. apfst (map_option (as_result fetched)) (ask w (DataReq p) s)),
      s_exists = (\<lambda>p s. apfst (map_option (as_result examined)) (ask w (ExistsReq p) s)),
      s_remove = (\<lambda>p v s. apfst (map_option as_void) (ask w (RemoveReq p v) s))\<rparr>"

section \<open>The ensemble\<close>

text \<open>
  What ZooKeeper documents of its protocol. A request is answered by one packet that repeats its \<^verbatim>\<open>xid\<close>, with an error or with a response
  of the kind that belongs to the request; \<open>e_request\<close> is what the request does to the state of the ensemble and what it is answered with.
  Packets up to \<^verbatim>\<open>jute.maxbuffer\<close>, a mebibyte, are accepted and sent; a path that is listed can be asked for.
\<close>

datatype zk_answer = ZErr i32 | ZOk zk_response | ZDone

record 'z zk_ensemble =
  e_open :: "'z \<Rightarrow> 'z"
  e_request :: "zk_request \<Rightarrow> 'z \<Rightarrow> zk_answer \<times> 'z"

fun kind_for :: "zk_request \<Rightarrow> zk_kind option" where
  "kind_for (CreateReq p d fl) = Some CreateKind"
| "kind_for (ChildrenReq p) = Some ChildrenKind"
| "kind_for (DataReq p) = Some DataKind"
| "kind_for (ExistsReq p) = Some ExistsKind"
| "kind_for (RemoveReq p v) = None"

fun op_for :: "zk_request \<Rightarrow> op_code" where
  "op_for (CreateReq p d fl) = op_create"
| "op_for (ChildrenReq p) = op_get_children"
| "op_for (DataReq p) = op_get_data"
| "op_for (ExistsReq p) = op_exists"
| "op_for (RemoveReq p v) = op_remove"

fun body_for :: "zk_request \<Rightarrow> string" where
  "body_for (CreateReq p d fl) = serialize_create p d acl_open_unsafe fl"
| "body_for (ChildrenReq p) = serialize_path_watch p False"
| "body_for (DataReq p) = serialize_path_watch p False"
| "body_for (ExistsReq p) = serialize_path_watch p False"
| "body_for (RemoveReq p v) = serialize_delete p v"

definition packet_of :: "i32 \<Rightarrow> zk_request \<Rightarrow> string" where
  "packet_of x req = make_zpayload (zk_request_header [] x (op_code_value (op_for req)) @ body_for req)"

fun answer_err :: "zk_answer \<Rightarrow> i32" where
  "answer_err (ZErr e) = e" | "answer_err _ = 0"

fun answer_body :: "zk_answer \<Rightarrow> string" where
  "answer_body (ZOk r) = zk_response_layout r" | "answer_body _ = []"

fun answer_fits :: "zk_request \<Rightarrow> zk_answer \<Rightarrow> bool" where
  "answer_fits req (ZErr e) \<longleftrightarrow> e \<noteq> 0"
| "answer_fits req (ZOk r) \<longleftrightarrow> kind_for req = Some (kind_of r) \<and> zk_response_fits r"
| "answer_fits req ZDone \<longleftrightarrow> kind_for req = None"

definition reply_packet :: "i32 \<Rightarrow> i64 \<Rightarrow> zk_answer \<Rightarrow> string" where
  "reply_packet x zx a = make_zpayload (reply_layout \<lparr>reply_xid = x, zxid = zx, reply_err = answer_err a\<rparr> @ answer_body a)"

definition small :: "string \<Rightarrow> bool" where
  "small d \<longleftrightarrow> length d \<le> 0xfffff"

definition askable :: "zk_request \<Rightarrow> bool" where
  "askable req \<longleftrightarrow> small (packet_of 0 req)"

definition speaks :: "'z zk_wire \<Rightarrow> 'z zk_ensemble \<Rightarrow> bool" where
  "speaks w e \<longleftrightarrow>
     (\<forall>req x z. askable req \<longrightarrow> answer_fits req (fst (e_request e req z)) \<and>
        (\<exists>zx. w_request w (packet_of x req) z = (reply_packet x zx (fst (e_request e req z)), snd (e_request e req z)) \<and>
              small (reply_packet x zx (fst (e_request e req z))))) \<and>
     (\<forall>p z cs. fst (e_request e (ChildrenReq p) z) = ZOk (ChildrenResponse cs) \<longrightarrow>
        list_all (\<lambda>nm. askable (DataReq (p @ ''/'' @ nm))) cs) \<and>
     (\<forall>cr z. \<exists>resp. w_session w (make_zpayload (serialize_connect cr)) z = (make_zpayload (connect_layout resp), e_open e z) \<and>
        small (connect_layout resp) \<and> fits31 (cs_passwd resp))"

text \<open>The session the registry is meant to have: every request takes effect and its future gets the answer.\<close>

fun value_of :: "zk_request \<Rightarrow> zk_answer \<Rightarrow> zk_value" where
  "value_of req (ZErr e) = entry_reject (kind_for req) (zk_error_str (sint e))"
| "value_of req (ZOk r) = ResponseResult (make_ok r)"
| "value_of req ZDone = VoidResult void_ok"

definition ens_session :: "'z zk_ensemble \<Rightarrow> 'z zk_session" where
  "ens_session e =
     \<lparr>s_connect = (\<lambda>z. (Some void_ok, e_open e z)),
      s_create = (\<lambda>p d fl z. apfst (Some \<circ> as_result created \<circ> value_of (CreateReq p d fl)) (e_request e (CreateReq p d fl) z)),
      s_children = (\<lambda>p z. apfst (Some \<circ> as_result listed \<circ> value_of (ChildrenReq p)) (e_request e (ChildrenReq p) z)),
      s_data = (\<lambda>p z. apfst (Some \<circ> as_result fetched \<circ> value_of (DataReq p)) (e_request e (DataReq p) z)),
      s_exists = (\<lambda>p z. apfst (Some \<circ> as_result examined \<circ> value_of (ExistsReq p)) (e_request e (ExistsReq p) z)),
      s_remove = (\<lambda>p v z. apfst (Some \<circ> as_void \<circ> value_of (RemoveReq p v)) (e_request e (RemoveReq p v) z))\<rparr>"

section \<open>Waiting for bytes\<close>

text \<open>Bytes keep arriving.\<close>

definition lively :: "nat stream \<Rightarrow> bool" where
  "lively ns \<longleftrightarrow> (\<forall>k. \<exists>i. 0 < ns !! (k + i))"

lemma lively_stl: "lively ns \<Longrightarrow> lively (stl ns)"
  unfolding lively_def by (metis add_Suc snth.simps(2))

lemma lively_sdrop: "lively ns \<Longrightarrow> lively (sdrop k ns)"
  unfolding lively_def sdrop_snth by (metis add.assoc)

lemma lively_sum: "lively ns \<Longrightarrow> \<exists>k. n \<le> sum_list (stake k ns)"
proof (induction n arbitrary: ns)
  case (Suc n)
  then obtain i where i: "0 < ns !! i" unfolding lively_def by (metis add_0)
  obtain k where k: "n \<le> sum_list (stake k (sdrop (Suc i) ns))" using Suc.IH [OF lively_sdrop [OF Suc.prems]] by blast
  have "sum_list (stake (Suc i + k) ns) = sum_list (stake i ns) + ns !! i + sum_list (stake k (sdrop (Suc i) ns))"
    by (subst stake_add [symmetric]) (simp add: stake_Suc del: stake.simps sdrop.simps)
  then show ?case using i k by (intro exI [of _ "Suc i + k"]) linarith
qed simp

lemma wait_for_fields [simp]:
  "zc (wait_for s) = zc s" "ens_state (wait_for s) = ens_state s" "turns (wait_for s) = stl (turns s)"
  "readable (wait_for s) @ in_transit (wait_for s) = readable s @ in_transit s"
  by (simp_all add: wait_for_def)

lemma poll_until_step:
  "fut (wait_for s) = None \<Longrightarrow> poll_one w (wait_for s) = Ret s' \<Longrightarrow> poll_until fut w s = poll_until fut w s'"
  by (subst poll_until.simps) simp

lemma poll_until_done: "fut (wait_for s) = Some v \<Longrightarrow> poll_until fut w s = Some (Ret (v, wait_for s))"
  by (subst poll_until.simps) simp

text \<open>
  A read of \<open>n\<close> bytes is outstanding and the ensemble has sent them: the loop comes to the turn in which the
  handler \<open>h\<close> gets exactly these bytes.
\<close>

definition reads_next ::
    "('z zk_io \<Rightarrow> 'v option) \<Rightarrow> 'z zk_wire \<Rightarrow> nat \<Rightarrow> (string \<Rightarrow> zk_client \<Rightarrow> zk_client res) \<Rightarrow> zk_client \<Rightarrow> bool" where
  "reads_next fut w n h c \<longleftrightarrow> (\<forall>t. zc t = c \<longrightarrow> poll_one w t = read_ready n h t \<and> fut t = None)"

lemma poll_until_ready:
  assumes poll: "reads_next fut w n h (zc s)" and live: "lively (turns s)" and bytes: "readable s @ in_transit s = d @ rest" "length d = n" and h: "h d (zc s) = Ret c"
    and n: "n \<le> length (readable (wait_for s))"
  shows "\<exists>t. poll_until fut w s = poll_until fut w t \<and> zc t = c \<and> readable t @ in_transit t = rest \<and> ens_state t = ens_state s \<and>
    lively (turns t)"
proof -
  let ?t = "(wait_for s)\<lparr>zc := c, readable := drop n (readable (wait_for s))\<rparr>"
  have "take n (readable (wait_for s)) = d" "drop n (readable (wait_for s)) @ in_transit (wait_for s) = rest"
    using n bytes wait_for_fields(4) [of s]
    by (metis append_eq_conv_conj take_append diff_is_0_eq' take0 append_Nil2, metis append_eq_conv_conj drop_append diff_is_0_eq' drop0)
  then show ?thesis
    using poll_until_step [of fut s w ?t] assms lively_stl [OF live] by (intro exI [of _ ?t]) (simp add: read_ready_def reads_next_def)
qed

lemma poll_until_read:
  assumes "reads_next fut w n h (zc s)" and "lively (turns s)" and "readable s @ in_transit s = d @ rest" "length d = n" and "h d (zc s) = Ret c"
  shows "\<exists>t. poll_until fut w s = poll_until fut w t \<and> zc t = c \<and> readable t @ in_transit t = rest \<and> ens_state t = ens_state s \<and>
    lively (turns t)"
proof -
  obtain k where "n \<le> length (readable s) + sum_list (stake k (turns s))"
    using lively_sum [OF assms(2), of n] by (meson trans_le_add2)
  then show ?thesis using assms
  proof (induction k arbitrary: s)
    case (0 s)
    then have "n \<le> length (readable (wait_for s))" by (simp add: wait_for_def)
    then show ?case using poll_until_ready [OF 0(2-6)] by blast
  next
    case (Suc k s)
    show ?case
    proof (cases "n \<le> length (readable (wait_for s))")
      case True
      then show ?thesis using poll_until_ready [OF Suc.prems(2-6)] by blast
    next
      case False
      have "length (readable s) + length (in_transit s) = n + length rest" using arg_cong [OF Suc.prems(4), of length] Suc.prems(5) by simp
      then have more: "n \<le> length (readable (wait_for s)) + sum_list (stake k (turns (wait_for s)))"
        using False Suc.prems(1) by (auto simp: wait_for_def min_def split: if_splits)
      have "poll_until fut w s = poll_until fut w (wait_for s)"
        using False Suc.prems(2) by (intro poll_until_step) (simp_all add: read_ready_def reads_next_def)
      moreover have "\<exists>t. poll_until fut w (wait_for s) = poll_until fut w t \<and> zc t = c \<and> readable t @ in_transit t = rest \<and>
          ens_state t = ens_state (wait_for s) \<and> lively (turns t)"
        by (rule Suc.IH [OF more]) (use Suc.prems lively_stl in simp_all)
      ultimately show ?thesis by simp
    qed
  qed
qed


section \<open>One request\<close>

text \<open>Between two operations of the registry: nothing is outstanding.\<close>

definition io_idle :: "'z zk_io \<Rightarrow> bool" where
  "io_idle s \<longleftrightarrow> handshake (zc s) = HsIdle \<and> cycles (zc s) = [] \<and> zk_pending (zc s) = [] \<and>
     fst ` set (settled (zc s)) \<subseteq> {..<requests (zc s)} \<and> readable s = [] \<and> in_transit s = [] \<and> lively (turns s)"

lemma zk_send_eq: "zk_send req = send_request (kind_for req) (op_for req) (body_for req)"
  by (cases req) (simp_all add: zk_create_def zk_get_children_def zk_get_data_def zk_exists_def zk_remove_def)

lemma length_packet: "length (packet_of x req) = length (packet_of y req)"
  by (simp add: packet_of_def make_zpayload_def zk_request_header_def)

text \<open>The client while the request numbered \<open>x\<close> of promise \<open>k\<close> is at a stage.\<close>

definition in_flight :: "i32 \<Rightarrow> nat \<Rightarrow> zk_kind option \<Rightarrow> zk_stage \<Rightarrow> zk_client \<Rightarrow> bool" where
  "in_flight x k kind stage c \<longleftrightarrow> handshake c = HsIdle \<and> cycles c = [(x, stage)] \<and> zk_pending c = [(x, (k, kind))] \<and>
     requests c = Suc k \<and> fst ` set (settled c) \<subseteq> {..<k}"

lemma in_flight_stage: "in_flight x k kind stage c \<Longrightarrow> in_flight x k kind stage' (set_cycle x stage' c)"
  by (simp add: in_flight_def set_cycle_def)

lemma in_flight_open: "in_flight x k kind stage c \<Longrightarrow> map_of (settled c) k = None"
  by (auto simp: in_flight_def map_of_eq_None_iff)

lemma in_flight_poll: "in_flight x k kind stage (zc s) \<Longrightarrow> poll_one w s = poll_request w x stage s"
  by (simp add: poll_one_def in_flight_def)

lemma send_in_flight:
  assumes "io_idle s" and "zk_send req (zc s) = (k, c)"
  shows "\<exists>x. in_flight x k (kind_for req) (Posted (packet_of x req)) c"
  using assms
  by (auto simp: zk_send_eq send_request_def do_send_def in_flight_def io_idle_def packet_of_def Let_def)

lemma vector_of_be32: "n < 2 ^ 31 \<Longrightarrow> vector_of_size (of_be32 (be32 (word_of_nat n))) = Ret n"
  by (simp add: vector_of_size_def)

lemma in_flight_reads:
  assumes "in_flight x k kind stage c" and "\<And>t. poll_request w x stage t = read_ready n h t"
  shows "reads_next (\<lambda>s. map_of (settled (zc s)) k) w n h c"
  using assms in_flight_open [OF assms(1)] in_flight_poll [of x k kind stage _ w] by (simp add: reads_next_def)

lemma answer_resolves:
  assumes "in_flight x k (kind_for req) stage c" and "answer_fits req a"
    and body_def: "body = reply_layout \<lparr>reply_xid = x, zxid = zx, reply_err = answer_err a\<rparr> @ answer_body a"
  shows "zk_body_handler x Success body c = Ret (settle x k (value_of req a) (end_cycle x c))"
proof -
  let ?rh = "\<lparr>reply_xid = x, zxid = zx, reply_err = answer_err a\<rparr>"
  have h: "read_reply_header body 0 = Ret (?rh, length (reply_layout ?rh))"
    using rd_reply.reads [of "[]" 0 ?rh "answer_body a"] by (simp add: body_def)
  have z: "sint e = 0 \<longleftrightarrow> e = 0" for e :: i32 by (simp add: signed_eq_0_iff)
  have "entry_resolve (kind_for req) (answer_err a) body (length (reply_layout ?rh)) = Ret (value_of req a)"
  proof (cases a)
    case (ZErr e)
    then show ?thesis using assms(2) z by (auto simp: entry_resolve_def entry_reject_def split: option.split)
  next
    case (ZOk r)
    then have "read_response (kind_of r) (reply_layout ?rh @ zk_response_layout r @ []) (length (reply_layout ?rh)) =
        Ret (r, length (reply_layout ?rh) + length (zk_response_layout r))"
      using assms(2) by (intro read_response_layout) simp_all
    then show ?thesis using assms(2) ZOk by (simp add: entry_resolve_def body_def)
  next
    case ZDone
    then show ?thesis using assms(2) by (simp add: entry_resolve_def)
  qed
  then show ?thesis
    using assms(1) h by (simp add: zk_body_handler_def resolve_pending_def in_flight_def Let_def)
qed

text \<open>The request is posted and written.\<close>

lemma poll_until_sent:
  assumes f: "in_flight x k kind (Posted d) (zc s)" and s: "readable s = []" "in_transit s = []" "lively (turns s)"
    and w: "w_request w d (ens_state s) = (r, z)"
  shows "\<exists>t. poll_until (\<lambda>s. map_of (settled (zc s)) k) w s = poll_until (\<lambda>s. map_of (settled (zc s)) k) w t \<and>
    in_flight x k kind AwaitLength (zc t) \<and> readable t @ in_transit t = r \<and> ens_state t = z \<and> lively (turns t)"
proof -
  let ?fut = "\<lambda>s. map_of (settled (zc s)) k"
  define s1 where "s1 = (wait_for s)\<lparr>zc := set_cycle x (Writing d) (zc s)\<rparr>"
  define s2 where "s2 = transmit (w_request w) d ((wait_for s1)\<lparr>zc := set_cycle x AwaitLength (zc s1)\<rparr>)"
  have f1: "in_flight x k kind (Writing d) (zc s1)" using in_flight_stage [OF f] by (simp add: s1_def)
  have "poll_one w (wait_for s) = Ret s1"
    using in_flight_poll [of x k kind "Posted d" "wait_for s"] f by (simp add: s1_def poll_request_def post_handler_def)
  then have "poll_until ?fut w s = poll_until ?fut w s1" using in_flight_open [OF f] by (intro poll_until_step) simp_all
  moreover have "poll_one w (wait_for s1) = Ret s2"
    using in_flight_poll [of x k kind "Writing d" "wait_for s1"] f1 by (simp add: s2_def poll_request_def zk_write_handler_def)
  then have "poll_until ?fut w s1 = poll_until ?fut w s2" using in_flight_open [OF f1] by (intro poll_until_step) simp_all
  moreover have "in_flight x k kind AwaitLength (zc s2)" "readable s2 @ in_transit s2 = r" "ens_state s2 = z" "lively (turns s2)"
    using in_flight_stage [OF f1, of AwaitLength] w s lively_stl by (simp_all add: s2_def s1_def transmit_def wait_for_def)
  ultimately show ?thesis by auto
qed

text \<open>The reply is read, in whatever pieces it arrives.\<close>

lemma poll_until_replied:
  assumes f: "in_flight x k (kind_for req) AwaitLength (zc s)" and s: "readable s @ in_transit s = reply_packet x zx a" "lively (turns s)"
    and a: "answer_fits req a" "small (reply_packet x zx a)"
  shows "\<exists>t. poll_until (\<lambda>s. map_of (settled (zc s)) k) w s = Some (Ret (value_of req a, t)) \<and> io_idle t \<and> ens_state t = ens_state s"
proof -
  let ?fut = "\<lambda>s. map_of (settled (zc s)) k"
  define body where "body = reply_layout \<lparr>reply_xid = x, zxid = zx, reply_err = answer_err a\<rparr> @ answer_body a"
  have p: "make_zpayload body = be32 (word_of_nat (length body)) @ body" by (simp add: make_zpayload_def write_int32_def)
  have n: "length body < 2 ^ 31" using a(2) by (simp add: reply_packet_def make_zpayload_def small_def body_def)
  have r1: "reads_next ?fut w 4 (zk_length_handler x Success) (zc s)"
    by (rule in_flight_reads [OF f]) (simp add: poll_request_def)
  have b1: "readable s @ in_transit s = be32 (word_of_nat (length body)) @ body" "length (be32 (word_of_nat (length body))) = 4"
    using s(1) p by (simp_all add: reply_packet_def body_def)
  have h1: "zk_length_handler x Success (be32 (word_of_nat (length body))) (zc s) = Ret (set_cycle x (AwaitBody (length body)) (zc s))"
    using vector_of_be32 [OF n] by (simp add: zk_length_handler_def)
  obtain t where t: "poll_until ?fut w s = poll_until ?fut w t" "zc t = set_cycle x (AwaitBody (length body)) (zc s)"
      "readable t @ in_transit t = body @ []" "ens_state t = ens_state s" "lively (turns t)"
    using poll_until_read [OF r1 s(2) b1 h1] by (elim exE conjE) (rule that; simp)
  have f': "in_flight x k (kind_for req) (AwaitBody (length body)) (zc t)" using in_flight_stage [OF f] by (simp add: t(2))
  have "reads_next ?fut w (length body) (zk_body_handler x Success) (zc t)"
    by (rule in_flight_reads [OF f']) (simp add: poll_request_def)
  from poll_until_read [OF this t(5,3) refl answer_resolves [OF f' a(1) body_def]]
  obtain u where u: "poll_until ?fut w t = poll_until ?fut w u" "zc u = settle x k (value_of req a) (end_cycle x (zc t))"
      "readable u @ in_transit u = []" "ens_state u = ens_state t" "lively (turns u)" by blast
  have "map_of (settled (zc u)) k = Some (value_of req a)"
    using in_flight_open [OF f'] u(2) by (simp add: settle_def end_cycle_def map_add_def)
  then have "poll_until ?fut w u = Some (Ret (value_of req a, wait_for u))" by (intro poll_until_done) simp
  moreover have "io_idle (wait_for u)"
    using f' u(2,3,5) lively_stl by (auto simp: io_idle_def settle_def end_cycle_def in_flight_def wait_for_def)
  ultimately show ?thesis using t(1,4) u(1,4) by auto
qed

lemma ask_served:
  assumes "speaks w e" and "io_idle s" and "askable req"
  shows "\<exists>s'. ask w req s = (Some (value_of req (fst (e_request e req (ens_state s)))), s') \<and> io_idle s' \<and>
    ens_state s' = snd (e_request e req (ens_state s))"
proof -
  obtain k c where kc: "zk_send req (zc s) = (k, c)" by force
  obtain x where f: "in_flight x k (kind_for req) (Posted (packet_of x req)) c" using send_in_flight [OF assms(2) kc] by blast
  obtain a z where a: "e_request e req (ens_state s) = (a, z)" by force
  obtain zx where w: "answer_fits req a" "w_request w (packet_of x req) (ens_state s) = (reply_packet x zx a, z)" "small (reply_packet x zx a)"
    using assms(1,3) a unfolding speaks_def by (metis fst_conv snd_conv)
  let ?fut = "\<lambda>s. map_of (settled (zc s)) k"
  obtain t where t: "poll_until ?fut w (s\<lparr>zc := c\<rparr>) = poll_until ?fut w t" "in_flight x k (kind_for req) AwaitLength (zc t)"
      "readable t @ in_transit t = reply_packet x zx a" "ens_state t = z" "lively (turns t)"
    using poll_until_sent [of x k "kind_for req" "packet_of x req" "s\<lparr>zc := c\<rparr>" w] f w(2) assms(2) by (auto simp: io_idle_def)
  obtain u where "poll_until ?fut w t = Some (Ret (value_of req a, u))" "io_idle u" "ens_state u = z"
    using poll_until_replied [OF t(2,3,5) w(1,3)] t(4) by blast
  then show ?thesis using t(1) kc a by (intro exI [of _ u]) (simp add: ask_def)
qed


section \<open>Connecting\<close>

definition shaking :: "zk_handshake \<Rightarrow> zk_client \<Rightarrow> bool" where
  "shaking st c \<longleftrightarrow> handshake c = st \<and> connect_value c = None \<and> cycles c = [] \<and> zk_pending c = [] \<and>
     fst ` set (settled c) \<subseteq> {..<requests c}"

lemma shaking_poll: "shaking st (zc s) \<Longrightarrow> st \<noteq> HsIdle \<Longrightarrow> poll_one w s = poll_handshake w s"
  by (simp add: poll_one_def shaking_def)

lemma shaking_reads:
  assumes "shaking st c" and "st \<noteq> HsIdle" and "\<And>t. handshake (zc t) = st \<Longrightarrow> poll_handshake w t = read_ready n h t"
  shows "reads_next (\<lambda>s. connect_value (zc s)) w n h c"
  using assms by (auto simp: reads_next_def shaking_def poll_one_def)

lemma connect_sent:
  assumes f: "shaking HsConnecting (zc s)" and s: "readable s = []" "in_transit s = []" "lively (turns s)"
    and w: "\<And>cr. \<exists>resp. w_session w (make_zpayload (serialize_connect cr)) (ens_state s) = (make_zpayload (connect_layout resp), z) \<and>
      small (connect_layout resp) \<and> fits31 (cs_passwd resp)"
  shows "\<exists>t resp. poll_until (\<lambda>s. connect_value (zc s)) w s = poll_until (\<lambda>s. connect_value (zc s)) w t \<and> shaking HsAwaitLength (zc t) \<and>
    readable t @ in_transit t = make_zpayload (connect_layout resp) \<and> small (connect_layout resp) \<and> fits31 (cs_passwd resp) \<and>
    ens_state t = z \<and> lively (turns t)"
proof -
  let ?fut = "\<lambda>s. connect_value (zc s)"
  define cr where "cr = connect_request0\<lparr>cr_timeout_ms := zk_timeout_ms (zc s), cr_session_id := session_id (zc s), cr_passwd := passwd (zc s)\<rparr>"
  define d where "d = make_zpayload (serialize_connect cr)"
  obtain resp where resp: "w_session w d (ens_state s) = (make_zpayload (connect_layout resp), z)" "small (connect_layout resp)"
      "fits31 (cs_passwd resp)" using w d_def by blast
  define s1 where "s1 = (wait_for s)\<lparr>zc := (zc s)\<lparr>handshake := HsWriting d\<rparr>\<rparr>"
  define s2 where "s2 = transmit (w_session w) d ((wait_for s1)\<lparr>zc := (zc s1)\<lparr>handshake := HsAwaitLength\<rparr>\<rparr>)"
  have "poll_one w (wait_for s) = Ret s1"
    using f by (simp add: poll_one_def poll_handshake_def shaking_def s1_def hs_connect_handler_def do_handshake_def d_def cr_def Let_def)
  then have "poll_until ?fut w s = poll_until ?fut w s1" using f by (intro poll_until_step) (simp_all add: shaking_def)
  moreover have "poll_one w (wait_for s1) = Ret s2"
    by (simp add: poll_one_def poll_handshake_def s1_def s2_def hs_write_handler_def)
  then have "poll_until ?fut w s1 = poll_until ?fut w s2" using f by (intro poll_until_step) (simp_all add: shaking_def s1_def)
  moreover have "shaking HsAwaitLength (zc s2)" "readable s2 @ in_transit s2 = make_zpayload (connect_layout resp)" "ens_state s2 = z"
      "lively (turns s2)"
    using f resp(1) s lively_stl by (simp_all add: s2_def s1_def shaking_def transmit_def wait_for_def)
  ultimately show ?thesis using resp(2,3) by auto
qed

lemma connect_replied:
  assumes f: "shaking HsAwaitLength (zc s)" and s: "readable s @ in_transit s = make_zpayload (connect_layout resp)" "lively (turns s)"
    and resp: "small (connect_layout resp)" "fits31 (cs_passwd resp)"
  shows "\<exists>t. poll_until (\<lambda>s. connect_value (zc s)) w s = Some (Ret (void_ok, t)) \<and> io_idle t \<and> ens_state t = ens_state s"
proof -
  let ?fut = "\<lambda>s. connect_value (zc s)" and ?body = "connect_layout resp"
  have n: "length ?body < 2 ^ 31" using resp(1) by (simp add: small_def)
  have r1: "reads_next ?fut w 4 (hs_length_handler Success) (zc s)"
    by (rule shaking_reads [OF f]) (simp_all add: poll_handshake_def)
  have b1: "readable s @ in_transit s = be32 (word_of_nat (length ?body)) @ ?body" "length (be32 (word_of_nat (length ?body))) = 4"
    using s(1) by (simp_all add: make_zpayload_def write_int32_def)
  have h1: "hs_length_handler Success (be32 (word_of_nat (length ?body))) (zc s) = Ret ((zc s)\<lparr>handshake := HsAwaitBody (length ?body)\<rparr>)"
    using vector_of_be32 [OF n] by (simp add: hs_length_handler_def)
  obtain t where t: "poll_until ?fut w s = poll_until ?fut w t" "zc t = (zc s)\<lparr>handshake := HsAwaitBody (length ?body)\<rparr>"
      "readable t @ in_transit t = ?body @ []" "ens_state t = ens_state s" "lively (turns t)"
    using poll_until_read [OF r1 s(2) b1 h1] by (elim exE conjE) (rule that; simp)
  have f': "shaking (HsAwaitBody (length ?body)) (zc t)" using f by (simp add: t(2) shaking_def)
  have r2: "reads_next ?fut w (length ?body) (hs_body_handler Success) (zc t)"
    by (rule shaking_reads [OF f']) (simp_all add: poll_handshake_def)
  have "read_connect_response ([] @ ?body @ []) 0 = Ret (resp, 0 + length ?body)" by (rule rd_conn.reads) (simp_all add: resp(2))
  then obtain c where c: "hs_body_handler Success ?body (zc t) = Ret c" "handshake c = HsIdle" "connect_value c = Some void_ok"
      "cycles c = []" "zk_pending c = []" "fst ` set (settled c) \<subseteq> {..<requests c}"
    using f' by (simp add: hs_body_handler_def shaking_def)
  obtain u where u: "poll_until ?fut w t = poll_until ?fut w u" "zc u = c" "readable u @ in_transit u = []" "ens_state u = ens_state t"
      "lively (turns u)"
    using poll_until_read [OF r2 t(5,3) refl c(1)] by blast
  have "poll_until ?fut w u = Some (Ret (void_ok, wait_for u))" using c(3) u(2) by (intro poll_until_done) simp
  moreover have "io_idle (wait_for u)" using c u(2,3,5) lively_stl by (simp add: io_idle_def wait_for_def)
  ultimately show ?thesis using t(1,4) u(1,4) by auto
qed

lemma connect_served:
  assumes "speaks w e" and "io_idle s"
  shows "\<exists>s'. ask_connect w Success timeout s = (Some void_ok, s') \<and> io_idle s' \<and> ens_state s' = e_open e (ens_state s)"
proof -
  let ?fut = "\<lambda>s. connect_value (zc s)" and ?c = "zk_connect Success timeout ((zc s)\<lparr>connect_value := None\<rparr>)"
  have f: "shaking HsConnecting ?c" using assms(2) by (simp add: zk_connect_def shaking_def io_idle_def)
  have w: "\<exists>resp. w_session w (make_zpayload (serialize_connect cr)) (ens_state s) = (make_zpayload (connect_layout resp), e_open e (ens_state s)) \<and>
      small (connect_layout resp) \<and> fits31 (cs_passwd resp)" for cr
    using assms(1) unfolding speaks_def by blast
  obtain t resp where t: "poll_until ?fut w (s\<lparr>zc := ?c\<rparr>) = poll_until ?fut w t" "shaking HsAwaitLength (zc t)"
      "readable t @ in_transit t = make_zpayload (connect_layout resp)" "lively (turns t)" "small (connect_layout resp)" "fits31 (cs_passwd resp)"
      "ens_state t = e_open e (ens_state s)"
    using connect_sent [of "s\<lparr>zc := ?c\<rparr>" w "e_open e (ens_state s)"] f w assms(2) by (auto simp: io_idle_def)
  obtain u where "poll_until ?fut w t = Some (Ret (void_ok, u))" "io_idle u" "ens_state u = ens_state t"
    using connect_replied [OF t(2-6)] by blast
  then show ?thesis using t(1,7) by (intro exI [of _ u]) (simp add: ask_connect_def Let_def)
qed


section \<open>The registry over the wire\<close>

datatype reg_op = RegConnect | RegChildren string | RegData string | RegService string | RegList string | RegExists string
  | RegRegister string string string | RegUnregister string | RegCreate string

datatype reg_out = Flag bool | Names "string list" | Bytes string | Instance ServiceInstance | Instances "ServiceInstance list"

fun reg_do :: "'z zk_session \<Rightarrow> reg_op \<Rightarrow> 'z ServiceRegistry \<Rightarrow> reg_out option \<times> 'z ServiceRegistry" where
  "reg_do s RegConnect g = apfst (map_option Flag) (reg_connect s g)"
| "reg_do s (RegChildren p) g = apfst (map_option Names) (reg_get_children s p g)"
| "reg_do s (RegData p) g = apfst (map_option Bytes) (reg_get_node_data s p g)"
| "reg_do s (RegService p) g = apfst (map_option Instance) (reg_get_service s p g)"
| "reg_do s (RegList p) g = apfst (map_option Instances) (reg_list_services s p g)"
| "reg_do s (RegExists p) g = apfst (map_option Flag) (reg_node_exists s p g)"
| "reg_do s (RegRegister p nm addr) g = apfst (map_option Flag) (reg_register_service s p nm addr g)"
| "reg_do s (RegUnregister p) g = apfst (map_option Flag) (reg_unregister_service s p g)"
| "reg_do s (RegCreate p) g = apfst (map_option Flag) (create_persistent_node s p g)"

text \<open>A program of operations; it ends at one that does not return.\<close>

fun reg_run :: "'z zk_session \<Rightarrow> reg_op list \<Rightarrow> 'z ServiceRegistry \<Rightarrow> reg_out list option \<times> 'z ServiceRegistry" where
  "reg_run s [] g = (Some [], g)"
| "reg_run s (op # ops) g =
     (case reg_do s op g of (None, g) \<Rightarrow> (None, g)
      | (Some out, g) \<Rightarrow> apfst (map_option (\<lambda>outs. out # outs)) (reg_run s ops g))"

text \<open>The requests of an operation are not larger than a packet may be.\<close>

fun op_fits :: "reg_op \<Rightarrow> bool" where
  "op_fits RegConnect \<longleftrightarrow> True"
| "op_fits (RegChildren p) \<longleftrightarrow> askable (ChildrenReq p)"
| "op_fits (RegData p) \<longleftrightarrow> askable (DataReq p)"
| "op_fits (RegService p) \<longleftrightarrow> askable (DataReq p)"
| "op_fits (RegList p) \<longleftrightarrow> askable (ChildrenReq p)"
| "op_fits (RegExists p) \<longleftrightarrow> askable (ExistsReq p)"
| "op_fits (RegRegister p nm addr) \<longleftrightarrow> askable (CreateReq (p @ ''/'' @ nm) addr 1)"
| "op_fits (RegUnregister p) \<longleftrightarrow> askable (RemoveReq p (-1))"
| "op_fits (RegCreate p) \<longleftrightarrow> askable (CreateReq p [] 0)"

definition reg_rel :: "'z zk_io ServiceRegistry \<Rightarrow> 'z ServiceRegistry \<Rightarrow> bool" where
  "reg_rel g h \<longleftrightarrow> io_idle (ensemble g) \<and> ens_state (ensemble g) = ensemble h \<and> reg_connected g = reg_connected h"

definition same_outcome :: "'r option \<times> 'z zk_io ServiceRegistry \<Rightarrow> 'r option \<times> 'z ServiceRegistry \<Rightarrow> bool" where
  "same_outcome x y \<longleftrightarrow> (\<exists>r g h. x = (Some r, g) \<and> y = (Some r, h) \<and> reg_rel g h)"

lemma same_outcome_map: "same_outcome x y \<Longrightarrow> same_outcome (apfst (map_option f) x) (apfst (map_option f) y)"
  by (auto simp: same_outcome_def)

text \<open>One request of an operation, on both sides.\<close>

lemma await_served:
  assumes "speaks w e" and "reg_rel g h" and "askable req"
    and "\<And>v s z. io_idle s \<Longrightarrow> ens_state s = z \<Longrightarrow> same_outcome (k (f v) s) (k' (f v) z)"
  shows "same_outcome (await (apfst (map_option f) (ask w req (ensemble g))) k stuck)
    (await (apfst (Some \<circ> f \<circ> value_of req) (e_request e req (ensemble h))) k' stuck')"
proof -
  have idle: "io_idle (ensemble g)" "ens_state (ensemble g) = ensemble h" using assms(2) by (simp_all add: reg_rel_def)
  obtain a z where a: "e_request e req (ensemble h) = (a, z)" by force
  obtain s where "ask w req (ensemble g) = (Some (value_of req a), s)" "io_idle s" "ens_state s = z"
    using ask_served [OF assms(1) idle(1) assms(3)] idle(2) a by auto
  then show ?thesis using assms(4) a by simp
qed

lemma same_outcomeI: "reg_rel g h \<Longrightarrow> same_outcome (Some r, g) (Some r, h)"
  by (simp add: same_outcome_def)

lemma reg_rel_keep: "reg_rel g h \<Longrightarrow> io_idle s \<Longrightarrow> ens_state s = z \<Longrightarrow> reg_rel (keep g s) (keep h z)"
  by (simp add: reg_rel_def keep_def)

lemma guarded_served:
  assumes "speaks w e" and "reg_rel g h" and "askable req"
  shows "same_outcome
    (if \<not> reg_connected g then (Some d, g)
     else await (apfst (map_option f) (ask w req (ensemble g))) (\<lambda>r z. (Some (q r), keep g z)) (keep g))
    (if \<not> reg_connected h then (Some d, h)
     else await (apfst (Some \<circ> f \<circ> value_of req) (e_request e req (ensemble h))) (\<lambda>r z. (Some (q r), keep h z)) (keep h))"
proof (cases "reg_connected g")
  case True
  moreover have "reg_connected h" using True assms(2) by (simp add: reg_rel_def)
  ultimately show ?thesis by (simp del: o_apply) (intro await_served [OF assms] same_outcomeI reg_rel_keep [OF assms(2)])
next
  case False
  moreover have "\<not> reg_connected h" using False assms(2) by (simp add: reg_rel_def)
  ultimately show ?thesis using assms(2) by (simp add: same_outcomeI)
qed

lemmas session_ops = io_session_def ens_session_def zk_session.select_convs

lemma get_service_served:
  assumes "speaks w e" and "reg_rel g h" and "askable (DataReq p)"
  shows "same_outcome (reg_get_service (io_session w tmo) p g) (reg_get_service (ens_session e) p h)"
  unfolding reg_get_service_def session_ops Let_def by (rule guarded_served [OF assms])

lemma get_services_served:
  assumes "speaks w e" and "reg_rel g h" and "list_all (\<lambda>nm. askable (DataReq (p @ ''/'' @ nm))) nms"
  shows "same_outcome (get_services (io_session w tmo) p nms g) (get_services (ens_session e) p nms h)"
  using assms(2,3)
proof (induction nms arbitrary: g h)
  case (Cons nm nms)
  have "same_outcome (reg_get_service (io_session w tmo) (p @ ''/'' @ nm) g) (reg_get_service (ens_session e) (p @ ''/'' @ nm) h)"
    using get_service_served [OF assms(1) Cons.prems(1)] Cons.prems(2) by simp
  then obtain si g' h' where "reg_get_service (io_session w tmo) (p @ ''/'' @ nm) g = (Some si, g')"
      "reg_get_service (ens_session e) (p @ ''/'' @ nm) h = (Some si, h')" "reg_rel g' h'"
    by (auto simp: same_outcome_def)
  with Cons.IH [of g' h'] Cons.prems(2) show ?case by (auto simp: same_outcome_def split: prod.split option.split)
qed (simp add: same_outcome_def)

lemma get_children_served:
  assumes "speaks w e" and "reg_rel g h" and "askable (ChildrenReq p)"
  shows "same_outcome (reg_get_children (io_session w tmo) p g) (reg_get_children (ens_session e) p h)"
  unfolding reg_get_children_def session_ops by (rule guarded_served [OF assms])

lemma children_askable:
  assumes "speaks w e" and "reg_get_children (ens_session e) p h = (Some cs, h')"
  shows "list_all (\<lambda>nm. askable (DataReq (p @ ''/'' @ nm))) cs"
proof (cases "reg_connected h")
  case True
  obtain a z where a: "e_request e (ChildrenReq p) (ensemble h) = (a, z)" by force
  have "cs = [] \<or> a = ZOk (ChildrenResponse cs)"
  proof (cases a)
    case (ZOk r)
    then show ?thesis using True a assms(2)
      by (cases r) (auto simp: reg_get_children_def ens_session_def make_ok_def)
  qed (use True a assms(2) in \<open>auto simp: reg_get_children_def ens_session_def entry_reject_def make_error_def\<close>)
  then show ?thesis using assms(1) a unfolding speaks_def by (metis fst_conv list.pred_inject(1))
qed (use assms(2) in \<open>auto simp: reg_get_children_def\<close>)

lemma list_services_served:
  assumes "speaks w e" and "reg_rel g h" and "askable (ChildrenReq p)"
  shows "same_outcome (reg_list_services (io_session w tmo) p g) (reg_list_services (ens_session e) p h)"
proof -
  obtain cs g' h' where c: "reg_get_children (io_session w tmo) p g = (Some cs, g')" "reg_get_children (ens_session e) p h = (Some cs, h')"
      "reg_rel g' h'"
    using get_children_served [OF assms, of tmo] by (auto simp: same_outcome_def)
  then show ?thesis
    using get_services_served [OF assms(1) c(3) children_askable [OF assms(1) c(2)]] by (simp add: reg_list_services_def)
qed

lemma connect_op_served:
  assumes "speaks w e" and "reg_rel g h"
  shows "same_outcome (reg_connect (io_session w tmo) g) (reg_connect (ens_session e) h)"
proof -
  have idle: "io_idle (ensemble g)" "ens_state (ensemble g) = ensemble h" using assms(2) by (simp_all add: reg_rel_def)
  from connect_served [OF assms(1) idle(1), of tmo] obtain s where
    "ask_connect w Success tmo (ensemble g) = (Some void_ok, s)" "io_idle s" "ens_state s = e_open e (ensemble h)" using idle(2) by auto
  then show ?thesis by (simp add: reg_connect_def session_ops same_outcome_def reg_rel_def keep_def)
qed

lemma get_node_data_served:
  assumes "speaks w e" and "reg_rel g h" and "askable (DataReq p)"
  shows "same_outcome (reg_get_node_data (io_session w tmo) p g) (reg_get_node_data (ens_session e) p h)"
  unfolding reg_get_node_data_def session_ops by (rule guarded_served [OF assms])

lemma node_exists_served:
  assumes "speaks w e" and "reg_rel g h" and "askable (ExistsReq p)"
  shows "same_outcome (reg_node_exists (io_session w tmo) p g) (reg_node_exists (ens_session e) p h)"
  unfolding reg_node_exists_def session_ops by (rule guarded_served [OF assms])

lemma register_served:
  assumes "speaks w e" and "reg_rel g h" and "askable (CreateReq (p @ ''/'' @ nm) addr 1)"
  shows "same_outcome (reg_register_service (io_session w tmo) p nm addr g) (reg_register_service (ens_session e) p nm addr h)"
  unfolding reg_register_service_def session_ops by (rule guarded_served [OF assms])

lemma unregister_served:
  assumes "speaks w e" and "reg_rel g h" and "askable (RemoveReq p (-1))"
  shows "same_outcome (reg_unregister_service (io_session w tmo) p g) (reg_unregister_service (ens_session e) p h)"
  unfolding reg_unregister_service_def session_ops by (rule guarded_served [OF assms])

lemma create_node_served:
  assumes "speaks w e" and "reg_rel g h" and "askable (CreateReq p [] 0)"
  shows "same_outcome (create_persistent_node (io_session w tmo) p g) (create_persistent_node (ens_session e) p h)"
  unfolding create_persistent_node_def session_ops by (rule guarded_served [OF assms])

lemmas operations_served = connect_op_served get_children_served get_node_data_served get_service_served list_services_served
  node_exists_served register_served unregister_served create_node_served

lemma reg_do_served:
  assumes "speaks w e" and "reg_rel g h" and "op_fits op"
  shows "same_outcome (reg_do (io_session w tmo) op g) (reg_do (ens_session e) op h)"
  using assms(3) by (cases op) (auto intro!: same_outcome_map operations_served [OF assms(1,2)])

lemma reg_run_served:
  assumes "speaks w e" and "reg_rel g h" and "list_all op_fits ops"
  shows "same_outcome (reg_run (io_session w tmo) ops g) (reg_run (ens_session e) ops h)"
  using assms(2,3)
proof (induction ops arbitrary: g h)
  case (Cons op ops)
  obtain out g' h' where o: "reg_do (io_session w tmo) op g = (Some out, g')" "reg_do (ens_session e) op h = (Some out, h')" "reg_rel g' h'"
    using reg_do_served [OF assms(1) Cons.prems(1), of op tmo] Cons.prems(2) by (auto simp: same_outcome_def)
  have "same_outcome (reg_run (io_session w tmo) ops g') (reg_run (ens_session e) ops h')" using Cons.IH [OF o(3)] Cons.prems(2) by simp
  then show ?case using o(1,2) same_outcome_map by simp
qed (simp add: same_outcome_def)

text \<open>A registry with its client before the first connection, and the registry over the bare ensemble.\<close>

definition wired_registry :: "nat stream \<Rightarrow> 'z \<Rightarrow> 'z zk_io ServiceRegistry" where
  "wired_registry ns z = \<lparr>ensemble = \<lparr>zc = zk_client0, in_transit = [], readable = [], ens_state = z, turns = ns\<rparr>, reg_connected = False\<rparr>"

definition bare_registry :: "'z \<Rightarrow> 'z ServiceRegistry" where
  "bare_registry z = \<lparr>ensemble = z, reg_connected = False\<rparr>"

lemma wired_rel: "lively ns \<Longrightarrow> reg_rel (wired_registry ns z) (bare_registry z)"
  by (simp add: reg_rel_def wired_registry_def bare_registry_def io_idle_def zk_client0_def)

section \<open>An ensemble over the wire\<close>

text \<open>A tree of nodes behind a decoder of the requests: it speaks the protocol.\<close>

definition limited :: "zk_answer \<Rightarrow> zk_answer" where
  "limited a = (if small (reply_packet 0 0 a) \<and> (case a of ZOk r \<Rightarrow> zk_response_fits r | _ \<Rightarrow> True) then a else ZErr (-5))"

fun tree_request :: "zk_request \<Rightarrow> (string, string) umap \<Rightarrow> zk_answer \<times> (string, string) umap" where
  "tree_request (CreateReq p d fl) z =
     (if map_of z p \<noteq> None then (ZErr (-110), z) else (limited (ZOk (CreateResponse p)), AList.update p d z))"
| "tree_request (ChildrenReq p) z =
     (if map_of z p = None \<or> \<not> list_all (\<lambda>nm. askable (DataReq (p @ ''/'' @ nm))) (names_under p z) then ZErr (-101)
      else limited (ZOk (ChildrenResponse (names_under p z))), z)"
| "tree_request (DataReq p) z =
     (case map_of z p of None \<Rightarrow> ZErr (-101) | Some d \<Rightarrow> limited (ZOk (DataResponse d zk_stat0)), z)"
| "tree_request (ExistsReq p) z = (if map_of z p = None then ZErr (-101) else limited (ZOk (ExistsResponse zk_stat0)), z)"
| "tree_request (RemoveReq p v) z = (if map_of z p = None then (ZErr (-101), z) else (ZDone, AList.delete p z))"

definition tree_ensemble :: "(string, string) umap zk_ensemble" where
  "tree_ensemble = \<lparr>e_open = (\<lambda>z. z), e_request = tree_request\<rparr>"

definition decode_request :: "string \<Rightarrow> (i32 \<times> zk_request) res" where
  "decode_request d =
     bindR (read_int32 d 4) (\<lambda>(x, p). bindR (read_int32 d p) (\<lambda>(op, p). bindR (read_string d p) (\<lambda>(path, p).
       if op = 1 then bindR (read_buffer d p) (\<lambda>(b, p). Ret (x, CreateReq path b 0))
       else Ret (x, if op = 8 then ChildrenReq path else if op = 4 then DataReq path else if op = 3 then ExistsReq path
                    else RemoveReq path 0))))"

definition tree_wire :: "(string, string) umap zk_wire" where
  "tree_wire =
     \<lparr>w_session = (\<lambda>d z. (make_zpayload (connect_layout \<lparr>cs_protocol_version = 0, cs_timeout_ms = 4000, cs_session_id = 1,
        cs_passwd = replicate 16 NUL, cs_read_only = False\<rparr>), z)),
      w_request = (\<lambda>d z. case decode_request d of
        Ret (x, req) \<Rightarrow> apfst (reply_packet x 0) (tree_request req z) | _ \<Rightarrow> ([], z))\<rparr>"

fun plain :: "zk_request \<Rightarrow> zk_request" where
  "plain (CreateReq p d fl) = CreateReq p d 0"
| "plain (RemoveReq p v) = RemoveReq p 0"
| "plain req = req"

lemma tree_request_plain: "tree_request (plain req) = tree_request req"
  by (cases req) (simp_all add: fun_eq_iff)

lemma packet_layout:
  "packet_of x (CreateReq p d fl) = be32 (word_of_nat (length p + length d + 47)) @ be32 x @ be32 1 @ string_layout p @ string_layout d @
     be32 1 @ be32 PERM_ALL @ string_layout ''world'' @ string_layout ''anyone'' @ be32 fl"
  "packet_of x (ChildrenReq p) = be32 (word_of_nat (length p + 13)) @ be32 x @ be32 8 @ string_layout p @ [NUL]"
  "packet_of x (DataReq p) = be32 (word_of_nat (length p + 13)) @ be32 x @ be32 4 @ string_layout p @ [NUL]"
  "packet_of x (ExistsReq p) = be32 (word_of_nat (length p + 13)) @ be32 x @ be32 3 @ string_layout p @ [NUL]"
  "packet_of x (RemoveReq p v) = be32 (word_of_nat (length p + 16)) @ be32 x @ be32 2 @ string_layout p @ be32 v"
  by (simp_all add: packet_of_def make_zpayload_def zk_request_header_def write_int32_def serialize_create_def serialize_path_watch_def
      serialize_delete_def write_string_def write_buffer_def write_bool_def string_layout_def acl_open_unsafe_def serialize_acl_def Let_def ac_simps)

lemma decode_path:
  assumes "d = be32 n @ be32 x @ be32 op @ string_layout p @ rest" and "fits31 p"
  shows "decode_request d =
    (if op = 1 then bindR (read_buffer d (16 + length p)) (\<lambda>(b, q). Ret (x, CreateReq p b 0))
     else Ret (x, if op = 8 then ChildrenReq p else if op = 4 then DataReq p else if op = 3 then ExistsReq p else RemoveReq p 0))"
proof -
  have "read_int32 d 4 = Ret (x, 8)" using rd_i32.reads [of "be32 n" 4 x] assms(1) by simp
  moreover have "read_int32 d 8 = Ret (op, 12)" using rd_i32.reads [of "be32 n @ be32 x" 8 op] assms(1) by simp
  moreover have "read_string d 12 = Ret (p, 16 + length p)"
    using rd_str.reads [OF assms(2), of "be32 n @ be32 x @ be32 op" 12 rest] assms(1) by (simp add: string_layout_def)
  ultimately show ?thesis by (simp add: decode_request_def)
qed

lemma decode_packet: "askable req \<Longrightarrow> decode_request (packet_of x req) = Ret (x, plain req)"
proof (cases req)
  case (CreateReq p d fl)
  assume "askable req"
  then have f: "fits31 p" "fits31 d"
    using CreateReq by (simp_all add: askable_def small_def packet_layout(1) fits31_def string_layout_def)
  note l = packet_layout(1) [of x p d fl]
  let ?pre = "be32 (word_of_nat (length p + length d + 47)) @ be32 x @ be32 1 @ string_layout p"
  have "read_buffer (packet_of x req) (16 + length p) = Ret (d, 16 + length p + length (string_layout d))"
    using rd_buf.reads [OF f(2), of ?pre "16 + length p"] l CreateReq by (simp add: string_layout_def)
  then show ?thesis using decode_path [OF l f(1)] CreateReq by simp
qed (use decode_path [OF packet_layout(2)] decode_path [OF packet_layout(3)] decode_path [OF packet_layout(4)] decode_path [OF packet_layout(5)]
  in \<open>simp_all add: askable_def small_def packet_layout(2-5) fits31_def string_layout_def\<close>)

lemma length_reply: "length (reply_packet x zx a) = length (reply_packet 0 0 a)"
  by (simp add: reply_packet_def make_zpayload_def write_int32_def reply_layout_def)

lemma tree_answer_fits: "answer_fits req (fst (tree_request req z))" "small (reply_packet x 0 (fst (tree_request req z)))"
proof -
  have e: "small (reply_packet 0 0 (ZErr c))" "small (reply_packet 0 0 ZDone)" for c
    by (simp_all add: small_def reply_packet_def make_zpayload_def write_int32_def reply_layout_def)
  have l: "small (reply_packet 0 0 (limited a))" for a using e by (simp add: limited_def)
  have f: "kind_for req = Some (kind_of r) \<Longrightarrow> answer_fits req (limited (ZOk r))" for r req by (simp add: limited_def)
  show "answer_fits req (fst (tree_request req z))" by (cases req) (auto simp: f split: option.split)
  have "small (reply_packet 0 0 (fst (tree_request req z)))" by (cases req) (auto simp: e l split: option.split)
  then show "small (reply_packet x 0 (fst (tree_request req z)))" by (simp add: small_def length_reply [of x])
qed

lemma tree_speaks: "speaks tree_wire tree_ensemble"
  unfolding speaks_def
proof (intro conjI allI impI)
  fix req x z
  assume a: "askable req"
  show "answer_fits req (fst (e_request tree_ensemble req z))" using tree_answer_fits(1) by (simp add: tree_ensemble_def)
  have "w_request tree_wire (packet_of x req) z = (reply_packet x 0 (fst (tree_request req z)), snd (tree_request req z))"
    using decode_packet [OF a, of x] by (simp add: tree_wire_def tree_request_plain) (simp add: apfst_def map_prod_def case_prod_beta)
  then show "\<exists>zx. w_request tree_wire (packet_of x req) z =
        (reply_packet x zx (fst (e_request tree_ensemble req z)), snd (e_request tree_ensemble req z)) \<and>
      small (reply_packet x zx (fst (e_request tree_ensemble req z)))"
    using tree_answer_fits(2) [of x req z] by (intro exI [of _ 0]) (simp add: tree_ensemble_def)
next
  fix p z cs
  assume "fst (e_request tree_ensemble (ChildrenReq p) z) = ZOk (ChildrenResponse cs)"
  then show "list_all (\<lambda>nm. askable (DataReq (p @ ''/'' @ nm))) cs" by (auto simp: tree_ensemble_def limited_def split: if_splits)
next
  fix cr z
  show "\<exists>resp. w_session tree_wire (make_zpayload (serialize_connect cr)) z = (make_zpayload (connect_layout resp), e_open tree_ensemble z) \<and>
      small (connect_layout resp) \<and> fits31 (cs_passwd resp)"
    by (rule exI [of _ "\<lparr>cs_protocol_version = 0, cs_timeout_ms = 4000, cs_session_id = 1, cs_passwd = replicate 16 NUL,
        cs_read_only = False\<rparr>"])
      (simp add: tree_wire_def tree_ensemble_def small_def fits31_def connect_layout_def string_layout_def)
qed

section \<open>Draining the context\<close>

text \<open>\<^verbatim>\<open>drive_io_context\<close> polls while a handler ran, without waiting for bytes. It always comes to an end.\<close>

fun stage_ready :: "zk_stage \<Rightarrow> nat \<Rightarrow> bool" where
  "stage_ready AwaitLength n \<longleftrightarrow> 4 \<le> n"
| "stage_ready (AwaitBody m) n \<longleftrightarrow> m \<le> n"
| "stage_ready _ n \<longleftrightarrow> True"

fun handshake_ready :: "zk_handshake \<Rightarrow> nat \<Rightarrow> bool" where
  "handshake_ready HsAwaitLength n \<longleftrightarrow> 4 \<le> n"
| "handshake_ready (HsAwaitBody m) n \<longleftrightarrow> m \<le> n"
| "handshake_ready _ n \<longleftrightarrow> True"

definition poll_ready :: "'z zk_io \<Rightarrow> bool" where
  "poll_ready s =
     (if handshake (zc s) \<noteq> HsIdle then handshake_ready (handshake (zc s)) (length (readable s))
      else case cycles (zc s) of [] \<Rightarrow> False | (x, stage) # _ \<Rightarrow> stage_ready stage (length (readable s)))"

partial_function (option) drive_io_context :: "'z zk_wire \<Rightarrow> 'z zk_io \<Rightarrow> 'z zk_io res option" where
  "drive_io_context w s =
     (if poll_ready s then
        (case poll_one w s of Ret s' \<Rightarrow> drive_io_context w s' | Throw e \<Rightarrow> Some (Throw e) | UB \<Rightarrow> Some UB)
      else Some (Ret s))"

fun stage_weight :: "zk_stage \<Rightarrow> nat" where
  "stage_weight (Posted d) = 4" | "stage_weight (Writing d) = 3" | "stage_weight AwaitLength = 2" | "stage_weight (AwaitBody n) = 1"

fun handshake_weight :: "zk_handshake \<Rightarrow> nat" where
  "handshake_weight HsIdle = 0" | "handshake_weight HsConnecting = 4" | "handshake_weight (HsWriting d) = 3"
| "handshake_weight HsAwaitLength = 2" | "handshake_weight (HsAwaitBody n) = 1"

definition io_weight :: "'z zk_io \<Rightarrow> nat" where
  "io_weight s = handshake_weight (handshake (zc s)) + sum_list (map (\<lambda>(x, st). stage_weight st) (cycles (zc s)))"

lemma sum_delete: "sum_list (map (\<lambda>(x, st). stage_weight st) (AList.delete y cs)) \<le> sum_list (map (\<lambda>(x, st). stage_weight st) cs)"
  by (induction cs) auto

lemma handlers_keep:
  "handshake (set_cycle x st c) = handshake c" "handshake (end_cycle x c) = handshake c" "cycles (set_cycle x st c) = AList.update x st (cycles c)"
  "cycles (end_cycle x c) = AList.delete x (cycles c)"
  by (simp_all add: set_cycle_def end_cycle_def)

lemma resolve_keeps: "resolve_pending rx e b p c = Ret c' \<Longrightarrow> handshake c' = handshake c \<and> cycles c' = cycles c"
  by (auto simp: resolve_pending_def settle_def bindR_eq_Ret split: option.splits)

lemma poll_decreases:
  assumes "poll_ready s" and "poll_one w s = Ret s'"
  shows "io_weight s' < io_weight s"
proof (cases "handshake (zc s) = HsIdle")
  case False
  then show ?thesis
    using assms
    by (cases "handshake (zc s)") (auto simp: poll_ready_def poll_one_def poll_handshake_def read_ready_def io_weight_def transmit_def
        hs_connect_handler_def do_handshake_def hs_write_handler_def hs_length_handler_def hs_body_handler_def bindR_eq_Ret Let_def
        case_prod_beta split: if_splits)
next
  case True
  then obtain x st cs where c: "cycles (zc s) = (x, st) # cs" "stage_ready st (length (readable s))"
    using assms(1) by (auto simp: poll_ready_def split: list.splits)
  have "poll_request w x st s = Ret s'" using assms(2) True c(1) by (simp add: poll_one_def)
  then show ?thesis
    using True c sum_delete [of x cs]
    by (cases st) (auto simp: poll_request_def read_ready_def io_weight_def transmit_def post_handler_def zk_write_handler_def
        zk_length_handler_def zk_body_handler_def handlers_keep bindR_eq_Ret case_prod_beta split: if_splits dest!: resolve_keeps)
qed

lemma drive_io_context_returns: "\<exists>r. drive_io_context w s = Some r"
proof (induction "io_weight s" arbitrary: s rule: less_induct)
  case less
  show ?case
  proof (cases "poll_one w s")
    case (Ret s')
    then show ?thesis
      using less [of s'] poll_decreases [of s w s'] by (cases "poll_ready s") (subst drive_io_context.simps, simp)+
  qed (subst drive_io_context.simps, simp)+
qed

section \<open>Properties\<close>

text \<open>
  Registry, client and wire refine the session the registry is meant to have. Let an ensemble speak ZooKeeper's protocol, and let its bytes
  arrive in pieces of any size and with any pauses, as long as they keep arriving. Then every program of registry operations, from
  the first connection on, returns; each operation gives what it gives when its requests take effect on the ensemble at once and are answered
  directly; and the ensemble ends in the same state. The numbers of the requests may come round.
\<close>

theorem registry_over_the_wire:
  assumes "speaks w e" and "lively ns" and "list_all op_fits ops"
  shows "\<exists>outs g h. reg_run (io_session w timeout) ops (wired_registry ns z) = (Some outs, g) \<and>
    reg_run (ens_session e) ops (bare_registry z) = (Some outs, h) \<and> ens_state (ensemble g) = ensemble h"
  using reg_run_served [OF assms(1) wired_rel [OF assms(2)] assms(3), of timeout z] by (auto simp: same_outcome_def reg_rel_def)

definition demo_ops :: "reg_op list" where
  "demo_ops = [RegConnect, RegCreate ''/rpc'', RegRegister ''/rpc'' ''node-1'' ''10.0.0.1:80'', RegList ''/rpc'', RegUnregister ''/rpc/node-1'',
     RegExists ''/rpc/node-1'']"

definition demo_outs :: "reg_out list" where
  "demo_outs = [Flag True, Flag True, Flag True, Instances [\<lparr>si_name = ''node-1'', si_address = ''10.0.0.1:80'', si_ctime = 0, si_mtime = 0,
     si_version = 0, si_data_length = 0\<rparr>], Flag True, Flag False]"

lemma demo_fits: "list_all op_fits demo_ops"
  by (simp add: demo_ops_def askable_def small_def packet_layout string_layout_def)

lemma demo_bare: "fst (reg_run (ens_session tree_ensemble) demo_ops (bare_registry [])) = Some demo_outs"
proof -
  have n: "askable (DataReq ''/rpc/node-1'')" by (simp add: askable_def small_def packet_layout string_layout_def)
  have l: "small (reply_packet 0 0 (ZOk (CreateResponse ''/rpc'')))" "small (reply_packet 0 0 (ZOk (CreateResponse ''/rpc/node-1'')))"
    "small (reply_packet 0 0 (ZOk (ChildrenResponse [''node-1''])))" "small (reply_packet 0 0 (ZOk (DataResponse ''10.0.0.1:80'' zk_stat0)))"
    by (simp_all add: small_def reply_packet_def make_zpayload_def write_int32_def reply_layout_def string_layout_def stat_layout_def)
  have u: "names_under ''/rpc'' [(''/rpc'', []), (''/rpc/node-1'', ''10.0.0.1:80'')] = [''node-1'']" by (simp add: names_under_def)
  have b: "base_name ''/rpc/node-1'' = ''node-1''" by (simp add: base_name_def)
  show ?thesis
    using n l u b
    by (simp add: demo_ops_def demo_outs_def bare_registry_def reg_connect_def create_persistent_node_def reg_register_service_def
        reg_list_services_def reg_get_children_def reg_get_service_def reg_unregister_service_def reg_node_exists_def ens_session_def
        tree_ensemble_def limited_def fits31_def keep_def void_ok_def void_is_ok_def void_is_err_def make_ok_def make_error_def
        is_ok_def is_err_def entry_reject_def zk_stat0_def)
qed

text \<open>The connection that delivers one byte at a time.\<close>

theorem registry_over_the_wire_witness:
  "\<exists>g. reg_run (io_session tree_wire 4000) demo_ops (wired_registry (sconst 1) []) = (Some demo_outs, g)"
proof -
  have "lively (sconst 1)" by (simp add: lively_def)
  from registry_over_the_wire [OF tree_speaks this demo_fits, of 4000 "[]"] demo_bare show ?thesis by auto
qed

text \<open>
  Requests made at the same time, which the interface of the client allows, start reads of the one socket that are outstanding together. Asio
  requires that no read is started before the previous one has completed; then the bytes of one reply can be taken for the length of
  another. The registry avoids this by waiting for each reply.
\<close>

lemma reads_overlap:
  "\<exists>c. zk_reach c \<and> map_of (cycles c) 1 = Some AwaitLength \<and> map_of (cycles c) 2 = Some AwaitLength"
proof -
  let ?d = "\<lambda>x. packet_of x (ExistsReq ''/rpc'')"
  obtain c where c: "zk_reach c" "cycles c = [(1, Posted (?d 1)), (2, Posted (?d 2))]"
  proof -
    define c1 where "c1 = snd (zk_exists ''/rpc'' False zk_client0)"
    define c2 where "c2 = snd (zk_exists ''/rpc'' False c1)"
    have "zk_reach c2"
      unfolding c2_def c1_def zk_exists_def by (rule zk_more [OF zk_more [OF zk_start zs_request] zs_request]) (rule surjective_pairing)+
    moreover have "cycles c2 = [(1, Posted (?d 1)), (2, Posted (?d 2))]"
      by (simp add: c2_def c1_def zk_exists_def send_request_def do_send_def zk_client0_def packet_of_def Let_def)
    ultimately show thesis by (rule that)
  qed
  have m: "cycles (set_cycle x st c) = AList.update x st (cycles c)" for x st c by (simp add: set_cycle_def)
  let ?p = "post_handler 2 (?d 2) (post_handler 1 (?d 1) c)"
  have "zk_reach ?p" by (rule zk_more [OF zk_more [OF c(1) zs_post] zs_post]) (simp_all add: c(2) post_handler_def m)
  then have "zk_reach (zk_write_handler 2 Success (zk_write_handler 1 Success ?p))" (is "zk_reach ?w")
    by (rule zk_more [OF zk_more [OF _ zs_write] zs_write]) (simp_all add: c(2) post_handler_def zk_write_handler_def m)
  moreover have "map_of (cycles ?w) 1 = Some AwaitLength" "map_of (cycles ?w) 2 = Some AwaitLength"
    by (simp_all add: c(2) post_handler_def zk_write_handler_def m)
  ultimately show ?thesis by blast
qed


end
