(* ===== verification/Discovery_Wire.thy ===== *)
theory Discovery_Wire
  imports Registry_Wire
begin

text \<open>
  The whole of service discovery: node manager, load balancer, registry, ZooKeeper client and the bytes of the connection. Every
  operation of \<^verbatim>\<open>NodeManager\<close> is run over the session of \<^verbatim>\<open>Registry_Wire\<close> and over the session it is meant to have.
\<close>

section \<open>Programs of the node manager\<close>

datatype nm_op = NmConnect | NmInit string | NmRefresh | NmSelect nat | NmStrategy string | NmRegister string string int
  | NmUnregister string | NmExists string | NmNames | NmData string | NmPath string

datatype nm_out = NmDone | NmFlag bool | NmEndpoints "Endpoint list" | NmChosen "Endpoint res" | NmStrings "string list" | NmBytes string

fun nm_do :: "'z zk_session \<Rightarrow> nm_op \<Rightarrow> 'z NodeManager \<Rightarrow> nm_out option \<times> 'z NodeManager" where
  "nm_do s NmConnect m = apfst (map_option NmFlag) (nm_connect s m)"
| "nm_do s (NmInit p) m = apfst (map_option (\<lambda>_. NmDone)) (init_zk_paths s p m)"
| "nm_do s NmRefresh m = apfst (map_option NmEndpoints) (refresh_nodes s m)"
| "nm_do s (NmSelect r) m = apfst (map_option NmChosen) (select_node s r m)"
| "nm_do s (NmStrategy nm) m = (Some NmDone, set_balancer_strategy nm m)"
| "nm_do s (NmRegister nm addr wt) m = apfst (map_option NmFlag) (register_node s nm addr wt m)"
| "nm_do s (NmUnregister nm) m = apfst (map_option NmFlag) (unregister_node s nm m)"
| "nm_do s (NmExists p) m = apfst (map_option NmFlag) (nm_node_exists s p m)"
| "nm_do s NmNames m = apfst (map_option NmStrings) (list_node_names s m)"
| "nm_do s (NmData p) m = apfst (map_option NmBytes) (nm_get_node_data s p m)"
| "nm_do s (NmPath p) m = (Some NmDone, set_services_path p m)"

fun nm_run :: "'z zk_session \<Rightarrow> nm_op list \<Rightarrow> 'z NodeManager \<Rightarrow> nm_out list option \<times> 'z NodeManager" where
  "nm_run s [] m = (Some [], m)"
| "nm_run s (op # ops) m =
     (case nm_do s op m of (None, m) \<Rightarrow> (None, m)
      | (Some out, m) \<Rightarrow> apfst (map_option (\<lambda>outs. out # outs)) (nm_run s ops m))"

text \<open>The requests of an operation, at the services path of the moment, are not larger than a packet may be.\<close>

fun nm_op_fits :: "string \<Rightarrow> nm_op \<Rightarrow> bool" where
  "nm_op_fits path (NmInit p) \<longleftrightarrow> askable (CreateReq p [] 0) \<and>
     (case parent_path p of None \<Rightarrow> True | Some root \<Rightarrow> askable (CreateReq root [] 0))"
| "nm_op_fits path NmRefresh \<longleftrightarrow> askable (ChildrenReq path)"
| "nm_op_fits path (NmSelect r) \<longleftrightarrow> askable (ChildrenReq path)"
| "nm_op_fits path (NmRegister nm addr wt) \<longleftrightarrow> askable (CreateReq (path @ ''/'' @ nm) addr 1)"
| "nm_op_fits path (NmUnregister nm) \<longleftrightarrow> askable (RemoveReq (path @ ''/'' @ nm) (-1))"
| "nm_op_fits path (NmExists p) \<longleftrightarrow> askable (ExistsReq p)"
| "nm_op_fits path NmNames \<longleftrightarrow> askable (ChildrenReq path)"
| "nm_op_fits path (NmData p) \<longleftrightarrow> askable (DataReq p)"
| "nm_op_fits path _ \<longleftrightarrow> True"

fun path_after :: "nm_op \<Rightarrow> string \<Rightarrow> string" where
  "path_after (NmInit p) path = p"
| "path_after (NmPath p) path = p"
| "path_after _ path = path"

fun nm_fits :: "string \<Rightarrow> nm_op list \<Rightarrow> bool" where
  "nm_fits path [] \<longleftrightarrow> True"
| "nm_fits path (op # ops) \<longleftrightarrow> nm_op_fits path op \<and> nm_fits (path_after op path) ops"

section \<open>The two runs\<close>

definition nm_rel :: "'z zk_io NodeManager \<Rightarrow> 'z NodeManager \<Rightarrow> bool" where
  "nm_rel m n \<longleftrightarrow> services_path m = services_path n \<and> reg_rel (registry m) (registry n) \<and> balancer m = balancer n \<and> nm_nodes m = nm_nodes n"

definition nm_same :: "'r option \<times> 'z zk_io NodeManager \<Rightarrow> 'r option \<times> 'z NodeManager \<Rightarrow> bool" where
  "nm_same x y \<longleftrightarrow> (\<exists>r m n. x = (Some r, m) \<and> y = (Some r, n) \<and> nm_rel m n)"

lemma nm_same_map: "nm_same x y \<Longrightarrow> nm_same (apfst (map_option f) x) (apfst (map_option f) y)"
  by (auto simp: nm_same_def)

lemma via_served:
  "nm_rel m n \<Longrightarrow> same_outcome (f (registry m)) (f' (registry n)) \<Longrightarrow> nm_same (via f m) (via f' n)"
  by (auto simp: nm_rel_def same_outcome_def nm_same_def via_def)

lemma nm_relD: "nm_rel m n \<Longrightarrow> reg_rel (registry m) (registry n)" "nm_rel m n \<Longrightarrow> services_path m = services_path n"
  by (simp_all add: nm_rel_def)

lemma refresh_served:
  assumes "speaks w e" and "nm_rel m n" and "askable (ChildrenReq (services_path n))"
  shows "nm_same (refresh_nodes (io_session w tmo) m) (refresh_nodes (ens_session e) n)"
proof -
  let ?m = "m\<lparr>nm_nodes := []\<rparr>" and ?n = "n\<lparr>nm_nodes := []\<rparr>"
  have r: "nm_rel ?m ?n" using assms(2) by (simp add: nm_rel_def)
  have "nm_same (via (reg_list_services (io_session w tmo) (services_path m)) ?m) (via (reg_list_services (ens_session e) (services_path n)) ?n)"
    using list_services_served [OF assms(1) nm_relD(1) [OF r] assms(3)] nm_relD(2) [OF assms(2)] by (intro via_served [OF r]) simp
  then show ?thesis by (auto simp: nm_same_def refresh_nodes_def nm_rel_def Let_def)
qed

lemma nm_select_served: "nm_rel m n \<Longrightarrow> nm_same (nm_select r m) (nm_select r n)"
  by (auto simp: nm_same_def nm_select_def nm_rel_def case_prod_beta)

lemma select_served:
  assumes "speaks w e" and "nm_rel m n" and "askable (ChildrenReq (services_path n))"
  shows "nm_same (select_node (io_session w tmo) r m) (select_node (ens_session e) r n)"
proof -
  obtain ns m' n' where r: "refresh_nodes (io_session w tmo) m = (Some ns, m')" "refresh_nodes (ens_session e) n = (Some ns, n')" "nm_rel m' n'"
    using refresh_served [OF assms, of tmo] by (auto simp: nm_same_def)
  show ?thesis
    using assms(2) nm_select_served [OF r(3), of r] nm_select_served [OF assms(2), of r] by (simp add: select_node_def r(1,2) nm_rel_def)
qed

lemma init_served:
  assumes "speaks w e" and "nm_rel m n" and "nm_op_fits path (NmInit p)"
  shows "nm_same (init_zk_paths (io_session w tmo) p m) (init_zk_paths (ens_session e) p n)"
proof -
  have r: "nm_rel (m\<lparr>services_path := p\<rparr>) (n\<lparr>services_path := p\<rparr>)" using assms(2) by (simp add: nm_rel_def)
  have mk: "nm_same (via (create_persistent_node (io_session w tmo) q) m') (via (create_persistent_node (ens_session e) q) n')"
    if "nm_rel m' n'" "askable (CreateReq q [] 0)" for q m' n'
    using create_node_served [OF assms(1) nm_relD(1) [OF that(1)] that(2)] by (rule via_served [OF that(1)])
  have root: "nm_same (case parent_path p of None \<Rightarrow> (Some True, m\<lparr>services_path := p\<rparr>)
        | Some root \<Rightarrow> via (create_persistent_node (io_session w tmo) root) (m\<lparr>services_path := p\<rparr>))
      (case parent_path p of None \<Rightarrow> (Some True, n\<lparr>services_path := p\<rparr>)
        | Some root \<Rightarrow> via (create_persistent_node (ens_session e) root) (n\<lparr>services_path := p\<rparr>))"
    using assms(3) r mk [OF r] by (auto simp: nm_same_def split: option.split)
  then obtain b m' n' where b: "(case parent_path p of None \<Rightarrow> (Some True, m\<lparr>services_path := p\<rparr>)
        | Some root \<Rightarrow> via (create_persistent_node (io_session w tmo) root) (m\<lparr>services_path := p\<rparr>)) = (Some b, m')"
      "(case parent_path p of None \<Rightarrow> (Some True, n\<lparr>services_path := p\<rparr>)
        | Some root \<Rightarrow> via (create_persistent_node (ens_session e) root) (n\<lparr>services_path := p\<rparr>)) = (Some b, n')" "nm_rel m' n'"
    unfolding nm_same_def by blast
  then show ?thesis using mk [OF b(3), of p] assms(3) by (auto simp: init_zk_paths_def nm_same_def Let_def)
qed

lemma nm_do_served:
  assumes "speaks w e" and "nm_rel m n" and "nm_op_fits (services_path n) op"
  shows "nm_same (nm_do (io_session w tmo) op m) (nm_do (ens_session e) op n)"
proof -
  note rr = nm_relD(1) [OF assms(2)] and sp = nm_relD(2) [OF assms(2)]
  note served = operations_served [OF assms(1) rr]
  show ?thesis
  proof (cases op)
    case (NmInit p)
    then show ?thesis using init_served [OF assms(1,2)] assms(3) by (auto intro!: nm_same_map)
  next
    case NmRefresh
    then show ?thesis using refresh_served [OF assms(1,2)] assms(3) by (auto intro!: nm_same_map)
  next
    case (NmSelect r)
    then show ?thesis using select_served [OF assms(1,2)] assms(3) by (auto intro!: nm_same_map)
  qed (use assms(2,3) sp served in \<open>auto intro!: nm_same_map via_served simp: nm_connect_def register_node_def unregister_node_def
      nm_node_exists_def list_node_names_def nm_get_node_data_def set_services_path_def set_balancer_strategy_def\<close>,
    (auto simp: nm_same_def nm_rel_def set_balancer_strategy_def set_services_path_def)?)
qed

section \<open>The services path along a run\<close>

lemma via_path: "services_path (snd (via f m)) = services_path m"
  by (simp add: via_def case_prod_beta)

lemma via_path_result: "via f m = (r, m') \<Longrightarrow> services_path m' = services_path m"
  using via_path [of f m] by simp

lemma refresh_path: "services_path (snd (refresh_nodes s m)) = services_path m"
  by (auto simp: refresh_nodes_def Let_def split: prod.split option.split dest: via_path_result)

lemma select_path: "services_path (snd (select_node s r m)) = services_path m"
  using refresh_path [of s m] by (auto simp: select_node_def nm_select_def case_prod_beta split: prod.splits option.split)

lemma init_path: "services_path (snd (init_zk_paths s p m)) = p"
  by (auto simp: init_zk_paths_def Let_def split: prod.split option.split dest!: via_path_result)

lemma nm_do_path: "services_path (snd (nm_do s op m)) = path_after op (services_path m)"
  by (cases op) (simp_all add: via_path refresh_path select_path init_path nm_connect_def register_node_def unregister_node_def
      nm_node_exists_def list_node_names_def nm_get_node_data_def set_services_path_def set_balancer_strategy_def)

lemma nm_run_served:
  assumes "speaks w e"
  shows "nm_rel m n \<Longrightarrow> nm_fits (services_path n) ops \<Longrightarrow>
    nm_same (nm_run (io_session w tmo) ops m) (nm_run (ens_session e) ops n)"
proof (induction ops arbitrary: m n)
  case Nil
  then show ?case by (simp add: nm_same_def)
next
  case (Cons op ops)
  then obtain out m' n' where o: "nm_do (io_session w tmo) op m = (Some out, m')" "nm_do (ens_session e) op n = (Some out, n')" "nm_rel m' n'"
    using nm_do_served [OF assms Cons.prems(1), of op tmo] by (auto simp: nm_same_def)
  moreover have "services_path n' = path_after op (services_path n)" using nm_do_path [of "ens_session e" op n] o(2) by simp
  ultimately show ?case using Cons.IH [OF o(3)] Cons.prems(2) by (auto intro!: nm_same_map)
qed

definition wired_manager :: "nat stream \<Rightarrow> 'z \<Rightarrow> 'z zk_io NodeManager" where
  "wired_manager ns z = node_manager0 (ensemble (wired_registry ns z))"

lemma managers_rel: "lively ns \<Longrightarrow> nm_rel (wired_manager ns z) (node_manager0 z)"
  using wired_rel [of ns z] by (simp add: nm_rel_def wired_manager_def node_manager0_def wired_registry_def bare_registry_def reg_rel_def)


definition discovery_ops :: "nm_op list" where
  "discovery_ops = [NmConnect, NmInit ''/rpc'', NmRegister ''node-1'' ''10.0.0.1:80'' 5, NmSelect 0, NmUnregister ''node-1'',
     NmRefresh]"

lemma discovery_fits: "nm_fits ''/rpc/services'' discovery_ops"
  by (simp add: discovery_ops_def askable_def small_def packet_layout string_layout_def parent_path_def base_name_def)

definition discovery_outs :: "nm_out list" where
  "discovery_outs = [NmFlag True, NmDone, NmFlag True, NmChosen (Ret \<lparr>ep_name = ''node-1'', address = ''10.0.0.1:80'', weight = 1\<rparr>),
     NmFlag True, NmEndpoints []]"

lemma discovery_bare: "fst (nm_run (ens_session tree_ensemble) discovery_ops (node_manager0 [])) = Some discovery_outs"
proof -
  have n: "askable (DataReq ''/rpc/node-1'')" by (simp add: askable_def small_def packet_layout string_layout_def)
  have l: "small (reply_packet 0 0 (ZOk (CreateResponse ''/rpc'')))" "small (reply_packet 0 0 (ZOk (CreateResponse ''/rpc/node-1'')))"
    "small (reply_packet 0 0 (ZOk (ChildrenResponse [''node-1''])))" "small (reply_packet 0 0 (ZOk (ChildrenResponse [])))"
    "small (reply_packet 0 0 (ZOk (DataResponse ''10.0.0.1:80'' zk_stat0)))"
    by (simp_all add: small_def reply_packet_def make_zpayload_def write_int32_def reply_layout_def string_layout_def stat_layout_def)
  have u: "names_under ''/rpc'' [(''/rpc'', []), (''/rpc/node-1'', ''10.0.0.1:80'')] = [''node-1'']" "names_under ''/rpc'' [(''/rpc'', [])] = []"
    by (simp_all add: names_under_def)
  have b: "base_name ''/rpc/node-1'' = ''node-1''" "base_name ''/rpc'' = ''rpc''" by (simp_all add: base_name_def)
  show ?thesis
    using n l u b
    by (simp add: discovery_ops_def discovery_outs_def node_manager0_def nm_connect_def init_zk_paths_def parent_path_def register_node_def
        select_node_def unregister_node_def refresh_nodes_def via_def nm_select_def endpoint_of_def reg_connect_def create_persistent_node_def
        reg_register_service_def reg_list_services_def reg_get_children_def reg_get_service_def reg_unregister_service_def ens_session_def
        tree_ensemble_def limited_def fits31_def keep_def void_ok_def void_is_ok_def void_is_err_def make_ok_def make_error_def
        is_ok_def is_err_def entry_reject_def zk_stat0_def load_balancer0_def lb_select_def set_nodes_def lb_reset_def round_robin_select_def
        set_strategy_def strategy_name_def create_strategy_def Let_def)
qed



end
