(* ===== verification/Compress.thy ===== *)
theory Compress
  imports Rpc_Prelude
begin

text \<open>
  \<^verbatim>\<open>src/compress_data/compress.h\<close> and \<^verbatim>\<open>.cpp\<close>: the wrappers around zstd. The library is a parameter, a record with
  one function per call: the bound, the compressor and decompressor, which are given the capacity of the destination and
  return the bytes they wrote or the name of an error, and the content size read from a frame.
\<close>

datatype content_size = SizeError | SizeUnknown | Size nat

record zstd =
  compressBound :: "nat \<Rightarrow> nat"
  zcompress :: "nat \<Rightarrow> string \<Rightarrow> int \<Rightarrow> string + string"
  getFrameContentSize :: "string \<Rightarrow> content_size"
  zdecompress :: "nat \<Rightarrow> string \<Rightarrow> string + string"

definition compress :: "zstd \<Rightarrow> string \<Rightarrow> int \<Rightarrow> string res" where
  "compress z data level =
     (if data = [] then Ret []
      else case zcompress z (compressBound z (length data)) data level of
        Inl e \<Rightarrow> Throw (RuntimeError (''zstd compress: '' @ e))
      | Inr out \<Rightarrow> Ret out)"

definition decompress :: "zstd \<Rightarrow> string \<Rightarrow> string res" where
  "decompress z data =
     (if data = [] then Ret []
      else case getFrameContentSize z data of
        SizeError \<Rightarrow> Throw (RuntimeError ''zstd decompress: invalid frame'')
      | SizeUnknown \<Rightarrow> Throw (RuntimeError ''zstd decompress: unknown content size'')
      | Size n \<Rightarrow>
          (case zdecompress z n data of
             Inl e \<Rightarrow> Throw (RuntimeError (''zstd decompress: '' @ e))
           | Inr out \<Rightarrow> Ret out))"

text \<open>\<^verbatim>\<open>ratio\<close> is the quotient of the two sizes, kept as a pair; 0 when the original is empty.\<close>

record CompressInfo =
  original_size :: nat
  compressed_size :: nat
  ratio :: "nat \<times> nat"

definition compress_info :: "string \<Rightarrow> string \<Rightarrow> CompressInfo" where
  "compress_info original compressed =
     \<lparr>original_size = length original, compressed_size = length compressed,
      ratio = (if length original > 0 then (length compressed, length original) else (0, 1))\<rparr>"

section \<open>Properties\<close>

text \<open>
  What zstd documents: a destination of \<^verbatim>\<open>compressBound\<close> bytes is always enough, a compressed frame is not empty and
  records the size of its content, and a destination of that size is enough to restore it.
\<close>

definition zstd_works :: "zstd \<Rightarrow> bool" where
  "zstd_works z \<longleftrightarrow>
     (\<forall>d level. \<exists>c. zcompress z (compressBound z (length d)) d level = Inr c \<and> c \<noteq> [] \<and>
        getFrameContentSize z c = Size (length d) \<and> (\<forall>cap \<ge> length d. zdecompress z cap c = Inr d))"


text \<open>A library that stores: one marker byte before the data.\<close>

definition store_zstd :: zstd where
  "store_zstd = \<lparr>compressBound = Suc, zcompress = (\<lambda>cap d level. Inr (CHR ''S'' # d)),
     getFrameContentSize = (\<lambda>c. case c of [] \<Rightarrow> SizeError | x # d \<Rightarrow> if x = CHR ''S'' then Size (length d) else SizeError),
     zdecompress = (\<lambda>cap c. if length c \<le> Suc cap then Inr (tl c) else Inl ''dst too small'')\<rparr>"


end
