(* ===== verification/Encrypt.thy ===== *)
theory Encrypt
  imports Rpc_Prelude
begin

text \<open>
  \<^verbatim>\<open>src/encrypt/encrypt.h\<close> and \<^verbatim>\<open>.cpp\<close>: AES-256-GCM through OpenSSL. The library is a parameter \<open>evp\<close>: whether each
  call succeeds, the ciphertext and tag of a message under a key and a nonce, and the plaintext of a ciphertext, which
  \<^verbatim>\<open>EVP_DecryptFinal_ex\<close> releases only for the right tag. Every context that is created is freed on every path;
  the number of live contexts is part of the result.
\<close>

datatype evp_call = CtxNew | Init | SetIvLen | SetKeyIv | Update | Final | GetTag | SetTag

record evp =
  succeeds :: "evp_call \<Rightarrow> bool"
  gcm :: "string \<Rightarrow> string \<Rightarrow> string \<Rightarrow> string \<times> string"
  gcm_open :: "string \<Rightarrow> string \<Rightarrow> string \<Rightarrow> string"
  rand_bytes :: "nat \<Rightarrow> string option"

definition GCM_TAG_LEN :: nat where "GCM_TAG_LEN = 16"
definition KEY_LEN :: nat where "KEY_LEN = 32"
definition IV_LEN :: nat where "IV_LEN = 12"

definition generate_key :: "evp \<Rightarrow> string res" where
  "generate_key e =
     (case rand_bytes e KEY_LEN of None \<Rightarrow> Throw (RuntimeError ''aes: failed to generate key'') | Some k \<Rightarrow> Ret k)"

definition generate_iv :: "evp \<Rightarrow> string res" where
  "generate_iv e =
     (case rand_bytes e IV_LEN of None \<Rightarrow> Throw (RuntimeError ''aes: failed to generate IV'') | Some iv \<Rightarrow> Ret iv)"

text \<open>
  A call on a live context that may fail: on failure the context is freed and the exception thrown. The second component
  counts the contexts that are still allocated.
\<close>

definition step :: "evp \<Rightarrow> evp_call \<Rightarrow> string \<Rightarrow> nat \<Rightarrow> (nat \<Rightarrow> string res \<times> nat) \<Rightarrow> string res \<times> nat" where
  "step e c msg ctxs k = (if succeeds e c then k ctxs else (Throw (RuntimeError msg), ctxs - 1))"

definition aes_encrypt :: "evp \<Rightarrow> string \<Rightarrow> string \<Rightarrow> string \<Rightarrow> nat \<Rightarrow> string res \<times> nat" where
  "aes_encrypt e plaintext key iv ctxs =
     (if length key \<noteq> KEY_LEN then (Throw (RuntimeError ''aes_encrypt: key must be 32 bytes''), ctxs)
      else if length iv \<noteq> IV_LEN then (Throw (RuntimeError ''aes_encrypt: iv must be 12 bytes''), ctxs)
      else if \<not> succeeds e CtxNew then (Throw (RuntimeError ''aes_encrypt: EVP_CIPHER_CTX_new failed''), ctxs)
      else step e Init ''aes_encrypt: init failed'' (Suc ctxs) (\<lambda>ctxs.
           step e SetIvLen ''aes_encrypt: set IV len failed'' ctxs (\<lambda>ctxs.
           step e SetKeyIv ''aes_encrypt: key/IV set failed'' ctxs (\<lambda>ctxs.
           step e Update ''aes_encrypt: update failed'' ctxs (\<lambda>ctxs.
           step e Final ''aes_encrypt: final failed'' ctxs (\<lambda>ctxs.
           step e GetTag ''aes_encrypt: get tag failed'' ctxs (\<lambda>ctxs.
             let (ciphertext, tag) = gcm e key iv plaintext in (Ret (ciphertext @ tag), ctxs - 1))))))))"

definition aes_decrypt :: "evp \<Rightarrow> string \<Rightarrow> string \<Rightarrow> string \<Rightarrow> nat \<Rightarrow> string res \<times> nat" where
  "aes_decrypt e ciphertext key iv ctxs =
     (if length key \<noteq> KEY_LEN then (Throw (RuntimeError ''aes_decrypt: key must be 32 bytes''), ctxs)
      else if length iv \<noteq> IV_LEN then (Throw (RuntimeError ''aes_decrypt: iv must be 12 bytes''), ctxs)
      else if length ciphertext < GCM_TAG_LEN then (Throw (RuntimeError ''aes_decrypt: ciphertext too short''), ctxs)
      else
        let ct_len = length ciphertext - GCM_TAG_LEN; tag = drop ct_len ciphertext in
        if \<not> succeeds e CtxNew then (Throw (RuntimeError ''aes_decrypt: EVP_CIPHER_CTX_new failed''), ctxs)
        else step e Init ''aes_decrypt: init failed'' (Suc ctxs) (\<lambda>ctxs.
             step e SetIvLen ''aes_decrypt: set IV len failed'' ctxs (\<lambda>ctxs.
             step e SetKeyIv ''aes_decrypt: key/IV set failed'' ctxs (\<lambda>ctxs.
             step e Update ''aes_decrypt: update failed'' ctxs (\<lambda>ctxs.
             step e SetTag ''aes_decrypt: set tag failed'' ctxs (\<lambda>ctxs.
               let plaintext = gcm_open e key iv (take ct_len ciphertext);
                   ok = succeeds e Final \<and> snd (gcm e key iv plaintext) = tag
               in if \<not> ok
                  then (Throw (RuntimeError ''aes_decrypt: authentication failed (wrong key or tampered data)''), ctxs - 1)
                  else (Ret plaintext, ctxs - 1)))))))"

section \<open>Properties\<close>

text \<open>
  What OpenSSL documents of AES-GCM: tags have 16 bytes, and opening a ciphertext under the key and nonce it was made with
  gives the plaintext.
\<close>

definition evp_works :: "evp \<Rightarrow> bool" where
  "evp_works e \<longleftrightarrow> (\<forall>c. succeeds e c) \<and>
     (\<forall>key iv p. length (snd (gcm e key iv p)) = 16 \<and> gcm_open e key iv (fst (gcm e key iv p)) = p)"

lemma step_contexts: "(\<And>n. 0 < n \<Longrightarrow> snd (k n) = n - 1) \<Longrightarrow> 0 < n \<Longrightarrow> snd (step e c msg n k) = n - 1"
  by (simp add: step_def)


definition demo_evp :: evp where
  "demo_evp = \<lparr>succeeds = (\<lambda>c. True), gcm = (\<lambda>key iv p. (p, take 16 (key @ iv))),
     gcm_open = (\<lambda>key iv c. c), rand_bytes = (\<lambda>n. Some (replicate n NUL))\<rparr>"

definition weak_evp :: evp where
  "weak_evp = demo_evp\<lparr>gcm := (\<lambda>key iv p. (p, replicate 16 NUL))\<rparr>"


text \<open>
  No path of the two functions leaks a cipher context: whatever call of the library fails, and whether the
  function returns or throws, as many contexts are allocated afterwards as before.
\<close>

theorem aes_no_context_leak:
  "snd (aes_encrypt e p key iv n) = n \<and> snd (aes_decrypt e ct key iv n) = n"
  by (auto simp: aes_encrypt_def aes_decrypt_def step_def Let_def split: prod.splits)

end
