(* ===== verification/Serializer.thy ===== *)
theory Serializer
  imports Std_Containers
begin

text \<open>
  \<^verbatim>\<open>src/serializer/serializer.h\<close>: the two serializers and their factories. The protobuf library is a parameter \<open>pb\<close>: its binary and
  JSON conversions of the messages \<open>'m\<close>. A virtual call goes to the class of the object, so an object is its class.
\<close>

section \<open>Model\<close>

datatype SerializerType = SER_PROTOBUF | SER_JSON

fun serializer_type_code :: "SerializerType \<Rightarrow> u8" where
  "serializer_type_code SER_PROTOBUF = 0"
| "serializer_type_code SER_JSON = 1"

text \<open>
  \<open>to_binary\<close> is \<^const>\<open>None\<close> when \<^verbatim>\<open>SerializeToString\<close> returns false; \<open>to_json\<close> gives the status message on the left. A parser gets the
  message it overwrites, and returns its status and the message afterwards.
\<close>

record 'm protobuf =
  to_binary :: "'m \<Rightarrow> string option"
  of_binary :: "string \<Rightarrow> 'm \<Rightarrow> bool \<times> 'm"
  to_json :: "'m \<Rightarrow> string + string"
  of_json :: "string \<Rightarrow> 'm \<Rightarrow> bool \<times> 'm"

datatype Serializer = ProtobufSerializer | JsonSerializer

fun serializer_name :: "Serializer \<Rightarrow> string" where
  "serializer_name ProtobufSerializer = ''protobuf''"
| "serializer_name JsonSerializer = ''json''"

fun serializer_type :: "Serializer \<Rightarrow> SerializerType" where
  "serializer_type ProtobufSerializer = SER_PROTOBUF"
| "serializer_type JsonSerializer = SER_JSON"

fun serialize :: "'m protobuf \<Rightarrow> Serializer \<Rightarrow> 'm \<Rightarrow> string res" where
  "serialize pb ProtobufSerializer msg =
     (case to_binary pb msg of None \<Rightarrow> Throw (RuntimeError ''protobuf: SerializeToString failed'') | Some data \<Rightarrow> Ret data)"
| "serialize pb JsonSerializer msg =
     (case to_json pb msg of Inl m \<Rightarrow> Throw (RuntimeError (''json serialize: '' @ m)) | Inr data \<Rightarrow> Ret data)"

fun deserialize :: "'m protobuf \<Rightarrow> Serializer \<Rightarrow> string \<Rightarrow> 'm \<Rightarrow> bool \<times> 'm" where
  "deserialize pb ProtobufSerializer data msg = of_binary pb data msg"
| "deserialize pb JsonSerializer data msg = of_json pb data msg"

text \<open>The first factory switches over the underlying \<^verbatim>\<open>uint8_t\<close>, which need not be an enumerator.\<close>

definition create_serializer :: "u8 \<Rightarrow> Serializer res" where
  "create_serializer t =
     (if t = serializer_type_code SER_PROTOBUF then Ret ProtobufSerializer
      else if t = serializer_type_code SER_JSON then Ret JsonSerializer
      else Throw (RuntimeError ''unknown serializer type''))"

definition create_serializer_by_name :: "string \<Rightarrow> Serializer res" where
  "create_serializer_by_name nm =
     (if nm = ''protobuf'' \<or> nm = ''proto'' then Ret ProtobufSerializer
      else if nm = ''json'' then Ret JsonSerializer
      else Throw (RuntimeError (''unknown serializer: '' @ nm)))"

section \<open>Properties\<close>

text \<open>
  What the protobuf documentation says of a message \<open>msg\<close>: bytes made from it parse back to it, over whatever the target
  held, and so does its JSON text.
\<close>

definition pb_faithful :: "'m protobuf \<Rightarrow> 'm \<Rightarrow> bool" where
  "pb_faithful pb msg \<longleftrightarrow>
     (\<forall>data m. to_binary pb msg = Some data \<longrightarrow> of_binary pb data m = (True, msg)) \<and>
     (\<forall>data m. to_json pb msg = Inr data \<longrightarrow> of_json pb data m = (True, msg))"

lemma serialize_total: "serialize pb s msg \<noteq> UB"
  by (cases s) (simp_all split: option.split sum.split)

lemma serialize_roundtrip:
  assumes "pb_faithful pb msg" and "serialize pb s msg = Ret data"
  shows "deserialize pb s data m = (True, msg)"
  using assms by (cases s) (auto simp: pb_faithful_def split: option.splits sum.splits)

lemma factories_agree:
  "create_serializer (serializer_type_code (serializer_type s)) = Ret s"
  "create_serializer_by_name (serializer_name s) = Ret s"
  by (cases s; simp add: create_serializer_def create_serializer_by_name_def)+

lemma factory_codes: "(\<exists>s. create_serializer t = Ret s) \<longleftrightarrow> t = 0 \<or> t = 1"
  by (auto simp: create_serializer_def)

text \<open>
  Two processes that agree on the serializer by its wire number or by its name read each other's messages: the reader's
  serializer, created from the number or the name of the writer's, gives back every message the writer could serialise,
  and a number above 1 is refused.
\<close>

theorem serializers_interoperate:
  assumes "pb_faithful pb msg" and "serialize pb s msg = Ret data"
    and "create_serializer t = Ret s' \<and> t = serializer_type_code (serializer_type s) \<or>
      create_serializer_by_name nm = Ret s' \<and> nm = serializer_name s"
  shows "deserialize pb s' data m = (True, msg) \<and>
    (1 < u \<longrightarrow> create_serializer u = Throw (RuntimeError ''unknown serializer type''))"
proof -
  have "s' = s" using assms(3) factories_agree [of s] by auto
  moreover have "create_serializer u = Throw (RuntimeError ''unknown serializer type'')" if "1 < u"
    using that by (auto simp: create_serializer_def)
  ultimately show ?thesis using serialize_roundtrip [OF assms(1,2)] by simp
qed

definition text_pb :: "string protobuf" where
  "text_pb = \<lparr>to_binary = (\<lambda>m. Some m), of_binary = (\<lambda>d m. (True, d)),
     to_json = (\<lambda>m. Inr (''{'' @ m @ ''}'')), of_json = (\<lambda>d m. (True, butlast (tl d)))\<rparr>"

theorem serializers_interoperate_witness:
  "deserialize text_pb JsonSerializer ''{hello}'' ''old'' = (True, ''hello'') \<and>
   create_serializer 7 = Throw (RuntimeError ''unknown serializer type'')"
  using serializers_interoperate
      [of text_pb "''hello''" JsonSerializer "''{hello}''" 1 JsonSerializer "''json''" "''old''" 7]
  by (simp add: pb_faithful_def text_pb_def create_serializer_def)

end
