(* ===== verification/Create_Socket.thy ===== *)
theory Create_Socket
  imports Rpc_Prelude
begin

text \<open>
  \<^verbatim>\<open>src/network/create_socket.h\<close> and \<^verbatim>\<open>.cpp\<close>: helpers that open a listening acceptor and connect a client socket. The operating
  system's answers are arguments. A socket is the operating system's handle, a number.
\<close>

section \<open>Acceptor\<close>

record Acceptor =
  acc_port :: u16
  reuse_address :: bool
  backlog :: nat

text \<open>
  The constructor opens the acceptor, allows reuse of the address (Asio's default), binds it and listens with the
  system's backlog \<open>somaxconn\<close>; the function then sets the option and the backlog again.
\<close>

definition create_server_acceptor :: "ec \<Rightarrow> ec \<Rightarrow> ec \<Rightarrow> nat \<Rightarrow> u16 \<Rightarrow> Acceptor res" where
  "create_server_acceptor open_ec option_ec listen_ec somaxconn port =
     (case open_ec of Failure m \<Rightarrow> Throw (RuntimeError m)
      | Success \<Rightarrow>
          let acceptor = \<lparr>acc_port = port, reuse_address = True, backlog = somaxconn\<rparr> in
          (case option_ec of Failure m \<Rightarrow> Throw (RuntimeError m)
           | Success \<Rightarrow>
               let acceptor = acceptor\<lparr>reuse_address := True\<rparr> in
               (case listen_ec of Failure m \<Rightarrow> Throw (RuntimeError m)
                | Success \<Rightarrow> Ret (acceptor\<lparr>backlog := 256\<rparr>))))"

section \<open>Client socket\<close>

datatype dial = DialResolving | DialConnecting | DialDone

record client_dial =
  dial_at :: dial
  dial_settled :: "nat res list"

definition create_client_socket :: client_dial where
  "create_client_socket = \<lparr>dial_at = DialResolving, dial_settled = []\<rparr>"

definition dial_resolve_handler :: "ec \<Rightarrow> client_dial \<Rightarrow> client_dial" where
  "dial_resolve_handler ec d =
     (case ec of
        Failure m \<Rightarrow> d\<lparr>dial_at := DialDone, dial_settled := dial_settled d @ [Throw (RuntimeError m)]\<rparr>
      | Success \<Rightarrow> d\<lparr>dial_at := DialConnecting\<rparr>)"

definition dial_connect_handler :: "ec \<Rightarrow> nat \<Rightarrow> client_dial \<Rightarrow> client_dial" where
  "dial_connect_handler ec sock d =
     (case ec of
        Failure m \<Rightarrow> d\<lparr>dial_at := DialDone, dial_settled := dial_settled d @ [Throw (RuntimeError m)]\<rparr>
      | Success \<Rightarrow> d\<lparr>dial_at := DialDone, dial_settled := dial_settled d @ [Ret sock]\<rparr>)"

inductive dial_step :: "client_dial \<Rightarrow> client_dial \<Rightarrow> bool" where
  dial_resolved: "dial_at d = DialResolving \<Longrightarrow> dial_step d (dial_resolve_handler ec d)"
| dial_connected: "dial_at d = DialConnecting \<Longrightarrow> dial_step d (dial_connect_handler ec sock d)"

inductive_cases dial_stepE: "dial_step d d'"

section \<open>Properties\<close>

definition dial_inv :: "client_dial \<Rightarrow> bool" where
  "dial_inv d \<longleftrightarrow> length (dial_settled d) = (if dial_at d = DialDone then 1 else 0)"

lemma dial_step_inv: "dial_step d d' \<Longrightarrow> dial_inv d \<Longrightarrow> dial_inv d'"
  by (erule dial_stepE)
    (auto simp: dial_inv_def dial_resolve_handler_def dial_connect_handler_def split: ec.splits)

text \<open>The promise is settled exactly when the last handler has run, never twice, and the handlers end after at most two.\<close>

lemma dial_settles_once:
  "dial_step\<^sup>*\<^sup>* create_client_socket d \<Longrightarrow>
   length (dial_settled d) \<le> 1 \<and> (dial_settled d \<noteq> [] \<longleftrightarrow> \<not> (\<exists>d'. dial_step d d'))"
proof -
  assume "dial_step\<^sup>*\<^sup>* create_client_socket d"
  then have inv: "dial_inv d"
  proof (induction rule: rtranclp_induct)
    case base
    show ?case by (simp add: dial_inv_def create_client_socket_def)
  next
    case (step y z)
    then show ?case by (blast intro: dial_step_inv)
  qed
  have "(\<exists>d'. dial_step d d') \<longleftrightarrow> dial_at d \<noteq> DialDone"
    by (auto elim: dial_stepE) (metis dial.exhaust dial_resolved dial_connected)
  with inv show ?thesis by (auto simp: dial_inv_def)
qed

lemma acceptor_ready:
  "create_server_acceptor b opt_ec l n port = Ret a \<longleftrightarrow>
   b = Success \<and> opt_ec = Success \<and> l = Success \<and>
   a = \<lparr>acc_port = port, reuse_address = True, backlog = 256\<rparr>"
  by (auto simp: create_server_acceptor_def Let_def split: ec.splits)

end
