(* ===== verification/Client_Main.thy ===== *)
theory Client_Main
  imports Rpc_Client Load_Config Log_Init Command_Line
begin

text \<open>
  \<^verbatim>\<open>src/client_main.cpp\<close>: the command line of the client, its stress mode and its fixed sequence of calls. What the calls come to is a
  parameter \<open>rpc\<close>: the response that \<^verbatim>\<open>client.call(...).get()\<close> returns and the state of the world afterwards, or \<^const>\<open>None\<close> when the
  promise is never fulfilled, in which case the program waits forever. The properties put the server's \<^const>\<open>process_request\<close> there.
  The readings of \<^verbatim>\<open>steady_clock\<close>, in nanoseconds, are a parameter \<open>tm\<close>, the first, second and so on of the run; the arithmetic of
  \<^verbatim>\<open>double\<close> is a parameter \<open>fp\<close>, so that what is said of latencies and rates holds whatever is rounded.
\<close>

section \<open>Command line\<close>

record client_args =
  cl_config_path :: string
  server_host :: string
  server_port :: u16
  host_set :: bool
  port_set :: bool
  stress_mode :: bool
  stress_count :: int

definition client_args0 :: client_args where
  "client_args0 = \<lparr>cl_config_path = ''src/config/server_config.json'', server_host = ''127.0.0.1'', server_port = 8080,
     host_set = False, port_set = False, stress_mode = False, stress_count = 100\<rparr>"

datatype client_cmd = ClientHelp | ClientRun client_args

text \<open>\<^verbatim>\<open>argv[i + 1][0]\<close> of an empty argument is its terminating zero.\<close>

definition first_char :: "string \<Rightarrow> char" where
  "first_char s = (case s of [] \<Rightarrow> NUL | c # _ \<Rightarrow> c)"

function client_parse :: "string list \<Rightarrow> client_args \<Rightarrow> client_cmd res" where
  "client_parse [] a = Ret (ClientRun a)"
| "client_parse (arg # rest) a =
     (if arg = ''--config'' \<and> rest \<noteq> [] then client_parse (tl rest) (a\<lparr>cl_config_path := hd rest\<rparr>)
      else if arg = ''--host'' \<and> rest \<noteq> [] then client_parse (tl rest) (a\<lparr>server_host := hd rest, host_set := True\<rparr>)
      else if arg = ''--port'' \<and> rest \<noteq> [] then
        bindR (port_arg (hd rest)) (\<lambda>p. client_parse (tl rest) (a\<lparr>server_port := p, port_set := True\<rparr>))
      else if arg = ''--stress'' then
        (let a = a\<lparr>stress_mode := True\<rparr> in
         if rest \<noteq> [] \<and> first_char (hd rest) \<noteq> CHR ''-''
         then bindR (stoi (hd rest)) (\<lambda>n. client_parse (tl rest) (a\<lparr>stress_count := n\<rparr>))
         else client_parse rest a)
      else if arg = ''--help'' then Ret ClientHelp
      else client_parse rest a)"
  by pat_completeness auto
termination
  by (relation "measure (\<lambda>(args, a). length args)") auto

section \<open>Calls\<close>

type_synonym 'w remote = "string \<Rightarrow> string \<Rightarrow> string \<Rightarrow> 'w \<Rightarrow> RpcResponse option \<times> 'w"

text \<open>
  The loop of the normal mode: \<open>n\<close> pings from number \<open>i\<close> on, counting the answers that are \<^verbatim>\<open>pong\<close>. \<^const>\<open>None\<close>: a call was
  never answered.
\<close>

fun ping_loop :: "'w remote \<Rightarrow> string \<Rightarrow> nat \<Rightarrow> nat \<Rightarrow> int \<times> int \<Rightarrow> 'w \<Rightarrow> (int \<times> int) option \<times> 'w" where
  "ping_loop rpc pre i 0 (success, fail) w = (Some (success, fail), w)"
| "ping_loop rpc pre i (Suc n) (success, fail) w =
     (case rpc ''PingService'' ''Ping'' (pre @ to_string i) w of
        (None, w) \<Rightarrow> (None, w)
      | (Some resp, w) \<Rightarrow>
          if error_code resp = 0 \<and> result resp = ''pong''
          then ping_loop rpc pre (Suc i) n (success + 1, fail) w
          else ping_loop rpc pre (Suc i) n (success, fail + 1) w)"

section \<open>Times\<close>

record 'd fp =
  fp_of_int :: "int \<Rightarrow> 'd"
  fp_add :: "'d \<Rightarrow> 'd \<Rightarrow> 'd"
  fp_mul :: "'d \<Rightarrow> 'd \<Rightarrow> 'd"
  fp_div :: "'d \<Rightarrow> 'd \<Rightarrow> 'd"
  fp_less :: "'d \<Rightarrow> 'd \<Rightarrow> bool"

text \<open>\<^verbatim>\<open>duration_cast\<close> truncates towards zero.\<close>

definition duration_cast :: "int \<Rightarrow> int \<Rightarrow> int" where
  "duration_cast unit_ns d = (if d < 0 then - ((- d) div unit_ns) else d div unit_ns)"

definition request_latency :: "'d fp \<Rightarrow> (nat \<Rightarrow> int) \<Rightarrow> nat \<Rightarrow> 'd" where
  "request_latency fp tm i =
     (let req_us = duration_cast 1000 (tm (2 * i + 2) - tm (2 * i + 1))
      in fp_div fp (fp_of_int fp req_us) (fp_of_int fp 1000))"

text \<open>
  The loop of the stress mode, which also takes the latency of each success: readings \<open>2 i + 1\<close> and \<open>2 i + 2\<close> of the clock
  are around call \<open>i\<close>.
\<close>

fun stress_loop :: "'d fp \<Rightarrow> (nat \<Rightarrow> int) \<Rightarrow> 'w remote \<Rightarrow> nat \<Rightarrow> nat \<Rightarrow> int \<times> int \<times> 'd list \<Rightarrow> 'w \<Rightarrow>
    (int \<times> int \<times> 'd list) option \<times> 'w" where
  "stress_loop fp tm rpc i 0 r w = (Some r, w)"
| "stress_loop fp tm rpc i (Suc n) (success, fail, latencies) w =
     (case rpc ''PingService'' ''Ping'' (''stress_'' @ to_string i) w of
        (None, w) \<Rightarrow> (None, w)
      | (Some resp, w) \<Rightarrow>
          if error_code resp = 0 \<and> result resp = ''pong''
          then stress_loop fp tm rpc (Suc i) n (success + 1, fail, latencies @ [request_latency fp tm i]) w
          else stress_loop fp tm rpc (Suc i) n (success, fail + 1, latencies) w)"

fun insert_by :: "('d \<Rightarrow> 'd \<Rightarrow> bool) \<Rightarrow> 'd \<Rightarrow> 'd list \<Rightarrow> 'd list" where
  "insert_by lt x [] = [x]"
| "insert_by lt x (y # ys) = (if lt y x then y # insert_by lt x ys else x # y # ys)"

definition sort_by :: "('d \<Rightarrow> 'd \<Rightarrow> bool) \<Rightarrow> 'd list \<Rightarrow> 'd list" where
  "sort_by lt xs = foldr (insert_by lt) xs []"

record 'd stress_stats =
  avg_ms :: 'd
  min_ms :: 'd
  max_ms :: 'd

definition latency_stats :: "'d fp \<Rightarrow> 'd list \<Rightarrow> 'd stress_stats" where
  "latency_stats fp latencies =
     (let zero = fp_of_int fp 0 in
      if latencies = [] then \<lparr>avg_ms = zero, min_ms = zero, max_ms = zero\<rparr>
      else let sorted = sort_by (fp_less fp) latencies in
        \<lparr>avg_ms = fp_div fp (foldl (fp_add fp) zero sorted) (fp_of_int fp (int (length sorted))),
         min_ms = hd sorted, max_ms = last sorted\<rparr>)"

definition stress_qps :: "'d fp \<Rightarrow> int \<Rightarrow> int \<Rightarrow> 'd" where
  "stress_qps fp success total_ms =
     (if 0 < total_ms then fp_div fp (fp_mul fp (fp_of_int fp success) (fp_of_int fp 1000)) (fp_of_int fp total_ms)
      else fp_of_int fp 0)"

text \<open>The rate of the normal mode is an integer division.\<close>

definition interactive_qps :: "int \<Rightarrow> int" where
  "interactive_qps ms = (100 * 1000) div (if 0 < ms then ms else 1)"

datatype 'd client_output =
  HelpText | StressError string | StressOk int int int int 'd "'d stress_stats" | ConnectFailed string | Connected
  | CallResult string | CallError i32 string | Performance int int int int

text \<open>
  The exit code and what is printed; \<open>None\<close> when the program never ends. \<open>cn\<close> is what \<^verbatim>\<open>conn_fut.get()\<close> does. A negative count
  is converted to a \<^verbatim>\<open>size_t\<close> that \<^verbatim>\<open>latencies.reserve\<close> refuses.
\<close>

definition run_stress ::
    "'d fp \<Rightarrow> (nat \<Rightarrow> int) \<Rightarrow> unit res \<Rightarrow> 'w remote \<Rightarrow> int \<Rightarrow> 'w \<Rightarrow> (int \<times> 'd client_output list) option res \<times> 'w" where
  "run_stress fp tm cn rpc cnt w =
     (case cn of
        Throw (RuntimeError e) \<Rightarrow> (Ret (Some (1, [StressError e])), w)
      | Throw (StdException e) \<Rightarrow> (Ret (Some (1, [StressError e])), w)
      | Throw OtherException \<Rightarrow> (Throw OtherException, w)
      | UB \<Rightarrow> (UB, w)
      | Ret _ \<Rightarrow>
          if cnt < 0 then (Throw (StdException ''vector::reserve''), w)
          else (case stress_loop fp tm rpc 0 (nat cnt) (0, 0, []) w of
                  (None, w) \<Rightarrow> (Ret None, w)
                | (Some (success, fail, latencies), w) \<Rightarrow>
                    let total_ms = duration_cast 1000000 (tm (2 * nat cnt + 1) - tm 0)
                    in (Ret (Some (0, [StressOk cnt success fail total_ms (stress_qps fp success total_ms)
                                         (latency_stats fp latencies)])), w)))"

definition show_response :: "RpcResponse \<Rightarrow> 'd client_output" where
  "show_response resp =
     (if error_code resp = 0 then CallResult (result resp) else CallError (error_code resp) (error_msg resp))"

definition show_error :: "RpcResponse \<Rightarrow> 'd client_output" where
  "show_error resp = CallError (error_code resp) (error_msg resp)"

definition run_interactive ::
    "(nat \<Rightarrow> int) \<Rightarrow> unit res \<Rightarrow> 'w remote \<Rightarrow> 'w \<Rightarrow> (int \<times> 'd client_output list) option res \<times> 'w" where
  "run_interactive tm cn rpc w =
     (case cn of
        Throw (RuntimeError e) \<Rightarrow> (Ret (Some (1, [ConnectFailed e])), w)
      | Throw (StdException e) \<Rightarrow> (Ret (Some (1, [ConnectFailed e])), w)
      | Throw OtherException \<Rightarrow> (Throw OtherException, w)
      | UB \<Rightarrow> (UB, w)
      | Ret _ \<Rightarrow>
          (case rpc ''PingService'' ''Ping'' '''' w of (None, w) \<Rightarrow> (Ret None, w)
           | (Some r1, w) \<Rightarrow>
          (case rpc ''PingService'' ''Stats'' '''' w of (None, w) \<Rightarrow> (Ret None, w)
           | (Some r2, w) \<Rightarrow>
          (case rpc ''NonExistentService'' ''Foo'' '''' w of (None, w) \<Rightarrow> (Ret None, w)
           | (Some r3, w) \<Rightarrow>
          (case ping_loop rpc ''msg'' 0 100 (0, 0) w of (None, w) \<Rightarrow> (Ret None, w)
           | (Some (success, fail), w) \<Rightarrow>
               let ms = duration_cast 1000000 (tm 1 - tm 0)
               in (Ret (Some (0, [Connected, show_response r1, show_response r2, show_error r3,
                                  Performance success fail ms (interactive_qps ms)])), w))))))"

text \<open>The address the client dials: in stress mode the command line's, otherwise the configuration's with what was set there.\<close>

definition client_target :: "client_args \<Rightarrow> Config \<Rightarrow> string \<times> u16" where
  "client_target a cfg =
     (if host_set a then server_host a else srv_host (cfg_server cfg),
      if port_set a then server_port a else srv_port (cfg_server cfg))"

definition client_main ::
    "'d fp \<Rightarrow> (nat \<Rightarrow> int) \<Rightarrow> (string \<Rightarrow> json option) \<Rightarrow> (string \<Rightarrow> string option) \<Rightarrow> 'l log_env \<Rightarrow> (string \<Rightarrow> 'l) \<Rightarrow>
     (string \<Rightarrow> u16 \<Rightarrow> unit res) \<Rightarrow> 'w remote \<Rightarrow> string list \<Rightarrow> 'w \<Rightarrow> (int \<times> 'd client_output list) option res \<times> 'w" where
  "client_main fp tm parse fs env from_str dial rpc args w =
     (case client_parse args client_args0 of
        Throw e \<Rightarrow> (Throw e, w) | UB \<Rightarrow> (UB, w)
      | Ret ClientHelp \<Rightarrow> (Ret (Some (0, [HelpText])), w)
      | Ret (ClientRun a) \<Rightarrow>
          if stress_mode a then run_stress fp tm (dial (server_host a) (server_port a)) rpc (stress_count a) w
          else
            (case load_config parse fs (cl_config_path a) of
               Throw e \<Rightarrow> (Throw e, w) | UB \<Rightarrow> (UB, w)
             | Ret cfg \<Rightarrow>
                 (case fst (init_logger env (log_dir (cfg_log cfg)) ''client.log'' (from_str (log_level (cfg_log cfg)))
                         log_state0) of
                    Throw e \<Rightarrow> (Throw e, w) | UB \<Rightarrow> (UB, w)
                  | Ret _ \<Rightarrow> (case client_target a cfg of (h, p) \<Rightarrow> run_interactive tm (dial h p) rpc w))))"

section \<open>Counting\<close>

text \<open>Every call that is answered is counted once, as a success or as a failure, and only the successes are timed.\<close>

lemma stress_loop_counts:
  assumes "stress_loop fp tm rpc i n (s, f, ls) w = (Some (s', f', ls'), w')"
  shows "s' + f' = s + f + int n \<and> f \<le> f' \<and> int (length ls') - int (length ls) = s' - s"
  using assms
proof (induction n arbitrary: i s f ls w)
  case (Suc n)
  obtain r w1 where r: "rpc ''PingService'' ''Ping'' (''stress_'' @ to_string i) w = (r, w1)" by force
  with Suc.prems obtain resp where resp: "r = Some resp" by (cases r) auto
  show ?case
  proof (cases "error_code resp = 0 \<and> result resp = ''pong''")
    case True
    then show ?thesis using Suc.IH [of "Suc i" "s + 1" f "ls @ [request_latency fp tm i]" w1] Suc.prems r resp by simp
  next
    case False
    then have "stress_loop fp tm rpc (Suc i) n (s, f + 1, ls) w1 = (Some (s', f', ls'), w')"
      using Suc.prems r resp by (simp only: stress_loop.simps) (simp only: prod.case option.case if_False)
    from Suc.IH [OF this] show ?thesis by simp
  qed
qed simp

text \<open>With the strict weak order \<^verbatim>\<open>std::sort\<close> asks for, the first and the last of the sorted latencies are the extremes.\<close>

definition weak_order :: "('d \<Rightarrow> 'd \<Rightarrow> bool) \<Rightarrow> bool" where
  "weak_order lt \<longleftrightarrow> (\<forall>a b. lt a b \<longrightarrow> \<not> lt b a) \<and> (\<forall>a b c. lt a c \<longrightarrow> lt a b \<or> lt b c)"

lemma set_insert_by [simp]: "set (insert_by lt x xs) = insert x (set xs)"
  by (induction xs) auto

lemma set_sort_by [simp]: "set (sort_by lt xs) = set xs"
  by (induction xs) (auto simp: sort_by_def)

lemma sort_by_Nil: "sort_by lt xs = [] \<longleftrightarrow> xs = []"
  by (metis set_empty set_sort_by)

lemma sorted_insert_by:
  assumes "weak_order lt" and "sorted_wrt (\<lambda>a b. \<not> lt b a) xs"
  shows "sorted_wrt (\<lambda>a b. \<not> lt b a) (insert_by lt x xs)"
  using assms(2)
proof (induction xs)
  case (Cons y ys)
  show ?case
  proof (cases "lt y x")
    case True
    then have "\<not> lt x y" using assms(1) by (auto simp: weak_order_def)
    then show ?thesis using Cons True by simp
  next
    case False
    then have "\<not> lt z x" if "z \<in> set ys" for z
      using assms(1) Cons.prems that unfolding weak_order_def by (metis sorted_wrt.simps(2))
    then show ?thesis using Cons.prems False by simp
  qed
qed simp

lemma sorted_sort_by: "weak_order lt \<Longrightarrow> sorted_wrt (\<lambda>a b. \<not> lt b a) (sort_by lt xs)"
  by (induction xs) (simp_all add: sort_by_def sorted_insert_by)

lemma sorted_ends:
  assumes "sorted_wrt (\<lambda>a b. \<not> lt b a) xs" and "weak_order lt" and "x \<in> set xs"
  shows "\<not> lt x (hd xs)" "\<not> lt (last xs) x"
proof -
  have irr: "\<not> lt a a" for a using assms(2) by (auto simp: weak_order_def)
  from assms(1,3) irr show "\<not> lt x (hd xs)" by (cases xs) auto
  obtain ys y where "xs = ys @ [y]" using assms(3) by (metis empty_iff empty_set rev_exhaust)
  with assms(1,3) irr show "\<not> lt (last xs) x" by (auto simp: sorted_wrt_append)
qed

lemma latency_extremes:
  assumes "weak_order (fp_less fp)" and "x \<in> set ls"
  shows "\<not> fp_less fp x (min_ms (latency_stats fp ls)) \<and> \<not> fp_less fp (max_ms (latency_stats fp ls)) x \<and>
    min_ms (latency_stats fp ls) \<in> set ls \<and> max_ms (latency_stats fp ls) \<in> set ls"
proof -
  have ne: "ls \<noteq> []" "sort_by (fp_less fp) ls \<noteq> []" using assms(2) by (auto simp: sort_by_Nil)
  then show ?thesis
    using sorted_ends [OF sorted_sort_by [OF assms(1)] assms(1), of x ls] assms(2) hd_in_set [OF ne(2)] last_in_set [OF ne(2)]
    by (simp add: latency_stats_def Let_def)
qed

section \<open>Against the server\<close>

text \<open>A call carried to the server's \<^const>\<open>process_request\<close> and back; the default timeout of \<^verbatim>\<open>call\<close> is 5000 ms.\<close>

definition served :: "'w ServiceManager \<Rightarrow> 'w remote" where
  "served m svc meth ps w =
     (case serialize_request \<lparr>service_name = svc, method_name = meth, timeout_ms = 5000, params = ps\<rparr> of
        Ret body \<Rightarrow>
          (case process_request m (request_header 1 body) body w of
             (Ret resp, w') \<Rightarrow> (Some resp, w') | (_, w') \<Rightarrow> (None, w'))
      | _ \<Rightarrow> (None, w))"

lemma served_eq:
  assumes "length svc < 2 ^ 16" and "length meth < 2 ^ 16" and "length ps < 2 ^ 32"
  shows "served m svc meth ps w =
    (case dispatch m svc meth ps w of
       (Ret out, w') \<Rightarrow> (Some (empty_response\<lparr>error_code := 0, result := out\<rparr>), w')
     | (Throw (RuntimeError err), w') \<Rightarrow> (Some (error_response (classify err) err), w')
     | (_, w') \<Rightarrow> (None, w'))"
proof -
  let ?r = "\<lparr>service_name = svc, method_name = meth, timeout_ms = 5000, params = ps\<rparr>"
  have "request_fits ?r" using assms by (simp add: request_fits_def)
  then have "deserialize_request (request_layout ?r) = Ret ?r" using deserialize_request_layout [of ?r "[]"] by simp
  then show ?thesis
    by (simp add: served_def serialize_request_eq process_request_def process_request_via_def request_header_def
        split: prod.split res.split exn.split)
qed

lemma served_ping:
  assumes "length ps < 2 ^ 32"
  shows "served (ping_manager cnt) ''PingService'' ''Ping'' ps w = (Some pong_response, w)"
  using assms
  by (simp add: served_eq dispatch_def PingService_def ping_handle_def pong_response_def empty_response_def)

lemma served_stats:
  "served (ping_manager cnt) ''PingService'' ''Stats'' '''' w =
   (Some (empty_response\<lparr>result := ''{\"status\":\"running\",\"connections\":'' @ to_string (cnt w) @ ''}''\<rparr>), w)"
  by (simp add: served_eq dispatch_def PingService_def ping_handle_def empty_response_def)

lemma served_unknown:
  "served (ping_manager cnt) ''NonExistentService'' ''Foo'' '''' w =
   (Some (error_response SERVICE_NOT_FOUND ''service not found: NonExistentService''), w)"
  by (simp add: served_eq dispatch_def classify_def)

lemma ping_loop_served:
  "i + n \<le> 2 ^ 31 \<Longrightarrow> length pre \<le> 100 \<Longrightarrow>
   ping_loop (served (ping_manager cnt)) pre i n (s, f) w = (Some (s + int n, f), w)"
proof (induction n arbitrary: i s)
  case (Suc n)
  have "length (pre @ to_string i) < 2 ^ 32" using Suc.prems length_to_string [of i] by simp
  then show ?case using Suc.IH [of "Suc i" "s + 1"] Suc.prems by (simp add: served_ping pong_response_def)
qed simp

lemma stress_loop_served:
  "i + n \<le> 2 ^ 31 \<Longrightarrow> stress_loop fp tm (served (ping_manager cnt)) i n (s, f, ls) w =
     (Some (s + int n, f, ls @ map (request_latency fp tm) [i..<i + n]), w)"
proof (induction n arbitrary: i s ls)
  case (Suc n)
  have "length (''stress_'' @ to_string i) < 2 ^ 32" using Suc.prems length_to_string [of i] by simp
  then have "served (ping_manager cnt) ''PingService'' ''Ping'' (''stress_'' @ to_string i) w = (Some pong_response, w)"
    by (rule served_ping)
  then show ?case
    using Suc.IH [of "Suc i" "s + 1" "ls @ [request_latency fp tm i]"] Suc.prems
    by (simp only: stress_loop.simps prod.case option.case) (simp add: pong_response_def upt_conv_Cons del: upt_Suc)
qed simp


definition int_fp :: "int fp" where
  "int_fp = \<lparr>fp_of_int = (\<lambda>i. i), fp_add = (+), fp_mul = (*), fp_div = (div), fp_less = (<)\<rparr>"


end
