(* ===== verification/Spec2Isabelle.thy ===== *)
theory Spec2Isabelle
  imports Deployment Sync_Server Task_Bag Long_Names Lifecycle Config_Print Discovery_Wire Compress Encrypt Serializer Create_Socket Client_Main
begin

text \<open>
  A verification of the RPC framework under \<^verbatim>\<open>src/\<close>, a C++ client and server over Boost.Asio with service discovery through
  ZooKeeper. This theory is the root: it states the round trip that spans client, wire and server; what all runs of the whole system have in
  common stands in \<^verbatim>\<open>Many_Clients\<close>, every other property in the theory of its component. Paths below are relative to \<^verbatim>\<open>src/\<close>.

  \<^bold>\<open>The program and its parts.\<close>
  A client (\<^verbatim>\<open>src/core/rpc_client\<close>) numbers its calls, keeps a promise per number, and sends frames of a 20-byte header and a body
  (\<^verbatim>\<open>src/protocol\<close>). The server accepts connections (\<^verbatim>\<open>src/network\<close>), cuts the byte stream into frames, and hands
  each request to a thread pool (\<^verbatim>\<open>src/thread_pool\<close>), whose workers dispatch it to a service (\<^verbatim>\<open>src/service\<close>) and send the response on the
  connection (\<^verbatim>\<open>src/core/rpc_service\<close>). Nodes are registered and found in ZooKeeper by a client of its protocol
  (\<^verbatim>\<open>include/zk_client\<close>, \<^verbatim>\<open>src/registry\<close>) and chosen by a load balancer (\<^verbatim>\<open>src/conn_balancer\<close>). Configuration, logging, compression,
  encryption and serializers are libraries of the framework; two programs, \<^verbatim>\<open>src/server_main.cpp\<close> and \<^verbatim>\<open>src/client_main.cpp\<close>, put it together.

  \<^bold>\<open>Theories.\<close>
  \<^item> \<^verbatim>\<open>Rpc_Prelude\<close>, \<^verbatim>\<open>Std_Containers\<close>: integers as words, results that return, throw or are undefined, byte buffers, hash maps
    (locale \<^verbatim>\<open>keyed_store\<close>), strings and \<^verbatim>\<open>std::to_string\<close>.
  \<^item> \<^verbatim>\<open>Rpc_Protocol\<close> (\<^verbatim>\<open>rpc_protocol.h/.cpp\<close>): the codecs with their offsets and length checks, and the CRC32 with its static table.
    Locale \<^verbatim>\<open>message_codec\<close>, interpreted for header, request and response. Shown: round trips with the exact bounds of the length fields, that no input
    makes a reader leave its buffer, soundness of the request reader, and the table-driven CRC against its bitwise definition.
  \<^item> \<^verbatim>\<open>Error_Code\<close>, \<^verbatim>\<open>Service_Manager\<close>: error numbers; the registry of services and \<^verbatim>\<open>dispatch\<close>, whose contract is the locale \<^verbatim>\<open>request_dispatcher\<close>.
  \<^item> \<^verbatim>\<open>Write_Queue\<close>: the locale \<^verbatim>\<open>serial_writer\<close>, the discipline of one outstanding write, interpreted by connection and client.
  \<^item> \<^verbatim>\<open>Connection\<close>, \<^verbatim>\<open>Connection_Manager\<close>, \<^verbatim>\<open>Message_Cycle\<close>: one connection with every asynchronous completion as an operation, the store of shared
    connection objects and their manager, the accept loop and shutdown. Shown: which frames a byte stream is cut into, writes in order and one at a time, the close callback once, and
    that the manager holds exactly the live connections, in every interleaving.
  \<^item> \<^verbatim>\<open>Thread_Pool\<close>: workers as state machines over the shared queue and counters. Shown: every accepted task runs once, shutdown ends under every
    schedule, what the counters and \<^verbatim>\<open>drain\<close> mean. \<^verbatim>\<open>Task_Bag\<close>: the queue of tasks the pool promises, and that the pool refines it.
  \<^item> \<^verbatim>\<open>Rpc_Server\<close> (\<^verbatim>\<open>rpc_service.h/.cpp\<close>, and \<^verbatim>\<open>PingService\<close>): request processing on every path and the server with its pool.
    \<^verbatim>\<open>Server_Runs\<close>: the server under load, any number of connections accepted, read, failing and closed while workers run; one response per request.
    \<^verbatim>\<open>Sync_Server\<close>: the server without a pool, whose answers keep the order of the requests.
  \<^item> \<^verbatim>\<open>Rpc_Client\<close>: calls, writer, reading loop, rejection, disconnection; promises fulfilled once and by their own responses.
    \<^verbatim>\<open>Lifecycle\<close>: the destructors of connection, message cycle, server and client; what a number still in use does to a promise; that \<^verbatim>\<open>disconnect\<close> is
    final, so that a client has one connection in its life.
  \<^item> \<^verbatim>\<open>Rpc_System\<close> and this theory: series of calls, the frames they send, the replies, and the round trip. \<^verbatim>\<open>Long_Names\<close>: an answer the wire format
    cannot carry, and what it does to the client.
  \<^item> \<^verbatim>\<open>Refinement\<close>: the locales \<^verbatim>\<open>transition_system\<close> and \<^verbatim>\<open>simulation\<close>, interpreted by \<^verbatim>\<open>Task_Bag\<close>, \<^verbatim>\<open>Call_Ledger\<close> and \<^verbatim>\<open>Many_Clients\<close>.
  \<^item> \<^verbatim>\<open>Byte_Stream\<close>, \<^verbatim>\<open>Rpc_Network\<close>: client and server joined by the two directions of a TCP connection; every thread of both sides interleaves with
    every completion, failure and shutdown. The invariant relates the frames in the streams, the requests on their way and the answers.
    \<^verbatim>\<open>Call_Ledger\<close>: the abstract ledger of calls, that the system refines it, and what follows for callers end to end, with a ping as a run of the whole system.
    \<^verbatim>\<open>Net_Progress\<close>: while the connection lives no call is stuck, by a schedule and two measures of what is left to do.
    \<^verbatim>\<open>Many_Clients\<close>: any number of clients at one server; each sees a run of \<^verbatim>\<open>Rpc_Network\<close>, so all this holds of every client at once.
    \<^verbatim>\<open>Deployment\<close>: the server program, booted by \<^verbatim>\<open>main\<close> with \<^verbatim>\<open>PingService\<close>, and the replies its clients get.
  \<^item> \<^verbatim>\<open>Conn_Balancer\<close>: strategies behind the locale \<^verbatim>\<open>balancer_strategy\<close>; fairness of round robin, proportionality of the weighted draw, the node list.
  \<^item> \<^verbatim>\<open>Zk_Proto\<close> (\<^verbatim>\<open>zk_proto.hpp\<close>; locale \<^verbatim>\<open>wire_reader\<close>), \<^verbatim>\<open>Zk_Client\<close> (\<^verbatim>\<open>zk_client.hpp\<close>): the ZooKeeper wire format over raw memory, the handshake and the
    requests with their promises.
  \<^item> \<^verbatim>\<open>Service_Registry\<close>, \<^verbatim>\<open>Node_Manager\<close>: registration and discovery over a session \<^verbatim>\<open>zk_session\<close>, a parameter with the answers of the ensemble.
    \<^verbatim>\<open>Registry_Wire\<close>: the session the program really has, the polling loops around the client of \<^verbatim>\<open>Zk_Client\<close> over a byte stream, and that it refines the ideal one;
    \<^verbatim>\<open>Discovery_Wire\<close> carries this up to the node manager and its load balancer.
  \<^item> \<^verbatim>\<open>Load_Config\<close>, \<^verbatim>\<open>Config_Print\<close> (what is printed, and which files are loaded, as a typing of JSON values), \<^verbatim>\<open>Log_Init\<close>, \<^verbatim>\<open>Compress\<close>, \<^verbatim>\<open>Encrypt\<close>, \<^verbatim>\<open>Serializer\<close>, \<^verbatim>\<open>Create_Socket\<close>: the libraries, over JSON, spdlog, zstd, OpenSSL and
    protobuf as parameters.
  \<^item> \<^verbatim>\<open>Command_Line\<close>, \<^verbatim>\<open>Server_Main\<close>, \<^verbatim>\<open>Client_Main\<close>: the two programs.

  \<^bold>\<open>Conventions.\<close>
  An object is a record and a member function a definition on it. An asynchronous operation of Asio is a field that says what is outstanding, and its completion handler
  is an operation with the error code and the bytes as arguments. Code that other threads can interrupt is split at its critical sections and atomic updates; \<^verbatim>\<open>inductive\<close> step relations
  interleave these pieces freely. A \<^verbatim>\<open>std::promise\<close> is a number and its \<^verbatim>\<open>set_value\<close> calls are logged, so that setting one twice would show.

  \<^bold>\<open>Bounds.\<close>
  Sequence numbers and ZooKeeper transaction numbers are 32 bits and wrap: statements about their uniqueness are for up to \<open>2 ^ 32\<close> calls, and so is the round trip. Connection
  identifiers are 64 bits, with the corresponding bound. The reading loops \<^verbatim>\<open>conn_feed\<close> and \<^verbatim>\<open>client_feed\<close> are total functions of a finite byte
  stream that ends in end-of-file; no fuel is used. Waiting for a reply of ZooKeeper may last forever and is then the value \<^const>\<open>None\<close>;
  \<^verbatim>\<open>Registry_Wire\<close> shows that it ends when the ensemble answers, with packets up to ZooKeeper's limit of a mebibyte. In
  \<^verbatim>\<open>Rpc_Network\<close> the requests and answers are those the length fields can carry (\<^verbatim>\<open>call_fits\<close>, \<^verbatim>\<open>answers_fit\<close>); \<^verbatim>\<open>Long_Names\<close> shows what happens otherwise.

  \<^bold>\<open>Not modelled.\<close>
  The labels the two programs print around their results; exhaustion of memory and threads; the kernel's buffering, beyond streams that keep order and
  may break inside a frame; the third-party
  libraries, which are parameters with their documented behaviour as named hypotheses (\<^verbatim>\<open>zstd_works\<close>, \<^verbatim>\<open>evp_works\<close>,
  \<^verbatim>\<open>pb_faithful\<close>, \<^verbatim>\<open>zk_serves\<close>, \<^verbatim>\<open>speaks\<close>); the generated \<^verbatim>\<open>message_proto.pb\<close> files, used by a test only; the programs under \<^verbatim>\<open>environment_test\<close>; and
  the empty files \<^verbatim>\<open>tools.h\<close>, \<^verbatim>\<open>utils.h\<close>, \<^verbatim>\<open>message_pb.*\<close>.
\<close>

section \<open>The round trip\<close>

lemma round_trip_frames:
  assumes "calling 0 c0" and "clw.handed_over c0 = []" and "length rs \<le> 2 ^ 32" and "call_all rs c0 = Ret c"
    and "\<forall>r \<in> set rs. length (request_layout r) < 2 ^ 32"
  shows "delivered (concat (sent_frames c)) = map (\<lambda>(k, r). request_frame k r) (zip [0..<length rs] rs)"
    and "calling (length rs) c"
proof -
  let ?fs = "map (\<lambda>(k, r). request_frame k r) (zip [0..<length rs] rs)"
  have h: "clw.handed_over c = map (\<lambda>(k, r). request_item (seq_of k) r) (zip [0..<length rs] rs)"
    and c: "calling (length rs) c"
    using call_all_calling [OF assms(1), of rs] assms(2-4) by auto
  have "sent_frames c = map frame_bytes ?fs"
    by (simp add: sent_frames_eq h frame_request_item case_prod_beta comp_def)
  moreover have "\<forall>f \<in> set ?fs. frame_ok f"
    using assms(5) by (auto dest!: set_zip_rightD intro: request_frame_ok)
  ultimately show "delivered (concat (sent_frames c)) = ?fs" using delivered_frames by metis
  show "calling (length rs) c" by (rule c)
qed

text \<open>
  The responses of the server to a list of calls, each with the number of its call.
\<close>

lemma replies_match:
  assumes "list_all2 (carries m w) rs resps"
  defines "fs \<equiv> concat (map (reply m w) (map (\<lambda>(k, r). request_frame k r) (zip [0..<length rs] rs)))"
  shows "list_all response_frame_ok fs" and "map (\<lambda>(h, resp). seq_id h) fs = map seq_of [0..<length rs]"
    and "map snd fs = resps"
proof -
  have len: "length rs = length resps" using assms(1) by (rule list_all2_lengthD)
  have ca: "carries m w (rs ! i) (resps ! i)" if "i < length rs" for i
    using assms(1) that by (simp add: list_all2_conv_all_nth)
  define g where "g i = (response_header (fst (request_frame i (rs ! i))) (resps ! i) (response_layout (resps ! i)),
      resps ! i)" for i
  have zip: "map (\<lambda>(k, r). request_frame k r) (zip [0..<length rs] rs) =
      map (\<lambda>i. request_frame i (rs ! i)) [0..<length rs]"
    by (rule nth_equalityI) simp_all
  have rep: "map (reply m w) (map (\<lambda>i. request_frame i (rs ! i)) [0..<length rs]) = map (\<lambda>i. [g i]) [0..<length rs]"
    using reply_request(1) [OF ca] by (simp add: g_def)
  have fs: "fs = map g [0..<length rs]" unfolding fs_def zip rep by simp
  show "list_all response_frame_ok fs"
    using reply_request(2) [OF ca] by (simp add: fs list_all_iff g_def)
  show "map (\<lambda>(h, resp). seq_id h) fs = map seq_of [0..<length rs]"
    using reply_request(3) [OF ca] by (simp add: fs g_def)
  show "map snd fs = resps" by (rule nth_equalityI) (simp_all add: fs g_def len)
qed



end
